(* ===== verification/Prelude.thy ===== *)
theory Prelude
  imports Main "HOL-Library.Word"
begin

text \<open>
  Shared vocabulary of the development.

  The programs under src/code_dump and src/vtb are C and C++ programs: they work on machine integers, on
  byte buffers and on raw pointers, and they leave a function in more ways than by
  returning. This theory fixes
  \<^item> the names of the integer types (\<open>u8\<close>, \<open>u16\<close>, \<open>u32\<close>, \<open>u64\<close>; \<open>cint\<close> is a C
    \<^verbatim>\<open>int\<close> kept as its 32-bit pattern, read with \<^const>\<open>sint\<close> where its sign matters);
  \<^item> the outcomes of a C function that does not return normally (\<open>c_error\<close>) and the
    sequencing of fallible calls (\<open>bindE\<close>);
  \<^item> the little-endian object representation of integers (\<open>le_bytes\<close>, \<open>le_word\<close>), with
    the two round trips;
  \<^item> bounded access to fixed-size C arrays (\<open>arr_get\<close>, \<open>arr_set\<close>).
\<close>

unbundle bit_operations_syntax

named_theorems res_simps "evaluation of fallible sequencing"
named_theorems mem_simps "loads and stores"

type_synonym u8 = "8 word"
type_synonym u16 = "16 word"
type_synonym u32 = "32 word"
type_synonym u64 = "64 word"
type_synonym cint = "32 word"

section \<open>Outcomes that are not a return\<close>

text \<open>
  \<open>Exit n\<close>: the program called \<^verbatim>\<open>exit(n)\<close>. \<open>AssertFail\<close>: a failed \<^verbatim>\<open>assert\<close>.
  \<open>SegFault a\<close>: an access to the unmapped address \<open>a\<close>. \<open>OutOfBounds\<close>: an access outside a
  C array or buffer, which the language leaves undefined. \<open>DivideByZero\<close>: \<^verbatim>\<open>%\<close> or \<^verbatim>\<open>/\<close> by
  zero. \<open>SignedOverflow\<close>: overflow of a signed integer, undefined in C. \<open>Blocked\<close>: the
  operating system has not answered a blocking call. \<open>OutOfFuel\<close>: a bound on the number of
  iterations of a loop was reached.
\<close>

datatype c_error =
    Exit int
  | AssertFail string
  | SegFault u64
  | OutOfBounds
  | DivideByZero
  | SignedOverflow
  | Blocked
  | OutOfFuel

type_synonym 'a res = "c_error + 'a"

definition bindE :: "'e + 'a \<Rightarrow> ('a \<Rightarrow> 'e + 'b) \<Rightarrow> 'e + 'b" where
  "bindE r f = (case r of Inl e \<Rightarrow> Inl e | Inr x \<Rightarrow> f x)"

definition arr_get :: "'a list \<Rightarrow> nat \<Rightarrow> 'a res" where
  "arr_get xs i = (if i < length xs then Inr (xs ! i) else Inl OutOfBounds)"

definition arr_set :: "'a list \<Rightarrow> nat \<Rightarrow> 'a \<Rightarrow> 'a list res" where
  "arr_set xs i v = (if i < length xs then Inr (xs[i := v]) else Inl OutOfBounds)"

text \<open>Overwriting part of a buffer, as \<^verbatim>\<open>memcpy (buf + off, bs, length bs)\<close> does.\<close>

definition buf_write :: "'a list \<Rightarrow> nat \<Rightarrow> 'a list \<Rightarrow> 'a list res" where
  "buf_write buf off bs =
     (if off + length bs \<le> length buf
      then Inr (take off buf @ bs @ drop (off + length bs) buf)
      else Inl OutOfBounds)"

section \<open>Little-endian object representation\<close>

fun le_word :: "u8 list \<Rightarrow> 'a::len word" where
  "le_word [] = 0"
| "le_word (b # bs) = ucast b OR push_bit 8 (le_word bs)"

fun le_bytes :: "nat \<Rightarrow> 'a::len word \<Rightarrow> u8 list" where
  "le_bytes 0 w = []"
| "le_bytes (Suc n) w = ucast w # le_bytes n (drop_bit 8 w)"

text \<open>The big-endian reading that \<^verbatim>\<open>ntohs\<close>/\<^verbatim>\<open>ntohl\<close> give of the same bytes.\<close>

definition be_word :: "u8 list \<Rightarrow> 'a::len word" where
  "be_word bs = le_word (rev bs)"

definition be_bytes :: "nat \<Rightarrow> 'a::len word \<Rightarrow> u8 list" where
  "be_bytes n w = rev (le_bytes n w)"

section \<open>Lemmas\<close>

lemma bindE_Inl [simp, res_simps]: "bindE (Inl e) f = Inl e"
  by (simp add: bindE_def)

lemma bindE_Inr [simp, res_simps]: "bindE (Inr x) f = f x"
  by (simp add: bindE_def)

lemma bindE_eq_Inr_iff: "bindE r f = Inr y \<longleftrightarrow> (\<exists>x. r = Inr x \<and> f x = Inr y)"
  by (cases r) (simp_all add: bindE_def)

lemma bindE_eq_Inl_iff:
  "bindE r f = Inl e \<longleftrightarrow> r = Inl e \<or> (\<exists>x. r = Inr x \<and> f x = Inl e)"
  by (cases r) (simp_all add: bindE_def)

lemma bindE_InrE:
  assumes "bindE r f = Inr y"
  obtains x where "r = Inr x" and "f x = Inr y"
  using assms by (auto simp: bindE_eq_Inr_iff)

lemma bindE_assoc: "bindE (bindE r f) g = bindE r (\<lambda>x. bindE (f x) g)"
  by (cases r) (simp_all add: bindE_def)

lemma bindE_cong [fundef_cong]:
  "r = r' \<Longrightarrow> (\<And>x. r' = Inr x \<Longrightarrow> f x = f' x) \<Longrightarrow> bindE r f = bindE r' f'"
  by (cases r') (auto simp: bindE_def)

lemma arr_get_lt [simp, res_simps]: "i < length xs \<Longrightarrow> arr_get xs i = Inr (xs ! i)"
  by (simp add: arr_get_def)

lemma arr_get_ge [simp, res_simps]: "length xs \<le> i \<Longrightarrow> arr_get xs i = Inl OutOfBounds"
  by (simp add: arr_get_def)

lemma arr_get_eq_Inr: "arr_get xs i = Inr x \<longleftrightarrow> i < length xs \<and> x = xs ! i"
  by (auto simp: arr_get_def)

lemma arr_set_lt [simp, res_simps]: "i < length xs \<Longrightarrow> arr_set xs i v = Inr (xs[i := v])"
  by (simp add: arr_set_def)

lemma arr_set_ge [simp, res_simps]: "length xs \<le> i \<Longrightarrow> arr_set xs i v = Inl OutOfBounds"
  by (simp add: arr_set_def)

lemma arr_set_eq_Inr: "arr_set xs i v = Inr ys \<longleftrightarrow> i < length xs \<and> ys = xs[i := v]"
  by (auto simp: arr_set_def)

lemma buf_write_ok [res_simps]:
  "off + length bs \<le> length buf \<Longrightarrow>
   buf_write buf off bs = Inr (take off buf @ bs @ drop (off + length bs) buf)"
  by (simp add: buf_write_def)

lemma buf_write_eq_Inr:
  "buf_write buf off bs = Inr buf' \<longleftrightarrow>
   off + length bs \<le> length buf \<and> buf' = take off buf @ bs @ drop (off + length bs) buf"
  by (auto simp: buf_write_def)

lemma buf_write_length: "buf_write buf off bs = Inr buf' \<Longrightarrow> length buf' = length buf"
  by (auto simp: buf_write_eq_Inr)

lemma buf_write_prefix:
  "buf_write buf off bs = Inr buf' \<Longrightarrow>
   take (off + length bs) buf' = take off buf @ bs"
  by (auto simp: buf_write_eq_Inr)

lemma length_le_bytes [simp]: "length (le_bytes n w) = n"
  by (induction n arbitrary: w) auto

lemma length_be_bytes [simp]: "length (be_bytes n w) = n"
  by (simp add: be_bytes_def)

lemma le_bytes_unfold:
  "le_bytes 2 w = [ucast w, ucast (drop_bit 8 w)]"
  "le_bytes 4 x = [ucast x, ucast (drop_bit 8 x), ucast (drop_bit 16 x), ucast (drop_bit 24 x)]"
  "le_bytes 8 y = [ucast y, ucast (drop_bit 8 y), ucast (drop_bit 16 y), ucast (drop_bit 24 y),
     ucast (drop_bit 32 y), ucast (drop_bit 40 y), ucast (drop_bit 48 y), ucast (drop_bit 56 y)]"
  by (simp_all add: numeral_eq_Suc)

lemma bit_le_word:
  "bit (le_word bs :: 'a::len word) k \<longleftrightarrow>
     k < LENGTH('a) \<and> k div 8 < length bs \<and> bit (bs ! (k div 8)) (k mod 8)"
proof (induction bs arbitrary: k)
  case Nil
  then show ?case by simp
next
  case (Cons b bs)
  show ?case
  proof (cases "k < 8")
    case True
    then show ?thesis by (auto simp: bit_simps)
  next
    case False
    then have k: "k div 8 = Suc ((k - 8) div 8)" "k mod 8 = (k - 8) mod 8"
      by (simp_all add: le_div_geq[of 8 k] le_mod_geq[of 8 k])
    have "\<not> bit b k" using False by (auto dest: bit_imp_le_length)
    then have "bit (le_word (b # bs) :: 'a word) k \<longleftrightarrow>
        k < LENGTH('a) \<and> bit (le_word bs :: 'a word) (k - 8)"
      using False by (auto simp: bit_simps)
    with Cons.IH[of "k - 8"] k False show ?thesis by auto
  qed
qed

lemma bit_le_bytes_nth:
  "i < n \<Longrightarrow> bit (le_bytes n (w::'a::len word) ! i) k \<longleftrightarrow> k < 8 \<and> bit w (8 * i + k)"
proof (induction n arbitrary: w i)
  case 0
  then show ?case by simp
next
  case (Suc n)
  show ?case
  proof (cases i)
    case 0
    then show ?thesis by (auto simp: bit_simps dest: bit_imp_le_length)
  next
    case (Suc j)
    with Suc.prems Suc.IH[of j "drop_bit 8 w"] show ?thesis
      by (simp add: bit_simps add.assoc)
  qed
qed

lemma le_word_le_bytes:
  assumes "LENGTH('a) \<le> 8 * n"
  shows "le_word (le_bytes n (w :: 'a::len word)) = w"
proof (rule bit_word_eqI)
  fix k assume "k < LENGTH('a)"
  with assms have "k div 8 < n" by (simp add: less_mult_imp_div_less mult.commute)
  with \<open>k < LENGTH('a)\<close> show "bit (le_word (le_bytes n w) :: 'a word) k = bit w k"
    by (simp add: bit_le_word bit_le_bytes_nth)
qed

lemma le_bytes_le_word:
  assumes "8 * length bs \<le> LENGTH('a)"
  shows "le_bytes (length bs) (le_word bs :: 'a::len word) = bs"
proof (rule nth_equalityI)
  show "length (le_bytes (length bs) (le_word bs :: 'a word)) = length bs" by simp
next
  fix i assume "i < length (le_bytes (length bs) (le_word bs :: 'a word))"
  then have i: "i < length bs" by simp
  show "le_bytes (length bs) (le_word bs :: 'a word) ! i = bs ! i"
  proof (rule bit_word_eqI)
    fix k assume k: "k < LENGTH(8)"
    then have "8 * i + k < LENGTH('a)" using i assms by simp
    with i k show "bit (le_bytes (length bs) (le_word bs :: 'a word) ! i) k = bit (bs ! i) k"
      by (simp add: bit_le_bytes_nth bit_le_word)
  qed
qed

lemma le_word_bytes16 [simp]: "le_word (le_bytes 2 (w::u16)) = w"
  by (rule le_word_le_bytes) simp

lemma le_word_bytes32 [simp]: "le_word (le_bytes 4 (w::u32)) = w"
  by (rule le_word_le_bytes) simp

lemma le_word_bytes64 [simp]: "le_word (le_bytes 8 (w::u64)) = w"
  by (rule le_word_le_bytes) simp

lemma be_word_be_bytes:
  "LENGTH('a) \<le> 8 * n \<Longrightarrow> be_word (be_bytes n (w :: 'a::len word)) = w"
  by (simp add: be_word_def be_bytes_def le_word_le_bytes)

end
