(* ===== verification/Mem.thy ===== *)
theory Mem
  imports Prelude
begin

text \<open>
  The address space of a process. The vhost backend of src/code_dump/bkend/bkend.c maps the
  memory of the guest and reads and writes rings and buffers there through raw pointers; an
  access through a pointer that is not mapped kills the process. The model is a partial map
  from 64-bit addresses to bytes. A typed access is a little-endian read or write of 2, 4 or
  8 bytes, and the locale \<open>cell\<close> states once what the ring code relies on: a written value
  is read back, and an access elsewhere is not disturbed. It is interpreted on each of the
  three widths.
\<close>

section \<open>Definitions\<close>

type_synonym mem = "u64 \<rightharpoonup> u8"

definition span :: "u64 \<Rightarrow> nat \<Rightarrow> u64 set" where
  "span a n = (\<lambda>i. a + of_nat i) ` {..<n}"

fun load :: "mem \<Rightarrow> u64 \<Rightarrow> nat \<Rightarrow> u8 list res" where
  "load m a 0 = Inr []"
| "load m a (Suc n) =
     (case m a of
        None \<Rightarrow> Inl (SegFault a)
      | Some b \<Rightarrow> bindE (load m (a + 1) n) (\<lambda>bs. Inr (b # bs)))"

fun store :: "mem \<Rightarrow> u64 \<Rightarrow> u8 list \<Rightarrow> mem res" where
  "store m a [] = Inr m"
| "store m a (b # bs) =
     (case m a of
        None \<Rightarrow> Inl (SegFault a)
      | Some _ \<Rightarrow> store (m(a \<mapsto> b)) (a + 1) bs)"

definition load16 :: "mem \<Rightarrow> u64 \<Rightarrow> u16 res" where
  "load16 m a = bindE (load m a 2) (\<lambda>bs. Inr (le_word bs))"

definition load32 :: "mem \<Rightarrow> u64 \<Rightarrow> u32 res" where
  "load32 m a = bindE (load m a 4) (\<lambda>bs. Inr (le_word bs))"

definition load64 :: "mem \<Rightarrow> u64 \<Rightarrow> u64 res" where
  "load64 m a = bindE (load m a 8) (\<lambda>bs. Inr (le_word bs))"

definition store16 :: "mem \<Rightarrow> u64 \<Rightarrow> u16 \<Rightarrow> mem res" where
  "store16 m a v = store m a (le_bytes 2 v)"

definition store32 :: "mem \<Rightarrow> u64 \<Rightarrow> u32 \<Rightarrow> mem res" where
  "store32 m a v = store m a (le_bytes 4 v)"

definition store64 :: "mem \<Rightarrow> u64 \<Rightarrow> u64 \<Rightarrow> mem res" where
  "store64 m a v = store m a (le_bytes 8 v)"

text \<open>\<open>agree_off S m m'\<close>: the two memories map the same addresses and differ at most on \<open>S\<close>.\<close>

definition agree_off :: "u64 set \<Rightarrow> mem \<Rightarrow> mem \<Rightarrow> bool" where
  "agree_off S m m' \<longleftrightarrow> dom m' = dom m \<and> (\<forall>x. x \<notin> S \<longrightarrow> m' x = m x)"

section \<open>Lemmas on bytes\<close>

lemma span_0 [simp]: "span a 0 = {}"
  by (simp add: span_def)

lemma span_Suc: "span a (Suc n) = insert a (span (a + 1) n)"
proof -
  have "{..<Suc n} = insert 0 (Suc ` {..<n})" by (simp add: lessThan_Suc_eq_insert_0)
  then show ?thesis by (auto simp: span_def image_image add.assoc)
qed

lemma span_numeral [mem_simps]:
  "span a (numeral k) = insert a (span (a + 1) (pred_numeral k))"
  by (simp add: numeral_eq_Suc span_Suc)

lemma span_mono: "n \<le> k \<Longrightarrow> span a n \<subseteq> span a k"
  by (auto simp: span_def)

lemma span_shift: "i + n \<le> k \<Longrightarrow> span (a + of_nat i) n \<subseteq> span a k"
proof
  fix x assume le: "i + n \<le> k" and "x \<in> span (a + of_nat i) n"
  then obtain j where "j < n" "x = a + of_nat (i + j)" by (auto simp: span_def add.assoc)
  with le show "x \<in> span a k" by (auto simp: span_def intro!: image_eqI[of _ _ "i + j"])
qed

lemma in_span_iff: "n \<le> 2 ^ 64 \<Longrightarrow> x \<in> span a n \<longleftrightarrow> unat (x - a) < n"
proof
  assume n: "n \<le> 2 ^ 64" and "x \<in> span a n"
  then obtain i where i: "i < n" "x = a + of_nat i" by (auto simp: span_def)
  then have "unat (of_nat i :: u64) = i" using n by (simp add: unat_of_nat)
  with i show "unat (x - a) < n" by simp
next
  assume "unat (x - a) < n"
  then show "x \<in> span a n"
    by (auto simp: span_def intro!: image_eqI[of _ _ "unat (x - a)"])
qed

lemma span_apart:
  assumes "i + n \<le> j" "j + k \<le> 2 ^ 64"
  shows "span (a + of_nat i) n \<inter> span (a + of_nat j) k = {}"
proof -
  have "False" if x: "x \<in> span (a + of_nat i) n" and y: "x \<in> span (a + of_nat j) k" for x
  proof -
    obtain p where p: "p < n" "x = a + of_nat (i + p)" using x by (auto simp: span_def add.assoc)
    obtain q where q: "q < k" "x = a + of_nat (j + q)" using y by (auto simp: span_def add.assoc)
    from p q have "unat (of_nat (i + p) :: u64) = unat (of_nat (j + q) :: u64)" by simp
    then have "(i + p) mod 2 ^ 64 = (j + q) mod 2 ^ 64"
      by (simp only: unat_of_nat) simp
    with p q assms show False by simp
  qed
  then show ?thesis by blast
qed

lemma span_apart2:
  "i + n \<le> j \<or> j + k \<le> i \<Longrightarrow> i + n \<le> 2 ^ 64 \<Longrightarrow> j + k \<le> 2 ^ 64 \<Longrightarrow>
   span (a + of_nat i) n \<inter> span (a + of_nat j) k = {}"
  using span_apart[of i n j k a] span_apart[of j k i n a] by blast

text \<open>Spans at concrete addresses that do not wrap.\<close>

lemma span_apart_abs:
  assumes "unat a + n \<le> unat b" "unat b + k \<le> 2 ^ 64"
  shows "span a n \<inter> span b k = {}" "span b k \<inter> span a n = {}"
proof -
  show "span a n \<inter> span b k = {}"
    using span_apart[OF assms, of 0] by simp
  then show "span b k \<inter> span a n = {}" by blast
qed

lemma span_below:
  assumes "unat a + n \<le> 2 ^ 64" "x \<in> span a n"
  shows "unat a \<le> unat x \<and> unat x < unat a + n"
proof -
  from assms(2) obtain i where i: "i < n" "x = a + of_nat i" by (auto simp: span_def)
  then have "unat (of_nat i :: u64) = i" using assms(1) by (simp add: unat_of_nat)
  with i assms(1) have "unat x = unat a + i" by (simp add: unat_word_ariths)
  with i show ?thesis by simp
qed

lemma not_in_span_next:
  assumes "n < 2 ^ 64"
  shows "a \<notin> span (a + 1) n"
proof -
  have "unat (a - (a + 1)) = 2 ^ 64 - 1"
    by (simp add: unsigned_minus_1_eq_mask mask_eq_exp_minus_1)
  with assms show ?thesis by (simp only: in_span_iff less_imp_le)
qed

lemma load_numeral [mem_simps]:
  "load m a (numeral k) =
     (case m a of
        None \<Rightarrow> Inl (SegFault a)
      | Some b \<Rightarrow> bindE (load m (a + 1) (pred_numeral k)) (\<lambda>bs. Inr (b # bs)))"
  by (simp add: numeral_eq_Suc)

lemma load_ok_iff: "(\<exists>bs. load m a n = Inr bs) \<longleftrightarrow> span a n \<subseteq> dom m"
proof (induction n arbitrary: a)
  case 0
  then show ?case by simp
next
  case (Suc n)
  show ?case using Suc[of "a + 1"]
    by (cases "m a") (auto simp: span_Suc bindE_eq_Inr_iff)
qed

lemma load_length: "load m a n = Inr bs \<Longrightarrow> length bs = n"
  by (induction n arbitrary: a bs) (auto simp: bindE_eq_Inr_iff split: option.splits)

lemma load_local: "(\<And>x. x \<in> span a n \<Longrightarrow> m' x = m x) \<Longrightarrow> load m' a n = load m a n"
  by (induction n arbitrary: a) (simp_all add: span_Suc split: option.splits)

lemma load_bytes:
  "load m a n = Inr bs \<Longrightarrow> i < n \<Longrightarrow> m (a + of_nat i) = Some (bs ! i)"
proof (induction n arbitrary: a bs i)
  case (Suc n)
  then obtain b cs where b: "m a = Some b" "load m (a + 1) n = Inr cs" "bs = b # cs"
    by (auto simp: bindE_eq_Inr_iff split: option.splits)
  show ?case
  proof (cases i)
    case (Suc j)
    with Suc.prems(2) Suc.IH[OF b(2), of j] b show ?thesis by (simp add: add.assoc)
  qed (use b in simp)
qed simp

lemma store_ok: "span a (length bs) \<subseteq> dom m \<Longrightarrow> \<exists>m'. store m a bs = Inr m'"
proof (induction bs arbitrary: m a)
  case (Cons b bs)
  then have a: "m a \<noteq> None" and "span (a + 1) (length bs) \<subseteq> dom (m(a \<mapsto> b))"
    by (auto simp: span_Suc)
  from this(2) have "\<exists>m'. store (m(a \<mapsto> b)) (a + 1) bs = Inr m'" by (rule Cons.IH)
  with a show ?case by auto
qed simp

lemma store_agree: "store m a bs = Inr m' \<Longrightarrow> agree_off (span a (length bs)) m m'"
proof (induction bs arbitrary: m a)
  case Nil
  then show ?case by (simp add: agree_off_def)
next
  case (Cons b bs)
  then obtain v where v: "m a = Some v" and "store (m(a \<mapsto> b)) (a + 1) bs = Inr m'"
    by (auto split: option.splits)
  from this(2) have "agree_off (span (a + 1) (length bs)) (m(a \<mapsto> b)) m'" by (rule Cons.IH)
  with v show ?case by (auto simp: agree_off_def span_Suc)
qed

lemma store_needs: "store m a bs = Inr m' \<Longrightarrow> span a (length bs) \<subseteq> dom m"
proof (induction bs arbitrary: m a)
  case (Cons b bs)
  then obtain v where v: "m a = Some v" and "store (m(a \<mapsto> b)) (a + 1) bs = Inr m'"
    by (auto split: option.splits)
  from this(2) have "span (a + 1) (length bs) \<subseteq> dom (m(a \<mapsto> b))" by (rule Cons.IH)
  with v show ?case by (auto simp: span_Suc)
qed simp

lemma load_store:
  "store m a bs = Inr m' \<Longrightarrow> length bs \<le> 2 ^ 64 \<Longrightarrow> load m' a (length bs) = Inr bs"
proof (induction bs arbitrary: m a)
  case (Cons b bs)
  then obtain v where v: "m a = Some v" "store (m(a \<mapsto> b)) (a + 1) bs = Inr m'"
    by (auto split: option.splits)
  have "m' a = (m(a \<mapsto> b)) a"
    using store_agree[OF v(2)] Cons.prems(2) not_in_span_next[of "length bs" a]
    by (auto simp: agree_off_def)
  moreover have "load m' (a + 1) (length bs) = Inr bs"
    using Cons.IH[OF v(2)] Cons.prems(2) by simp
  ultimately show ?case by simp
qed simp

lemma load_append:
  "load m a (n + k) = bindE (load m a n) (\<lambda>xs. bindE (load m (a + of_nat n) k) (\<lambda>ys. Inr (xs @ ys)))"
proof (induction n arbitrary: a)
  case 0
  then show ?case by (cases "load m a k") simp_all
next
  case (Suc n)
  then show ?case
    by (cases "load m (a + 1) n"; cases "load m (a + 1 + of_nat n) k")
       (simp_all add: add.assoc split: option.splits)
qed

lemma store_append:
  "store m a (xs @ ys) = bindE (store m a xs) (\<lambda>m. store m (a + of_nat (length xs)) ys)"
  by (induction xs arbitrary: m a) (simp_all add: add.assoc split: option.splits)

lemma agree_off_refl [simp, intro]: "agree_off S m m"
  by (simp add: agree_off_def)

lemma agree_off_trans: "agree_off S m m' \<Longrightarrow> agree_off T m' m'' \<Longrightarrow> agree_off (S \<union> T) m m''"
  by (auto simp: agree_off_def)

lemma agree_off_mono: "agree_off S m m' \<Longrightarrow> S \<subseteq> T \<Longrightarrow> agree_off T m m'"
  by (auto simp: agree_off_def)

lemma agree_off_step:
  "agree_off S m m' \<Longrightarrow> agree_off T m' m'' \<Longrightarrow> T \<subseteq> S \<Longrightarrow> agree_off S m m''"
  by (auto simp: agree_off_def)

lemma load_agree: "agree_off S m m' \<Longrightarrow> span a n \<inter> S = {} \<Longrightarrow> load m' a n = load m a n"
  by (rule load_local) (auto simp: agree_off_def)

section \<open>The contract of a typed memory cell\<close>

locale cell =
  fixes ld :: "mem \<Rightarrow> u64 \<Rightarrow> 'v res"
    and st :: "mem \<Rightarrow> u64 \<Rightarrow> 'v \<Rightarrow> mem res"
    and width :: nat
  assumes ld_ok: "span a width \<subseteq> dom m \<Longrightarrow> \<exists>v. ld m a = Inr v"
    and ld_local: "(\<And>x. x \<in> span a width \<Longrightarrow> m' x = m x) \<Longrightarrow> ld m' a = ld m a"
    and st_ok: "span a width \<subseteq> dom m \<Longrightarrow> \<exists>m'. st m a v = Inr m'"
    and st_needs: "st m a v = Inr m' \<Longrightarrow> span a width \<subseteq> dom m"
    and st_agree: "st m a v = Inr m' \<Longrightarrow> agree_off (span a width) m m'"
    and ld_st: "st m a v = Inr m' \<Longrightarrow> ld m' a = Inr v"
begin

lemma ld_agree: "agree_off S m m' \<Longrightarrow> span a width \<inter> S = {} \<Longrightarrow> ld m' a = ld m a"
  by (rule ld_local) (auto simp: agree_off_def)

lemma st_agree_in: "st m a v = Inr m' \<Longrightarrow> span a width \<subseteq> S \<Longrightarrow> agree_off S m m'"
  by (blast intro: agree_off_mono st_agree)

lemma st_dom: "st m a v = Inr m' \<Longrightarrow> dom m' = dom m"
  using st_agree by (simp add: agree_off_def)

lemma ld_st_apart:
  "st m a v = Inr m' \<Longrightarrow> span b width \<inter> span a width = {} \<Longrightarrow> ld m' b = ld m b"
  by (blast intro: ld_agree st_agree)

end

lemma load_bind_ok:
  "span a n \<subseteq> dom m \<Longrightarrow> \<exists>v. bindE (load m a n) (\<lambda>bs. Inr (f bs)) = Inr v"
  using load_ok_iff[of m a n] by auto

interpretation c16: cell load16 store16 2
proof
  fix m m' :: mem and a :: u64 and v :: u16
  show "span a 2 \<subseteq> dom m \<Longrightarrow> \<exists>v. load16 m a = Inr v"
    unfolding load16_def by (rule load_bind_ok)
  show "(\<And>x. x \<in> span a 2 \<Longrightarrow> m' x = m x) \<Longrightarrow> load16 m' a = load16 m a"
    unfolding load16_def by (simp add: load_local[of a 2 m' m])
  show "span a 2 \<subseteq> dom m \<Longrightarrow> \<exists>m'. store16 m a v = Inr m'"
    unfolding store16_def by (rule store_ok) simp
  show "store16 m a v = Inr m' \<Longrightarrow> span a 2 \<subseteq> dom m"
    unfolding store16_def by (drule store_needs) simp
  show "store16 m a v = Inr m' \<Longrightarrow> agree_off (span a 2) m m'"
    unfolding store16_def by (drule store_agree) simp
  show "store16 m a v = Inr m' \<Longrightarrow> load16 m' a = Inr v"
    unfolding store16_def load16_def by (drule load_store) simp_all
qed

interpretation c32: cell load32 store32 4
proof
  fix m m' :: mem and a :: u64 and v :: u32
  show "span a 4 \<subseteq> dom m \<Longrightarrow> \<exists>v. load32 m a = Inr v"
    unfolding load32_def by (rule load_bind_ok)
  show "(\<And>x. x \<in> span a 4 \<Longrightarrow> m' x = m x) \<Longrightarrow> load32 m' a = load32 m a"
    unfolding load32_def by (simp add: load_local[of a 4 m' m])
  show "span a 4 \<subseteq> dom m \<Longrightarrow> \<exists>m'. store32 m a v = Inr m'"
    unfolding store32_def by (rule store_ok) simp
  show "store32 m a v = Inr m' \<Longrightarrow> span a 4 \<subseteq> dom m"
    unfolding store32_def by (drule store_needs) simp
  show "store32 m a v = Inr m' \<Longrightarrow> agree_off (span a 4) m m'"
    unfolding store32_def by (drule store_agree) simp
  show "store32 m a v = Inr m' \<Longrightarrow> load32 m' a = Inr v"
    unfolding store32_def load32_def by (drule load_store) simp_all
qed

interpretation c64: cell load64 store64 8
proof
  fix m m' :: mem and a :: u64 and v :: u64
  show "span a 8 \<subseteq> dom m \<Longrightarrow> \<exists>v. load64 m a = Inr v"
    unfolding load64_def by (rule load_bind_ok)
  show "(\<And>x. x \<in> span a 8 \<Longrightarrow> m' x = m x) \<Longrightarrow> load64 m' a = load64 m a"
    unfolding load64_def by (simp add: load_local[of a 8 m' m])
  show "span a 8 \<subseteq> dom m \<Longrightarrow> \<exists>m'. store64 m a v = Inr m'"
    unfolding store64_def by (rule store_ok) simp
  show "store64 m a v = Inr m' \<Longrightarrow> span a 8 \<subseteq> dom m"
    unfolding store64_def by (drule store_needs) simp
  show "store64 m a v = Inr m' \<Longrightarrow> agree_off (span a 8) m m'"
    unfolding store64_def by (drule store_agree) simp
  show "store64 m a v = Inr m' \<Longrightarrow> load64 m' a = Inr v"
    unfolding store64_def load64_def by (drule load_store) simp_all
qed

end
