(* ===== verification/Fmt.thy ===== *)
theory Fmt
  imports Prelude
begin

text \<open>
  The conversions of \<^verbatim>\<open>printf\<close> that the programs use: \<^verbatim>\<open>%d\<close>, \<^verbatim>\<open>%u\<close>, \<^verbatim>\<open>%x\<close>, \<^verbatim>\<open>%02x\<close>,
  \<^verbatim>\<open>%02X\<close>, \<^verbatim>\<open>%.2X\<close> and \<^verbatim>\<open>%05d\<close>, and the dotted-quad text of \<^verbatim>\<open>inet_ntoa\<close>. A number is
  written most significant digit first; reading the digits back gives the number
  (\<open>digits_value\<close>), and a byte printed in two hexadecimal digits determines the byte. For the other
  direction, \<open>strtol\<close> and \<open>atoi\<close> read decimal numbers.
\<close>

section \<open>Definitions\<close>

definition digit_lower :: "nat \<Rightarrow> char" where
  "digit_lower d = (if d < 10 then char_of (48 + d) else char_of (87 + d))"

definition digit_upper :: "nat \<Rightarrow> char" where
  "digit_upper d = (if d < 10 then char_of (48 + d) else char_of (55 + d))"

function digits :: "nat \<Rightarrow> nat \<Rightarrow> nat list" where
  "digits b n = (if n < b \<or> b < 2 then [n] else digits b (n div b) @ [n mod b])"
  by pat_completeness auto
termination
  by (relation "measure snd") auto

definition pad_left :: "char \<Rightarrow> nat \<Rightarrow> string \<Rightarrow> string" where
  "pad_left c w s = replicate (w - length s) c @ s"

definition fmt_u :: "nat \<Rightarrow> string" where
  "fmt_u n = map digit_lower (digits 10 n)"

definition fmt_d :: "int \<Rightarrow> string" where
  "fmt_d i = (if i < 0 then ''-'' @ fmt_u (nat (- i)) else fmt_u (nat i))"

definition fmt_x :: "nat \<Rightarrow> string" where
  "fmt_x n = map digit_lower (digits 16 n)"

definition fmt_02x :: "u8 \<Rightarrow> string" where
  "fmt_02x b = pad_left CHR ''0'' 2 (fmt_x (unat b))"

definition fmt_02X :: "u8 \<Rightarrow> string" where
  "fmt_02X b = pad_left CHR ''0'' 2 (map digit_upper (digits 16 (unat b)))"

text \<open>\<^verbatim>\<open>%05d\<close>: zero padding goes between the sign and the digits.\<close>

definition fmt_05d :: "int \<Rightarrow> string" where
  "fmt_05d i =
     (if i < 0 then ''-'' @ pad_left CHR ''0'' 4 (fmt_u (nat (- i)))
      else pad_left CHR ''0'' 5 (fmt_u (nat i)))"

text \<open>\<^verbatim>\<open>inet_ntoa\<close> on the four bytes of an \<^verbatim>\<open>in_addr\<close>, in memory order.\<close>

definition inet_ntoa :: "u8 list \<Rightarrow> string" where
  "inet_ntoa bs = concat (map (\<lambda>i. (if i = 0 then '''' else ''.'') @ fmt_u (unat (bs ! i))) [0..<4])"

definition digits_value :: "nat \<Rightarrow> nat list \<Rightarrow> nat" where
  "digits_value b ds = foldl (\<lambda>acc d. acc * b + d) 0 ds"

definition undigit :: "char \<Rightarrow> nat" where
  "undigit c = (let n = of_char c in
     if n < 58 then n - 48 else if n < 91 then n - 55 else n - 87)"

section \<open>Reading numbers\<close>

definition is_digit :: "char \<Rightarrow> bool" where
  "is_digit c \<longleftrightarrow> 48 \<le> (of_char c :: nat) \<and> (of_char c :: nat) \<le> 57"

definition is_space :: "char \<Rightarrow> bool" where
  "is_space c \<longleftrightarrow> (of_char c :: nat) = 32 \<or> 9 \<le> (of_char c :: nat) \<and> (of_char c :: nat) \<le> 13"

text \<open>\<^verbatim>\<open>strtol(s, &end, 10)\<close> with a 64-bit \<^verbatim>\<open>long\<close>: the value, clamped to the range of the type, and
  the text at \<^verbatim>\<open>end\<close>; \<^const>\<open>None\<close> when there are no digits and \<^verbatim>\<open>end\<close> is \<^verbatim>\<open>s\<close>.\<close>

definition strtol :: "string \<Rightarrow> (int \<times> string) option" where
  "strtol s =
     (let t = dropWhile is_space s;
          neg = (case t of [] \<Rightarrow> False | c # _ \<Rightarrow> c = CHR ''-'');
          u = (case t of [] \<Rightarrow> [] | c # cs \<Rightarrow> if c = CHR ''-'' \<or> c = CHR ''+'' then cs else t);
          ds = takeWhile is_digit u;
          n = int (digits_value 10 (map undigit ds)) in
      if ds = [] then None
      else Some (if neg then max (- (2 ^ 63)) (- n) else min (2 ^ 63 - 1) n, dropWhile is_digit u))"

text \<open>A \<^verbatim>\<open>long\<close> returned as an \<^verbatim>\<open>int\<close>: the low 32 bits, as a signed number.\<close>

definition long_to_int :: "int \<Rightarrow> int" where
  "long_to_int n = sint (of_int n :: cint)"

text \<open>\<^verbatim>\<open>atoi\<close> is \<^verbatim>\<open>strtol\<close> converted to an \<^verbatim>\<open>int\<close>, 0 when there are no digits.\<close>

definition atoi :: "string \<Rightarrow> int" where
  "atoi s = (case strtol s of Some (n, rest) \<Rightarrow> long_to_int n | None \<Rightarrow> 0)"

section \<open>Lemmas\<close>

declare digits.simps [simp del]

lemma digits_value_snoc: "digits_value b (ds @ [d]) = digits_value b ds * b + d"
  by (simp add: digits_value_def)

lemma digits_value_digits: "2 \<le> b \<Longrightarrow> digits_value b (digits b n) = n"
proof (induction b n rule: digits.induct)
  case (1 b n)
  show ?case
  proof (cases "n < b")
    case True
    then show ?thesis by (simp add: digits.simps[of b n] digits_value_def)
  next
    case False
    with 1 show ?thesis by (simp add: digits.simps[of b n] digits_value_snoc)
  qed
qed

lemma digits_bound: "2 \<le> b \<Longrightarrow> d \<in> set (digits b n) \<Longrightarrow> d < b"
proof (induction b n rule: digits.induct)
  case (1 b n)
  show ?case
  proof (cases "n < b")
    case True
    with 1 show ?thesis by (simp add: digits.simps[of b n])
  next
    case False
    with 1 show ?thesis by (auto simp: digits.simps[of b n])
  qed
qed

lemma digits_nonempty [simp]: "digits b n \<noteq> []"
  by (simp add: digits.simps[of b n])

lemma undigit_lower: "d < 16 \<Longrightarrow> undigit (digit_lower d) = d"
  by (auto simp: undigit_def digit_lower_def Let_def)

lemma undigit_upper: "d < 16 \<Longrightarrow> undigit (digit_upper d) = d"
  by (auto simp: undigit_def digit_upper_def Let_def)

lemma fmt_u_value: "digits_value 10 (map undigit (fmt_u n)) = n"
proof -
  have "map (undigit \<circ> digit_lower) (digits 10 n) = digits 10 n"
    by (rule map_idI) (use digits_bound[of 10 _ n] undigit_lower in fastforce)
  then show ?thesis by (simp add: fmt_u_def digits_value_digits)
qed

lemma fmt_u_inj: "fmt_u a = fmt_u b \<longleftrightarrow> a = b"
  by (metis fmt_u_value)

lemma fmt_u_nonempty [simp]: "fmt_u n \<noteq> []"
  by (simp add: fmt_u_def)

lemma digits16_byte:
  assumes "n < 256"
  shows "digits 16 n = (if n < 16 then [n] else [n div 16, n mod 16])"
proof -
  have "n div 16 < 16" using assms by auto
  then show ?thesis by (simp add: digits.simps[of 16 n] digits.simps[of 16 "n div 16"])
qed

lemma unat_byte [simp]: "unat (b :: u8) < 256"
  using unsigned_less[of b] by simp

lemma char_of_48: "char_of (48::nat) = CHR ''0''"
  by code_simp

lemma fmt_02x_digits: "fmt_02x b = [digit_lower (unat b div 16), digit_lower (unat b mod 16)]"
  by (simp add: fmt_02x_def fmt_x_def digits16_byte pad_left_def numeral_2_eq_2 digit_lower_def char_of_48)

lemma fmt_02X_digits: "fmt_02X b = [digit_upper (unat b div 16), digit_upper (unat b mod 16)]"
  by (simp add: fmt_02X_def digits16_byte pad_left_def numeral_2_eq_2 digit_upper_def char_of_48)

lemma length_fmt_02x [simp]: "length (fmt_02x b) = 2"
  by (simp add: fmt_02x_digits)

lemma length_fmt_02X [simp]: "length (fmt_02X b) = 2"
  by (simp add: fmt_02X_digits)

lemma div16_lt: "unat (b::u8) div 16 < 16"
  using unat_byte[of b] by (simp add: less_mult_imp_div_less)

lemma fmt_02x_value: "digits_value 16 (map undigit (fmt_02x b)) = unat b"
  using div16_lt[of b] by (simp add: fmt_02x_digits undigit_lower digits_value_def)

lemma fmt_02X_value: "digits_value 16 (map undigit (fmt_02X b)) = unat b"
  using div16_lt[of b] by (simp add: fmt_02X_digits undigit_upper digits_value_def)

lemma digit_lower_is_digit: "d < 10 \<Longrightarrow> is_digit (digit_lower d)"
  by (simp add: is_digit_def digit_lower_def)

lemma fmt_u_digits: "\<forall>c \<in> set (fmt_u n). is_digit c"
  using digits_bound[of 10 _ n] by (auto simp: fmt_u_def digit_lower_is_digit)

lemma strtol_fmt_u: "n < 2 ^ 63 \<Longrightarrow> strtol (fmt_u n) = Some (int n, [])"
proof -
  assume n: "n < 2 ^ 63"
  obtain c cs where c: "fmt_u n = c # cs" by (cases "fmt_u n") auto
  then have d: "is_digit c" using fmt_u_digits[of n] by simp
  then have "\<not> is_space c" "c \<noteq> CHR ''-''" "c \<noteq> CHR ''+''" by (auto simp: is_digit_def is_space_def)
  moreover have "takeWhile is_digit (fmt_u n) = fmt_u n" "dropWhile is_digit (fmt_u n) = []"
    using fmt_u_digits[of n] by (auto simp: takeWhile_eq_all_conv dropWhile_eq_Nil_conv)
  ultimately show ?thesis using c n fmt_u_value[of n] by (simp add: strtol_def Let_def)
qed

end
