(* ===== verification/VhostTypes.thy ===== *)
theory VhostTypes
  imports Mem Fmt
begin

text \<open>
  The data of the vhost-user backend, src/code_dump/bkend/bkend.c: the message numbers, the
  layout of the rings shared with the guest, the message with its payload union, the device
  state and the server state.

  The rings live in guest memory, so their structs are given as address computations
  (\<open>avail_idx_at\<close>, \<open>used_id_at\<close>, \<open>desc_len_at\<close> and so on). The payload of a message is a
  C union: it is kept as its 264 bytes and read through one accessor per member, so that
  writing one member and reading another means what it means in C. An \<^verbatim>\<open>int\<close> file
  descriptor is kept as a \<open>cint\<close>.

  The operating system is a parameter: its answers to the calls of one message are the
  record \<open>os_answers\<close>.
\<close>

section \<open>Message numbers and constants\<close>

datatype vhost_req =
    VHOST_USER_NONE
  | VHOST_USER_GET_FEATURES
  | VHOST_USER_SET_FEATURES
  | VHOST_USER_SET_OWNER
  | VHOST_USER_RESET_OWNER
  | VHOST_USER_SET_MEM_TABLE
  | VHOST_USER_SET_LOG_BASE
  | VHOST_USER_SET_LOG_FD
  | VHOST_USER_SET_VRING_NUM
  | VHOST_USER_SET_VRING_ADDR
  | VHOST_USER_SET_VRING_BASE
  | VHOST_USER_GET_VRING_BASE
  | VHOST_USER_SET_VRING_KICK
  | VHOST_USER_SET_VRING_CALL
  | VHOST_USER_SET_VRING_ERR
  | VHOST_USER_GET_PROTOCOL_FEATURES
  | VHOST_USER_SET_PROTOCOL_FEATURES
  | VHOST_USER_GET_QUEUE_NUM
  | VHOST_USER_SET_VRING_ENABLE
  | VHOST_USER_SEND_RARP
  | VHOST_USER_MAX

text \<open>The enumerators are numbered from 0 in this order. A request that arrives on the socket is
  a 32-bit number and need not be one of them.\<close>

definition vhost_reqs :: "vhost_req list" where
  "vhost_reqs =
    [VHOST_USER_NONE,
     VHOST_USER_GET_FEATURES,
     VHOST_USER_SET_FEATURES,
     VHOST_USER_SET_OWNER,
     VHOST_USER_RESET_OWNER,
     VHOST_USER_SET_MEM_TABLE,
     VHOST_USER_SET_LOG_BASE,
     VHOST_USER_SET_LOG_FD,
     VHOST_USER_SET_VRING_NUM,
     VHOST_USER_SET_VRING_ADDR,
     VHOST_USER_SET_VRING_BASE,
     VHOST_USER_GET_VRING_BASE,
     VHOST_USER_SET_VRING_KICK,
     VHOST_USER_SET_VRING_CALL,
     VHOST_USER_SET_VRING_ERR,
     VHOST_USER_GET_PROTOCOL_FEATURES,
     VHOST_USER_SET_PROTOCOL_FEATURES,
     VHOST_USER_GET_QUEUE_NUM,
     VHOST_USER_SET_VRING_ENABLE,
     VHOST_USER_SEND_RARP,
     VHOST_USER_MAX]"

definition vhost_req_of :: "u32 \<Rightarrow> vhost_req option" where
  "vhost_req_of r = (if unat r < length vhost_reqs then Some (vhost_reqs ! unat r) else None)"

definition vhost_req_num :: "vhost_req \<Rightarrow> u32" where
  "vhost_req_num r = of_nat (length (takeWhile (\<lambda>x. x \<noteq> r) vhost_reqs))"

definition vhost_req_str :: "string list" where
  "vhost_req_str =
    [''vhost_user_none'',
     ''vhost_user_get_features'',
     ''vhost_user_set_features'',
     ''vhost_user_set_owner'',
     ''vhost_user_reset_owner'',
     ''vhost_user_set_mem_table'',
     ''vhost_user_set_log_base'',
     ''vhost_user_set_log_fd'',
     ''vhost_user_set_vring_num'',
     ''vhost_user_set_vring_addr'',
     ''vhost_user_set_vring_base'',
     ''vhost_user_get_vring_base'',
     ''vhost_user_set_vring_kick'',
     ''vhost_user_set_vring_call'',
     ''vhost_user_set_vring_err'',
     ''vhost_user_get_protocol_features'',
     ''vhost_user_set_protocol_features'',
     ''vhost_user_get_queue_num'',
     ''vhost_user_set_vring_enable'',
     ''vhost_user_send_rarp'',
     ''vhost_user_max'']"

definition MAX_LEN :: u32 where "MAX_LEN = 10240"
definition NUM_RX_FRAMES :: u32 where "NUM_RX_FRAMES = 1000000"
definition VHOST_MEMORY_MAX_NREGIONS :: nat where "VHOST_MEMORY_MAX_NREGIONS = 8"
definition VHOST_USER_PROTOCOL_F_LOG_SHMFD :: nat where "VHOST_USER_PROTOCOL_F_LOG_SHMFD = 1"
definition VHOST_USER_VERSION_MASK :: u32 where "VHOST_USER_VERSION_MASK = 3"
definition VHOST_USER_REPLY_MASK :: u32 where "VHOST_USER_REPLY_MASK = push_bit 2 1"
definition VHOST_USER_VRING_IDX_MASK :: u64 where "VHOST_USER_VRING_IDX_MASK = 255"
definition VHOST_USER_VRING_NOFD_MASK :: u64 where "VHOST_USER_VRING_NOFD_MASK = push_bit 8 1"
definition VHOST_USER_HDR_SIZE :: nat where "VHOST_USER_HDR_SIZE = 12"
definition VHOST_USER_VERSION :: u32 where "VHOST_USER_VERSION = 1"
definition VHOST_USER_F_PROTOCOL_FEATURES :: nat where "VHOST_USER_F_PROTOCOL_FEATURES = 30"
definition VIRTIO_NET_F_MRG_RXBUF :: nat where "VIRTIO_NET_F_MRG_RXBUF = 15"
definition VIRTIO_F_VERSION_1 :: nat where "VIRTIO_F_VERSION_1 = 32"
definition VRING_AVAIL_F_NO_INTERRUPT :: u16 where "VRING_AVAIL_F_NO_INTERRUPT = 1"
definition VRING_DESC_F_WRITE :: u16 where "VRING_DESC_F_WRITE = 2"
definition VRING_DESC_F_NEXT :: u16 where "VRING_DESC_F_NEXT = 1"

lemmas vhost_const_defs =
  MAX_LEN_def NUM_RX_FRAMES_def VHOST_MEMORY_MAX_NREGIONS_def
  VHOST_USER_PROTOCOL_F_LOG_SHMFD_def VHOST_USER_VERSION_MASK_def VHOST_USER_REPLY_MASK_def
  VHOST_USER_VRING_IDX_MASK_def VHOST_USER_VRING_NOFD_MASK_def VHOST_USER_HDR_SIZE_def
  VHOST_USER_VERSION_def VHOST_USER_F_PROTOCOL_FEATURES_def VIRTIO_NET_F_MRG_RXBUF_def
  VIRTIO_F_VERSION_1_def VRING_AVAIL_F_NO_INTERRUPT_def VRING_DESC_F_WRITE_def
  VRING_DESC_F_NEXT_def

section \<open>Layout of the shared rings\<close>

definition avail_flags_at :: "u64 \<Rightarrow> u64" where "avail_flags_at a = a"
definition avail_idx_at :: "u64 \<Rightarrow> u64" where "avail_idx_at a = a + 2"
definition avail_ring_at :: "u64 \<Rightarrow> nat \<Rightarrow> u64" where "avail_ring_at a i = a + of_nat (4 + 2 * i)"

definition desc_addr_at :: "u64 \<Rightarrow> nat \<Rightarrow> u64" where "desc_addr_at d i = d + of_nat (16 * i)"
definition desc_len_at :: "u64 \<Rightarrow> nat \<Rightarrow> u64" where "desc_len_at d i = d + of_nat (16 * i + 8)"
definition desc_flags_at :: "u64 \<Rightarrow> nat \<Rightarrow> u64" where "desc_flags_at d i = d + of_nat (16 * i + 12)"
definition desc_next_at :: "u64 \<Rightarrow> nat \<Rightarrow> u64" where "desc_next_at d i = d + of_nat (16 * i + 14)"

definition used_idx_at :: "u64 \<Rightarrow> u64" where "used_idx_at u = u + 2"
definition used_id_at :: "u64 \<Rightarrow> nat \<Rightarrow> u64" where "used_id_at u i = u + of_nat (4 + 8 * i)"
definition used_len_at :: "u64 \<Rightarrow> nat \<Rightarrow> u64" where "used_len_at u i = u + of_nat (8 + 8 * i)"

section \<open>Messages\<close>

record vring_state =
  vs_index :: u32
  vs_num :: u32

record vring_addr =
  va_index :: u32
  va_flags :: u32
  desc_user_addr :: u64
  used_user_addr :: u64
  avail_user_addr :: u64

record mem_region =
  guest_phys_addr :: u64
  memory_size :: u64
  userspace_addr :: u64
  mr_mmap_offset :: u64

record vh_msg =
  request :: u32
  flags :: u32
  msg_size :: u32
  payload :: "u8 list"
  fds :: "cint list"

text \<open>\<^verbatim>\<open>sizeof(vmsg.payload)\<close>: the largest member is \<^verbatim>\<open>struct mem\<close>, 8 + 8 * 32 bytes.\<close>

definition payload_size :: nat where "payload_size = 264"

definition payload_u64 :: "u8 list \<Rightarrow> u64" where
  "payload_u64 p = le_word (take 8 p)"

definition payload_state :: "u8 list \<Rightarrow> vring_state" where
  "payload_state p =
     \<lparr>vs_index = le_word (take 4 p), vs_num = le_word (take 4 (drop 4 p))\<rparr>"

definition payload_addr :: "u8 list \<Rightarrow> vring_addr" where
  "payload_addr p =
     \<lparr>va_index = le_word (take 4 p), va_flags = le_word (take 4 (drop 4 p)),
      desc_user_addr = le_word (take 8 (drop 8 p)),
      used_user_addr = le_word (take 8 (drop 16 p)),
      avail_user_addr = le_word (take 8 (drop 24 p))\<rparr>"

definition payload_nregions :: "u8 list \<Rightarrow> u32" where
  "payload_nregions p = le_word (take 4 p)"

definition payload_region :: "u8 list \<Rightarrow> nat \<Rightarrow> mem_region res" where
  "payload_region p i =
     (if i < VHOST_MEMORY_MAX_NREGIONS then
        (let r = drop (8 + 32 * i) p in
         Inr \<lparr>guest_phys_addr = le_word (take 8 r),
              memory_size = le_word (take 8 (drop 8 r)),
              userspace_addr = le_word (take 8 (drop 16 r)),
              mr_mmap_offset = le_word (take 8 (drop 24 r))\<rparr>)
      else Inl OutOfBounds)"

definition set_payload_u64 :: "u64 \<Rightarrow> u8 list \<Rightarrow> u8 list" where
  "set_payload_u64 v p = le_bytes 8 v @ drop 8 p"

definition set_payload_num :: "u32 \<Rightarrow> u8 list \<Rightarrow> u8 list" where
  "set_payload_num v p = take 4 p @ le_bytes 4 v @ drop 8 p"

definition msg_hdr :: "vh_msg \<Rightarrow> u8 list" where
  "msg_hdr v = le_bytes 4 (request v) @ le_bytes 4 (flags v) @ le_bytes 4 (msg_size v)"

definition set_msg_hdr :: "u8 list \<Rightarrow> vh_msg \<Rightarrow> vh_msg" where
  "set_msg_hdr h v =
     v\<lparr>request := le_word (take 4 h), flags := le_word (take 4 (drop 4 h)),
       msg_size := le_word (take 4 (drop 8 h))\<rparr>"

definition msg_bytes :: "vh_msg \<Rightarrow> u8 list" where
  "msg_bytes v = msg_hdr v @ payload v @ concat (map (le_bytes 4) (fds v))"

section \<open>Device and server state\<close>

record vh_virtqueue =
  vq_desc :: u64
  vq_avail :: u64
  vq_used :: u64
  last_avail_idx :: u16
  last_used_idx :: u16
  vq_size :: u32
  call_fd :: cint
  kick_fd :: cint
  vq_enable :: cint

record device_region =
  gpa :: u64
  reg_size :: u64
  qva :: u64
  mmap_offset :: u64
  mmap_addr :: u64

record buf_vector =
  buf_addr :: u64
  buf_len :: u32
  desc_idx :: u32

record backend =
  features :: u64
  hdrlen :: cint
  nregions :: u32
  regions :: "device_region list"
  vq :: "vh_virtqueue list"
  en2 :: "cint list"
  txcnt :: u32
  rxcnt :: u32
  buf_vec :: "buf_vector list"

record vh_desc =
  fdset :: "int set"
  max_fd :: int
  srv_fd :: int
  bk :: backend

section \<open>The process and its environment\<close>

datatype thread = Msg_loop | Tx_dequeue | Rx_enqueue

datatype event =
    Log string
  | WriteFd int "u8 list"
  | CloseFd cint
  | EventFd cint u64
  | ThreadStart thread
  | Unlink string
  | Listen int string

record proc =
  svr :: vh_desc
  memory :: mem
  outp :: "event list"

text \<open>
  Answers of the operating system. \<open>Recv bs rights\<close>: \<^verbatim>\<open>recvmsg\<close> stored the bytes \<open>bs\<close> (none at
  the end of the stream) and passed the descriptors \<open>rights\<close>; \<open>RecvErr\<close>: it returned -1.
  \<open>WErr True\<close> is a \<^verbatim>\<open>write\<close> interrupted by a signal (\<^verbatim>\<open>EINTR\<close>). The \<open>mmap_fn\<close> gives the
  address of a new mapping of \<open>len\<close> bytes and the address space with it, or \<^const>\<open>None\<close> for
  \<^verbatim>\<open>MAP_FAILED\<close>.
\<close>

datatype recv_answer = RecvErr | Recv "u8 list" "cint list"
datatype read_answer = ReadErr | ReadOk "u8 list"
datatype write_answer = WErr bool | WOk nat

record os_answers =
  recvmsg_ans :: recv_answer
  read_ans :: read_answer
  write_ans :: "write_answer list"
  mmap_fn :: "mem \<Rightarrow> u64 \<Rightarrow> cint \<Rightarrow> (u64 \<times> mem) option"

section \<open>Well-formed objects\<close>

text \<open>The array sizes that the C declarations fix.\<close>

definition wf_msg :: "vh_msg \<Rightarrow> bool" where
  "wf_msg v \<longleftrightarrow> length (payload v) = payload_size \<and> length (fds v) = VHOST_MEMORY_MAX_NREGIONS"

definition wf_backend :: "backend \<Rightarrow> bool" where
  "wf_backend b \<longleftrightarrow> length (regions b) = VHOST_MEMORY_MAX_NREGIONS \<and> length (vq b) = 2 \<and>
     length (en2 b) = 2 \<and> length (buf_vec b) = 16"

text \<open>Objects with every byte zero, used to build concrete states.\<close>

definition zero_msg :: vh_msg where
  "zero_msg = \<lparr>request = 0, flags = 0, msg_size = 0, payload = replicate payload_size 0,
     fds = replicate VHOST_MEMORY_MAX_NREGIONS 0\<rparr>"

definition zero_vq :: vh_virtqueue where
  "zero_vq = \<lparr>vq_desc = 0, vq_avail = 0, vq_used = 0, last_avail_idx = 0, last_used_idx = 0,
     vq_size = 0, call_fd = 0, kick_fd = 0, vq_enable = 0\<rparr>"

definition zero_region :: device_region where
  "zero_region = \<lparr>gpa = 0, reg_size = 0, qva = 0, mmap_offset = 0, mmap_addr = 0\<rparr>"

definition zero_backend :: backend where
  "zero_backend = \<lparr>features = 0, hdrlen = 0, nregions = 0,
     regions = replicate VHOST_MEMORY_MAX_NREGIONS zero_region, vq = [zero_vq, zero_vq],
     en2 = [0, 0], txcnt = 0, rxcnt = 0,
     buf_vec = replicate 16 \<lparr>buf_addr = 0, buf_len = 0, desc_idx = 0\<rparr>\<rparr>"

definition zero_proc :: proc where
  "zero_proc = \<lparr>svr = \<lparr>fdset = {}, max_fd = -1, srv_fd = -1, bk = zero_backend\<rparr>,
     memory = Map.empty, outp = []\<rparr>"

section \<open>Lemmas\<close>

lemma wf_zero [simp]: "wf_msg zero_msg" "wf_backend zero_backend"
  by (simp_all add: wf_msg_def zero_msg_def wf_backend_def zero_backend_def)

lemma vhost_req_of_num [simp]: "vhost_req_of (vhost_req_num r) = Some r"
  by (cases r) (simp_all add: vhost_req_num_def vhost_req_of_def vhost_reqs_def)

lemma payload_u64_set [simp]: "payload_u64 (set_payload_u64 v p) = v"
  by (simp add: payload_u64_def set_payload_u64_def)

lemma payload_num_set:
  "8 \<le> length p \<Longrightarrow> payload_state (set_payload_num v p) = (payload_state p)\<lparr>vs_num := v\<rparr>"
  by (simp add: payload_state_def set_payload_num_def min_def)

lemma length_set_payload [simp]:
  "8 \<le> length p \<Longrightarrow> length (set_payload_u64 v p) = length p"
  "8 \<le> length p \<Longrightarrow> length (set_payload_num w p) = length p"
  by (simp_all add: set_payload_u64_def set_payload_num_def)

lemma length_msg_hdr [simp]: "length (msg_hdr v) = 12"
  by (simp add: msg_hdr_def)

lemma set_msg_hdr_msg_hdr [simp]: "set_msg_hdr (msg_hdr v) w =
    w\<lparr>request := request v, flags := flags v, msg_size := msg_size v\<rparr>"
  by (simp add: set_msg_hdr_def msg_hdr_def)

lemma set_msg_hdr_fields [simp]:
  "payload (set_msg_hdr h v) = payload v" "fds (set_msg_hdr h v) = fds v"
  by (simp_all add: set_msg_hdr_def)

lemma wf_msg_set_hdr [simp]: "wf_msg (set_msg_hdr h v) = wf_msg v"
  by (simp add: wf_msg_def)

lemma length_msg_bytes: "wf_msg v \<Longrightarrow> length (msg_bytes v) = 308"
  by (simp add: msg_bytes_def wf_msg_def payload_size_def VHOST_MEMORY_MAX_NREGIONS_def
      length_concat o_def sum_list_triv)

end
