(* ===== verification/AddrTrans.thy ===== *)
theory AddrTrans
  imports VhostTypes
begin

text \<open>
  Address translation of the backend (\<^verbatim>\<open>qva_to_va\<close> and \<^verbatim>\<open>gpa_to_va\<close> of
  src/code_dump/bkend/bkend.c). Both walk the region table and return the address inside the
  local mapping of the first region that contains the argument; \<^verbatim>\<open>qva_to_va\<close> compares with
  the address of the region in the virtual machine monitor, \<^verbatim>\<open>gpa_to_va\<close> with its guest
  physical address. Where no region matches an assertion stops the process.

  The locale \<open>translator\<close> states the contract of such a function against the region table,
  and proves from it that translation is linear inside a region and that translated ranges
  are mapped. It is interpreted on \<open>qva_to_va\<close> and on both modes of \<open>gpa_to_va\<close>.
\<close>

section \<open>Definitions\<close>

function region_loop ::
  "(device_region \<Rightarrow> u64) \<Rightarrow> device_region list \<Rightarrow> u64 \<Rightarrow> nat \<Rightarrow> nat \<Rightarrow> u64 option res" where
  "region_loop base rs a n i =
     (if i < n then
        bindE (arr_get rs i) (\<lambda>r.
          if a \<ge> base r \<and> a < base r + reg_size r
          then Inr (Some (a - base r + mmap_addr r + mmap_offset r))
          else region_loop base rs a n (Suc i))
      else Inr None)"
  by pat_completeness auto
termination
  by (relation "measure (\<lambda>(_, _, _, n, i). n - i)") auto

definition qva_to_va :: "u64 \<Rightarrow> backend \<Rightarrow> u64 res" where
  "qva_to_va qemu_addr b =
     bindE (region_loop qva (regions b) qemu_addr (unat (nregions b)) 0) (\<lambda>r.
       case r of
         Some va \<Rightarrow> Inr va
       | None \<Rightarrow> Inl (AssertFail ''address not found in regions''))"

definition gpa_to_va :: "u64 \<Rightarrow> int \<Rightarrow> backend \<Rightarrow> u64 res" where
  "gpa_to_va guest_addr mode b =
     bindE (region_loop gpa (regions b) guest_addr (unat (nregions b)) 0) (\<lambda>r.
       case r of
         Some va \<Rightarrow> Inr va
       | None \<Rightarrow>
           if mode = 1 then Inl (AssertFail ''Transmit side address not found in regions'')
           else if mode = 0 then Inl (AssertFail ''Receive side address not found in regions'')
           else Inr 0)"

text \<open>Membership in a region, as the code tests it (the sum wraps at 64 bits).\<close>

definition in_region :: "(device_region \<Rightarrow> u64) \<Rightarrow> device_region \<Rightarrow> u64 \<Rightarrow> bool" where
  "in_region base r a \<longleftrightarrow> base r \<le> a \<and> a < base r + reg_size r"

definition region_va :: "(device_region \<Rightarrow> u64) \<Rightarrow> device_region \<Rightarrow> u64 \<Rightarrow> u64" where
  "region_va base r a = a - base r + mmap_addr r + mmap_offset r"

definition first_hit :: "(device_region \<Rightarrow> u64) \<Rightarrow> backend \<Rightarrow> u64 \<Rightarrow> nat \<Rightarrow> bool" where
  "first_hit base b a i \<longleftrightarrow> i < unat (nregions b) \<and> i < length (regions b) \<and>
     in_region base (regions b ! i) a \<and> (\<forall>j<i. \<not> in_region base (regions b ! j) a)"

text \<open>The local mapping made for the region by \<^verbatim>\<open>mmap\<close> is in place.\<close>

definition region_mapped :: "mem \<Rightarrow> device_region \<Rightarrow> bool" where
  "region_mapped m r \<longleftrightarrow> unat (reg_size r) + unat (mmap_offset r) < 2 ^ 64 \<and>
     span (mmap_addr r) (unat (reg_size r + mmap_offset r)) \<subseteq> dom m"

definition regions_disjoint :: "(device_region \<Rightarrow> u64) \<Rightarrow> backend \<Rightarrow> bool" where
  "regions_disjoint base b \<longleftrightarrow>
     (\<forall>i < unat (nregions b). \<forall>j < i. \<forall>a.
        \<not> (in_region base (regions b ! i) a \<and> in_region base (regions b ! j) a))"

section \<open>The loop\<close>

declare region_loop.simps [simp del]

lemma region_loop_hit:
  assumes "k < n" "k < length rs" "in_region base (rs ! k) a"
    and "\<And>j. i \<le> j \<Longrightarrow> j < k \<Longrightarrow> \<not> in_region base (rs ! j) a" and "i \<le> k"
  shows "region_loop base rs a n i = Inr (Some (region_va base (rs ! k) a))"
  using assms
proof (induction "k - i" arbitrary: i)
  case 0
  then have "i = k" by simp
  with 0 show ?case by (simp add: region_loop.simps[of _ _ _ _ k] in_region_def region_va_def)
next
  case (Suc d)
  then have "i < k" by simp
  with Suc.prems have "region_loop base rs a n i = region_loop base rs a n (Suc i)"
    by (auto simp: region_loop.simps[of _ _ _ _ i] in_region_def)
  moreover have "region_loop base rs a n (Suc i) = Inr (Some (region_va base (rs ! k) a))"
    by (rule Suc.hyps(1)) (use Suc \<open>i < k\<close> in auto)
  ultimately show ?case by simp
qed

lemma region_loop_miss:
  assumes "n \<le> length rs" and "\<And>j. i \<le> j \<Longrightarrow> j < n \<Longrightarrow> \<not> in_region base (rs ! j) a"
  shows "region_loop base rs a n i = Inr None"
  using assms
proof (induction "n - i" arbitrary: i)
  case 0
  then show ?case by (simp add: region_loop.simps[of _ _ _ _ i])
next
  case (Suc d)
  have "region_loop base rs a n (Suc i) = Inr None"
    by (rule Suc.hyps(1)) (use Suc in auto)
  with Suc show ?case
    by (auto simp: region_loop.simps[of _ _ _ _ i] in_region_def)
qed

section \<open>The contract of a translation\<close>

locale translator =
  fixes tr :: "u64 \<Rightarrow> backend \<Rightarrow> u64 res"
    and base :: "device_region \<Rightarrow> u64"
  assumes tr_hit: "first_hit base b a i \<Longrightarrow> tr a b = Inr (region_va base (regions b ! i) a)"
    and tr_miss: "unat (nregions b) \<le> length (regions b) \<Longrightarrow>
      (\<And>j. j < unat (nregions b) \<Longrightarrow> \<not> in_region base (regions b ! j) a) \<Longrightarrow>
      \<exists>msg. tr a b = Inl (AssertFail msg)"
begin

lemma tr_Inr:
  assumes "unat (nregions b) \<le> length (regions b)" "tr a b = Inr va"
  obtains i where "first_hit base b a i" "va = region_va base (regions b ! i) a"
proof -
  let ?P = "\<lambda>j. j < unat (nregions b) \<and> in_region base (regions b ! j) a"
  have "\<exists>j. ?P j" using tr_miss[OF assms(1), of a] assms(2) by auto
  then obtain k where k: "?P k" "\<And>j. j < k \<Longrightarrow> \<not> ?P j"
    using exists_least_iff[of ?P] by blast
  then have hit: "first_hit base b a k"
    using assms(1) by (fastforce simp: first_hit_def)
  show ?thesis by (rule that[OF hit]) (use tr_hit[OF hit] assms(2) in simp)
qed

lemma tr_disjoint:
  assumes "regions_disjoint base b" "i < unat (nregions b)" "i < length (regions b)"
    and "in_region base (regions b ! i) a"
  shows "tr a b = Inr (region_va base (regions b ! i) a)"
  by (rule tr_hit) (use assms in \<open>auto simp: first_hit_def regions_disjoint_def\<close>)

lemma tr_linear:
  assumes "first_hit base b a i" "first_hit base b (a + k) i" "tr a b = Inr va"
  shows "tr (a + k) b = Inr (va + k)"
  using tr_hit[OF assms(1)] tr_hit[OF assms(2)] assms(3) by (simp add: region_va_def)

lemma tr_mapped:
  assumes hit: "first_hit base b a i" and r: "region_mapped m (regions b ! i)"
    and n: "unat (a - base (regions b ! i)) + n \<le> unat (reg_size (regions b ! i))"
    and tr: "tr a b = Inr va"
  shows "span va n \<subseteq> dom m"
proof -
  let ?r = "regions b ! i"
  let ?k = "unat (a - base ?r) + unat (mmap_offset ?r)"
  from tr_hit[OF hit] tr have va: "va = mmap_addr ?r + of_nat ?k"
    by (simp add: region_va_def)
  have "unat (reg_size ?r + mmap_offset ?r) = unat (reg_size ?r) + unat (mmap_offset ?r)"
    using r by (simp add: region_mapped_def unat_word_ariths)
  then have "?k + n \<le> unat (reg_size ?r + mmap_offset ?r)" using n by linarith
  then have "span va n \<subseteq> span (mmap_addr ?r) (unat (reg_size ?r + mmap_offset ?r))"
    unfolding va by (rule span_shift)
  with r show ?thesis by (auto simp: region_mapped_def)
qed

end

lemma in_region_eq: "(a \<ge> base r \<and> a < base r + reg_size r) = in_region base r a"
  by (simp add: in_region_def)

lemma region_loop_first_hit:
  "first_hit base b a i \<Longrightarrow>
   region_loop base (regions b) a (unat (nregions b)) 0 = Inr (Some (region_va base (regions b ! i) a))"
  by (rule region_loop_hit) (auto simp: first_hit_def)

interpretation qva_tr: translator qva_to_va qva
  by unfold_locales (auto simp: qva_to_va_def region_loop_first_hit region_loop_miss)

interpretation gpa_tx: translator "\<lambda>a. gpa_to_va a 1" gpa
  by unfold_locales (auto simp: gpa_to_va_def region_loop_first_hit region_loop_miss)

interpretation gpa_rx: translator "\<lambda>a. gpa_to_va a 0" gpa
  by unfold_locales (auto simp: gpa_to_va_def region_loop_first_hit region_loop_miss)

text \<open>A region table entry beyond the eight of the array is read out of bounds.\<close>

lemma region_loop_overrun:
  assumes "length rs < n" and "\<And>j. i \<le> j \<Longrightarrow> j < length rs \<Longrightarrow> \<not> in_region base (rs ! j) a"
    and "i \<le> length rs"
  shows "region_loop base rs a n i = Inl OutOfBounds"
  using assms
proof (induction "length rs - i" arbitrary: i)
  case 0
  then show ?case by (simp add: region_loop.simps[of _ _ _ _ i])
next
  case (Suc d)
  have "region_loop base rs a n (Suc i) = Inl OutOfBounds"
    by (rule Suc.hyps(1)) (use Suc in auto)
  with Suc show ?case
    by (auto simp: region_loop.simps[of _ _ _ _ i] in_region_def)
qed

lemma in_region_offset:
  assumes "unat (base r) + unat (reg_size r) < 2 ^ 64" and "k < reg_size r"
  shows "in_region base r (base r + k)"
proof -
  have k: "unat k < unat (reg_size r)" using assms(2) by (simp add: word_less_nat_alt)
  then have "unat (base r + k) = unat (base r) + unat k"
    "unat (base r + reg_size r) = unat (base r) + unat (reg_size r)"
    using assms(1) by (simp_all add: unat_word_ariths)
  with k show ?thesis by (simp add: in_region_def word_le_nat_alt word_less_nat_alt)
qed

end
