(* ===== verification/VhostServer.thy ===== *)
theory VhostServer
  imports AddrTrans
begin

text \<open>
  The control side of src/code_dump/bkend/bkend.c: the listening socket and the descriptor
  set (\<^verbatim>\<open>add_fd\<close>, \<^verbatim>\<open>del_fd\<close>, \<^verbatim>\<open>reset\<close>, \<^verbatim>\<open>create_vhost_server\<close>, \<^verbatim>\<open>start_vhost_server\<close>), the
  reception of one message (\<^verbatim>\<open>process_vhost_msg\<close>), one handler per message number, and the
  \<^verbatim>\<open>select\<close> loop (\<^verbatim>\<open>process_vh_msgs\<close>).

  A handler takes the message and the process and returns the process with the events it
  caused appended to \<open>outp\<close>. The message variable is not initialised by the C code, so its
  content before the reception is the argument \<open>vmsg0\<close>.
\<close>

section \<open>Descriptor set and start-up\<close>

definition FD_SETSIZE :: int where "FD_SETSIZE = 1024"

definition add_fd :: "vh_desc \<Rightarrow> int \<Rightarrow> vh_desc res" where
  "add_fd s fd =
     (if 0 \<le> fd \<and> fd < FD_SETSIZE then
        Inr (let s' = s\<lparr>fdset := insert fd (fdset s)\<rparr> in
             if fd > max_fd s' then s'\<lparr>max_fd := fd\<rparr> else s')
      else Inl OutOfBounds)"

definition del_fd :: "vh_desc \<Rightarrow> int \<Rightarrow> vh_desc res" where
  "del_fd s fd =
     (if 0 \<le> fd \<and> fd < FD_SETSIZE then Inr (s\<lparr>fdset := fdset s - {fd}\<rparr>)
      else Inl OutOfBounds)"

definition reset_vq :: "vh_virtqueue \<Rightarrow> vh_virtqueue" where
  "reset_vq q = q\<lparr>last_used_idx := 0, last_avail_idx := 0\<rparr>"

definition reset :: "vh_desc \<Rightarrow> vh_desc" where
  "reset s =
     s\<lparr>max_fd := -1, srv_fd := -1,
       bk := (bk s)\<lparr>features := 0, hdrlen := 0, txcnt := 0, rxcnt := 0,
                    vq := (vq (bk s))[1 := reset_vq (vq (bk s) ! 1),
                                      0 := reset_vq (vq (bk s) ! 0)]\<rparr>,
       fdset := {}\<rparr>"

definition emit :: "event list \<Rightarrow> proc \<Rightarrow> proc" where
  "emit es p = p\<lparr>outp := outp p @ es\<rparr>"

text \<open>\<open>socket_ans\<close> and \<open>bind_ans\<close> are the results of \<^verbatim>\<open>socket\<close> and \<^verbatim>\<open>bind\<close>.\<close>

definition create_vhost_server :: "string \<Rightarrow> int \<Rightarrow> int \<Rightarrow> proc \<Rightarrow> proc res" where
  "create_vhost_server sock_path socket_ans bind_ans p =
     (if socket_ans = -1 then Inl (Exit 0)
      else if bind_ans = -1 then Inl (Exit 0)
      else bindE (add_fd (svr p) socket_ans) (\<lambda>s.
        Inr (emit [Unlink sock_path, Listen socket_ans sock_path]
               (p\<lparr>svr := s\<lparr>srv_fd := socket_ans\<rparr>\<rparr>))))"

definition start_vhost_server :: "proc \<Rightarrow> proc" where
  "start_vhost_server p =
     emit [ThreadStart Msg_loop, Log ''Cdn Backend: vhost server active''] p"

definition VHOST_PATH :: string where "VHOST_PATH = ''/tmp/vm.sock''"

text \<open>\<^verbatim>\<open>main\<close>: \<open>p\<close> holds the uninitialised device and server that \<^verbatim>\<open>malloc\<close> returned.\<close>

definition bkend_main :: "int \<Rightarrow> int \<Rightarrow> proc \<Rightarrow> proc res" where
  "bkend_main socket_ans bind_ans p =
     bindE (create_vhost_server VHOST_PATH socket_ans bind_ans (p\<lparr>svr := reset (svr p)\<rparr>))
       (\<lambda>p. Inr (start_vhost_server p))"

section \<open>Replies\<close>

fun write_loop :: "int \<Rightarrow> u8 list \<Rightarrow> write_answer list \<Rightarrow> event list res" where
  "write_loop fd bs [] = Inl Blocked"
| "write_loop fd bs (WOk n # ws) = Inr [WriteFd fd (take n bs)]"
| "write_loop fd bs (WErr eintr # ws) =
     (if eintr then write_loop fd bs ws else Inl (Exit 1))"

definition send_vhost :: "string \<Rightarrow> write_answer list \<Rightarrow> int \<Rightarrow> vh_msg \<Rightarrow> proc \<Rightarrow> proc res" where
  "send_vhost tag ws fd vmsg p =
     (let n = VHOST_USER_HDR_SIZE + unat (msg_size vmsg) in
      if n \<le> length (msg_bytes vmsg) then
        bindE (write_loop fd (take n (msg_bytes vmsg)) ws) (\<lambda>es.
          Inr (emit (es @ [Log tag]) p))
      else Inl OutOfBounds)"

definition send_vhost_reply :: "write_answer list \<Rightarrow> int \<Rightarrow> vh_msg \<Rightarrow> proc \<Rightarrow> proc res" where
  "send_vhost_reply = send_vhost ''-> send_vhost_reply''"

definition send_vhost_msg :: "write_answer list \<Rightarrow> int \<Rightarrow> vh_msg \<Rightarrow> proc \<Rightarrow> proc res" where
  "send_vhost_msg = send_vhost ''-> send_vhost_msg''"

definition reply_flags :: "vh_msg \<Rightarrow> vh_msg" where
  "reply_flags v =
     v\<lparr>flags := ((flags v AND NOT VHOST_USER_VERSION_MASK) OR VHOST_USER_VERSION)
                OR VHOST_USER_REPLY_MASK\<rparr>"

section \<open>Handlers\<close>

definition upd_bk :: "(backend \<Rightarrow> backend) \<Rightarrow> proc \<Rightarrow> proc" where
  "upd_bk f p = p\<lparr>svr := (svr p)\<lparr>bk := f (bk (svr p))\<rparr>\<rparr>"

definition get_vq :: "nat \<Rightarrow> proc \<Rightarrow> vh_virtqueue res" where
  "get_vq i p = arr_get (vq (bk (svr p))) i"

definition set_vq :: "nat \<Rightarrow> vh_virtqueue \<Rightarrow> proc \<Rightarrow> proc res" where
  "set_vq i q p =
     bindE (arr_set (vq (bk (svr p))) i q) (\<lambda>qs. Inr (upd_bk (\<lambda>b. b\<lparr>vq := qs\<rparr>) p))"

definition handle_get_features :: "write_answer list \<Rightarrow> int \<Rightarrow> vh_msg \<Rightarrow> proc \<Rightarrow> proc res" where
  "handle_get_features ws fd v p =
     send_vhost_reply ws fd
       (reply_flags (v\<lparr>payload := set_payload_u64
            (push_bit VIRTIO_NET_F_MRG_RXBUF 1 OR push_bit VHOST_USER_F_PROTOCOL_FEATURES 1)
            (payload v),
          msg_size := 8\<rparr>)) p"

definition handle_set_features :: "vh_msg \<Rightarrow> proc \<Rightarrow> proc res" where
  "handle_set_features v p =
     (let f = payload_u64 (payload v);
          p = upd_bk (\<lambda>b. b\<lparr>features := f\<rparr>) p in
      Inr (upd_bk (\<lambda>b. b\<lparr>hdrlen :=
        (if f AND push_bit VIRTIO_F_VERSION_1 1 \<noteq> 0 \<or> f AND push_bit VIRTIO_NET_F_MRG_RXBUF 1 \<noteq> 0
         then 12 else 10)\<rparr>) p))"

function map_regions :: "os_answers \<Rightarrow> vh_msg \<Rightarrow> nat \<Rightarrow> nat \<Rightarrow> proc \<Rightarrow> proc res" where
  "map_regions os v n i p =
     (if i < n then
        bindE (payload_region (payload v) i) (\<lambda>mr.
        bindE (arr_get (regions (bk (svr p))) i) (\<lambda>r0.
        bindE (arr_get (fds v) i) (\<lambda>fd.
          let r = r0\<lparr>gpa := guest_phys_addr mr, reg_size := memory_size mr,
                     qva := userspace_addr mr, mmap_offset := mr_mmap_offset mr\<rparr> in
          case mmap_fn os (memory p) (reg_size r + mmap_offset r) fd of
            None \<Rightarrow> Inl (Exit 1)
          | Some (addr, m') \<Rightarrow>
              map_regions os v n (Suc i)
                (emit [CloseFd fd]
                  (upd_bk (\<lambda>b. b\<lparr>regions := (regions b)[i := r\<lparr>mmap_addr := addr\<rparr>]\<rparr>)
                    (p\<lparr>memory := m'\<rparr>))))))
      else Inr p)"
  by pat_completeness auto
termination
  by (relation "measure (\<lambda>(_, _, n, i, _). n - i)") auto

definition handle_set_mem_table :: "os_answers \<Rightarrow> vh_msg \<Rightarrow> proc \<Rightarrow> proc res" where
  "handle_set_mem_table os v p =
     (let n = payload_nregions (payload v) in
      map_regions os v (unat n) 0 (upd_bk (\<lambda>b. b\<lparr>nregions := n\<rparr>) p))"

definition handle_set_vring_num :: "vh_msg \<Rightarrow> proc \<Rightarrow> proc res" where
  "handle_set_vring_num v p =
     (let st = payload_state (payload v); index = unat (vs_index st) in
      bindE (get_vq index p) (\<lambda>q. set_vq index (q\<lparr>vq_size := vs_num st\<rparr>) p))"

definition handle_set_vring_addr :: "vh_msg \<Rightarrow> proc \<Rightarrow> proc res" where
  "handle_set_vring_addr v p =
     (let vra = payload_addr (payload v); index = unat (va_index vra); b = bk (svr p) in
      bindE (get_vq index p) (\<lambda>q.
      bindE (qva_to_va (desc_user_addr vra) b) (\<lambda>desc.
      bindE (qva_to_va (used_user_addr vra) b) (\<lambda>used.
      bindE (qva_to_va (avail_user_addr vra) b) (\<lambda>avail.
      bindE (load16 (memory p) (used_idx_at used)) (\<lambda>uidx.
        let q = q\<lparr>vq_desc := desc, vq_used := used, vq_avail := avail, last_used_idx := uidx\<rparr>;
            q = (if last_avail_idx q \<noteq> uidx then q\<lparr>last_avail_idx := uidx\<rparr> else q) in
        set_vq index q p))))))"

definition handle_set_vring_base :: "vh_msg \<Rightarrow> proc \<Rightarrow> proc res" where
  "handle_set_vring_base v p =
     (let st = payload_state (payload v); index = unat (vs_index st) in
      bindE (get_vq index p) (\<lambda>q. set_vq index (q\<lparr>last_avail_idx := ucast (vs_num st)\<rparr>) p))"

definition handle_get_vring_base :: "write_answer list \<Rightarrow> int \<Rightarrow> vh_msg \<Rightarrow> proc \<Rightarrow> proc res" where
  "handle_get_vring_base ws fd v p =
     (let index = unat (vs_index (payload_state (payload v))) in
      bindE (get_vq index p) (\<lambda>q.
        let v = v\<lparr>payload := set_payload_num (ucast (last_avail_idx q)) (payload v), msg_size := 8\<rparr>;
            closed = (if call_fd q \<noteq> -1 then [CloseFd (call_fd q)] else []) @
                     (if kick_fd q \<noteq> -1 then [CloseFd (kick_fd q)] else []) in
        bindE (set_vq index (q\<lparr>call_fd := -1, kick_fd := -1\<rparr>) (emit closed p)) (\<lambda>p.
          send_vhost_reply ws fd (reply_flags v) p)))"

definition handle_set_vring_kick :: "vh_msg \<Rightarrow> proc \<Rightarrow> proc res" where
  "handle_set_vring_kick v p =
     (let index = unat (payload_u64 (payload v) AND VHOST_USER_VRING_IDX_MASK) in
      bindE (get_vq index p) (\<lambda>q.
      bindE (arr_get (fds v) 0) (\<lambda>fd.
      bindE (set_vq index (q\<lparr>kick_fd := fd\<rparr>) p) (\<lambda>p.
      bindE (load16 (memory p) (avail_flags_at (vq_avail q))) (\<lambda>fl.
      bindE (store16 (memory p) (avail_flags_at (vq_avail q)) (fl OR VRING_AVAIL_F_NO_INTERRUPT))
        (\<lambda>m. Inr (p\<lparr>memory := m\<rparr>)))))))"

definition handle_set_vring_call :: "vh_msg \<Rightarrow> proc \<Rightarrow> proc res" where
  "handle_set_vring_call v p =
     (let u64_arg = payload_u64 (payload v);
          index = unat (u64_arg AND VHOST_USER_VRING_IDX_MASK) in
      if u64_arg AND VHOST_USER_VRING_NOFD_MASK \<noteq> 0
      then Inl (AssertFail ''(u64_arg & VHOST_USER_VRING_NOFD_MASK) == 0'')
      else bindE (get_vq index p) (\<lambda>q.
           bindE (arr_get (fds v) 0) (\<lambda>fd. set_vq index (q\<lparr>call_fd := fd\<rparr>) p)))"

definition handle_set_vring_err :: "vh_msg \<Rightarrow> proc \<Rightarrow> proc res" where
  "handle_set_vring_err v p =
     Inr (emit [Log (''-> Vring error u64: 0x'' @ fmt_x (unat (payload_u64 (payload v))))] p)"

definition handle_get_protocol_features ::
  "write_answer list \<Rightarrow> int \<Rightarrow> vh_msg \<Rightarrow> proc \<Rightarrow> proc res" where
  "handle_get_protocol_features ws fd v p =
     send_vhost_reply ws fd
       (reply_flags (v\<lparr>payload := set_payload_u64
            (push_bit VHOST_USER_PROTOCOL_F_LOG_SHMFD 1) (payload v),
          msg_size := 8\<rparr>)) p"

text \<open>The counter \<^verbatim>\<open>en2\<close> is a signed \<^verbatim>\<open>int\<close>: its increment past the largest value is undefined.\<close>

definition count_enable :: "nat \<Rightarrow> u32 \<Rightarrow> proc \<Rightarrow> proc res" where
  "count_enable index enable p =
     bindE (arr_get (en2 (bk (svr p))) index) (\<lambda>n.
       if sint n = 2 ^ 31 - 1 then Inl SignedOverflow
       else
         let p = upd_bk (\<lambda>b. b\<lparr>en2 := (en2 b)[index := n + 1]\<rparr>) p in
         if enable \<noteq> 0 \<and> sint (n + 1) > 1 then
           Inr (emit ([Log (''-> Queue:'' @ fmt_d (int index) @ '' is enabled'')] @
                      (if index = 1 then [ThreadStart Tx_dequeue] else [])) p)
         else Inr p)"

definition handle_set_vring_enable ::
  "write_answer list \<Rightarrow> int \<Rightarrow> vh_msg \<Rightarrow> proc \<Rightarrow> proc res" where
  "handle_set_vring_enable ws fd v p =
     (let st = payload_state (payload v); index = unat (vs_index st); enable = vs_num st in
      bindE (get_vq index p) (\<lambda>q.
      bindE (set_vq index (q\<lparr>vq_enable := enable\<rparr>) p) (\<lambda>p.
      bindE (send_vhost_msg ws fd
               (v\<lparr>request := vhost_req_num VHOST_USER_SET_VRING_CALL,
                  payload := set_payload_u64 VHOST_USER_VRING_NOFD_MASK (payload v),
                  msg_size := 8\<rparr>) p) (\<lambda>p.
        count_enable index enable p))))"

definition dispatch :: "os_answers \<Rightarrow> int \<Rightarrow> vh_msg \<Rightarrow> proc \<Rightarrow> proc res" where
  "dispatch os fd v p =
     (case vhost_req_of (request v) of
        Some VHOST_USER_GET_FEATURES \<Rightarrow> handle_get_features (write_ans os) fd v p
      | Some VHOST_USER_SET_FEATURES \<Rightarrow> handle_set_features v p
      | Some VHOST_USER_SET_MEM_TABLE \<Rightarrow> handle_set_mem_table os v p
      | Some VHOST_USER_SET_VRING_NUM \<Rightarrow> handle_set_vring_num v p
      | Some VHOST_USER_SET_VRING_ADDR \<Rightarrow> handle_set_vring_addr v p
      | Some VHOST_USER_SET_VRING_BASE \<Rightarrow> handle_set_vring_base v p
      | Some VHOST_USER_GET_VRING_BASE \<Rightarrow> handle_get_vring_base (write_ans os) fd v p
      | Some VHOST_USER_SET_VRING_KICK \<Rightarrow> handle_set_vring_kick v p
      | Some VHOST_USER_SET_VRING_CALL \<Rightarrow> handle_set_vring_call v p
      | Some VHOST_USER_SET_VRING_ERR \<Rightarrow> handle_set_vring_err v p
      | Some VHOST_USER_GET_PROTOCOL_FEATURES \<Rightarrow> handle_get_protocol_features (write_ans os) fd v p
      | Some VHOST_USER_SET_VRING_ENABLE \<Rightarrow> handle_set_vring_enable (write_ans os) fd v p
      | Some VHOST_USER_SET_LOG_FD \<Rightarrow> Inr p
      | Some VHOST_USER_SET_PROTOCOL_FEATURES \<Rightarrow> Inr p
      | Some VHOST_USER_GET_QUEUE_NUM \<Rightarrow> Inr p
      | Some VHOST_USER_SEND_RARP \<Rightarrow> Inr p
      | Some VHOST_USER_SET_OWNER \<Rightarrow> Inr p
      | Some VHOST_USER_RESET_OWNER \<Rightarrow> Inr p
      | Some VHOST_USER_SET_LOG_BASE \<Rightarrow> Inr p
      | _ \<Rightarrow> Inr (emit [Log ''Invalid vhost message from guest''] p))"

section \<open>Reception of a message\<close>

text \<open>
  The C variable \<^verbatim>\<open>rc\<close> is a \<^verbatim>\<open>uint32_t\<close>: the result -1 of a failed call is stored in it as
  the largest value, and the test \<^verbatim>\<open>rc < 0\<close> is a test on an unsigned number.
\<close>

definition recv_rc :: "recv_answer \<Rightarrow> u32" where
  "recv_rc a = (case a of RecvErr \<Rightarrow> -1 | Recv bs rights \<Rightarrow> of_nat (length bs))"

definition recv_hdr :: "recv_answer \<Rightarrow> vh_msg \<Rightarrow> vh_msg" where
  "recv_hdr a v =
     (case a of
        RecvErr \<Rightarrow> v
      | Recv bs rights \<Rightarrow>
          set_msg_hdr (take VHOST_USER_HDR_SIZE bs @ drop (length bs) (msg_hdr v)) v)"

definition copy_rights :: "recv_answer \<Rightarrow> vh_msg \<Rightarrow> vh_msg res" where
  "copy_rights a v =
     (case a of
        RecvErr \<Rightarrow> Inr v
      | Recv bs rights \<Rightarrow>
          bindE (buf_write (fds v) 0 rights) (\<lambda>fs. Inr (v\<lparr>fds := fs\<rparr>)))"

definition read_rc :: "read_answer \<Rightarrow> u32" where
  "read_rc a = (case a of ReadErr \<Rightarrow> -1 | ReadOk bs \<Rightarrow> of_nat (length bs))"

definition read_payload :: "read_answer \<Rightarrow> vh_msg \<Rightarrow> vh_msg res" where
  "read_payload a v =
     (if msg_size v = 0 then Inr v
      else if read_rc a = 0 then Inl (Exit 1)
      else if read_rc a < 0 then Inl (Exit 1)
      else if read_rc a \<noteq> msg_size v then Inl (AssertFail ''rc == vmsg.size'')
      else (case a of
              ReadErr \<Rightarrow> Inr v
            | ReadOk bs \<Rightarrow> bindE (buf_write (payload v) 0 bs) (\<lambda>pl. Inr (v\<lparr>payload := pl\<rparr>))))"

definition log_request :: "vh_msg \<Rightarrow> proc \<Rightarrow> proc res" where
  "log_request v p =
     (if request v \<noteq> 0 then
        bindE (arr_get vhost_req_str (unat (request v))) (\<lambda>str.
          Inr (emit [Log (''-> Vhost msg rcvd ('' @ str @ '')'')] p))
      else Inr p)"

definition process_vhost_msg :: "os_answers \<Rightarrow> vh_msg \<Rightarrow> int \<Rightarrow> proc \<Rightarrow> proc res" where
  "process_vhost_msg os vmsg0 fd p =
     (let rc = recv_rc (recvmsg_ans os) in
      if rc = 0 then Inl (Exit 1)
      else if rc < 0 then Inl (Exit 1)
      else
        bindE (copy_rights (recvmsg_ans os) (recv_hdr (recvmsg_ans os) vmsg0)) (\<lambda>vmsg.
          if unat (msg_size vmsg) > payload_size then Inl (Exit 1)
          else
            bindE (read_payload (read_ans os) vmsg) (\<lambda>vmsg.
            bindE (log_request vmsg p) (\<lambda>p. dispatch os fd vmsg p))))"

section \<open>The select loop\<close>

text \<open>
  One pass over the descriptors. \<open>os fd\<close> are the answers of the system while descriptor \<open>fd\<close>
  is served, \<open>accepted\<close> is the result of \<^verbatim>\<open>accept\<close>. The bound \<^verbatim>\<open>max_fd + 1\<close> is read again in
  every iteration, as it is in the C loop.
\<close>

function scan_fds ::
  "(int \<Rightarrow> os_answers) \<Rightarrow> int \<Rightarrow> vh_msg \<Rightarrow> int set \<Rightarrow> int \<Rightarrow> proc \<Rightarrow> proc res" where
  "scan_fds os accepted vmsg0 fdset_rd fd p =
     (if fd < max_fd (svr p) + 1 then
        if fd < 0 \<or> FD_SETSIZE \<le> fd then Inl OutOfBounds
        else if fd \<in> fdset_rd \<and> fd \<in> fdset (svr p) then
          bindE (if fd = srv_fd (svr p)
                 then bindE (add_fd (svr p) accepted) (\<lambda>s. Inr (p\<lparr>svr := s\<rparr>))
                 else process_vhost_msg (os fd) vmsg0 fd p)
            (\<lambda>p'. scan_fds os accepted vmsg0 fdset_rd (fd + 1) p')
        else scan_fds os accepted vmsg0 fdset_rd (fd + 1) p
      else Inr p)"
  by pat_completeness auto
termination
  by (relation "measure (\<lambda>(_, _, _, _, fd, _). nat (FD_SETSIZE - fd))") (auto simp: FD_SETSIZE_def)

text \<open>\<open>ready\<close> is what \<^verbatim>\<open>select\<close> reports, \<^const>\<open>None\<close> when it fails and leaves the set as it was.\<close>

definition select_round ::
  "(int \<Rightarrow> os_answers) \<Rightarrow> int \<Rightarrow> vh_msg \<Rightarrow> int set option \<Rightarrow> proc \<Rightarrow> proc res" where
  "select_round os accepted vmsg0 ready p =
     scan_fds os accepted vmsg0
       (case ready of None \<Rightarrow> fdset (svr p) | Some R \<Rightarrow> fdset (svr p) \<inter> R) 0 p"

inductive server_reach :: "proc \<Rightarrow> proc \<Rightarrow> bool" where
  server_start: "server_reach p p"
| server_round: "server_reach p p1 \<Longrightarrow> wf_msg vmsg0 \<Longrightarrow>
    select_round os accepted vmsg0 ready p1 = Inr p2 \<Longrightarrow> server_reach p p2"

section \<open>Invariant of the server\<close>

text \<open>
  The arrays keep the sizes their declarations give them, and the descriptor set stays below
  the bound up to which the loop scans it.
\<close>

definition wf_server :: "vh_desc \<Rightarrow> bool" where
  "wf_server s \<longleftrightarrow> wf_backend (bk s) \<and> fdset s \<subseteq> {0..max_fd s} \<and>
     -1 \<le> max_fd s \<and> max_fd s < FD_SETSIZE"

text \<open>What every handler keeps: the descriptor set, and the sizes of the device's arrays.\<close>

definition keeps :: "proc \<Rightarrow> proc \<Rightarrow> bool" where
  "keeps p p' \<longleftrightarrow> fdset (svr p') = fdset (svr p) \<and> max_fd (svr p') = max_fd (svr p) \<and>
     srv_fd (svr p') = srv_fd (svr p) \<and> (wf_backend (bk (svr p)) \<longrightarrow> wf_backend (bk (svr p')))"

lemma keeps_refl [simp, intro]: "keeps p p"
  by (simp add: keeps_def)

lemma keeps_trans [trans]: "keeps p q \<Longrightarrow> keeps q r \<Longrightarrow> keeps p r"
  by (simp add: keeps_def)

lemma keeps_wf: "keeps p p' \<Longrightarrow> wf_server (svr p) \<Longrightarrow> wf_server (svr p')"
  by (simp add: keeps_def wf_server_def)

lemma keeps_emit [simp, intro]: "keeps p (emit es p)"
  by (simp add: keeps_def emit_def)

lemma keeps_memory [simp, intro]: "keeps p (p\<lparr>memory := m\<rparr>)"
  by (simp add: keeps_def)

lemma keeps_set_vq: "set_vq i q p = Inr p' \<Longrightarrow> keeps p p'"
  by (auto simp: set_vq_def bindE_eq_Inr_iff arr_set_eq_Inr keeps_def upd_bk_def wf_backend_def)

lemma keeps_upd_bk:
  "(\<And>b. wf_backend b \<Longrightarrow> wf_backend (f b)) \<Longrightarrow> keeps p (upd_bk f p)"
  by (simp add: keeps_def upd_bk_def)

lemma keeps_send: "send_vhost t ws fd v p = Inr p' \<Longrightarrow> keeps p p'"
  by (auto simp: send_vhost_def Let_def bindE_eq_Inr_iff split: if_splits)

lemmas send_defs = send_vhost_reply_def send_vhost_msg_def

declare map_regions.simps [simp del] scan_fds.simps [simp del]

text \<open>One iteration of the region loop, as an elimination rule.\<close>

definition new_region :: "mem_region \<Rightarrow> u64 \<Rightarrow> device_region \<Rightarrow> device_region" where
  "new_region mr addr r =
     r\<lparr>gpa := guest_phys_addr mr, reg_size := memory_size mr, qva := userspace_addr mr,
       mmap_offset := mr_mmap_offset mr, mmap_addr := addr\<rparr>"

definition region_step :: "nat \<Rightarrow> mem_region \<Rightarrow> u64 \<Rightarrow> mem \<Rightarrow> cint \<Rightarrow> proc \<Rightarrow> proc" where
  "region_step i mr addr m' fd p =
     emit [CloseFd fd]
       (upd_bk (\<lambda>b. b\<lparr>regions := (regions b)[i := new_region mr addr (regions b ! i)]\<rparr>)
         (p\<lparr>memory := m'\<rparr>))"

lemma map_regions_stop: "n \<le> i \<Longrightarrow> map_regions os v n i p = Inr p"
  by (simp add: map_regions.simps[of _ _ n i])

lemma map_regions_InrE:
  assumes "map_regions os v n i p = Inr p'" "i < n"
  obtains mr fd addr m' where
    "payload_region (payload v) i = Inr mr" "i < length (regions (bk (svr p)))"
    "i < length (fds v)" "fd = fds v ! i"
    "mmap_fn os (memory p) (memory_size mr + mr_mmap_offset mr) fd = Some (addr, m')"
    "map_regions os v n (Suc i) (region_step i mr addr m' fd p) = Inr p'"
  using assms
  by (auto simp: map_regions.simps[of _ _ n i] bindE_eq_Inr_iff arr_get_eq_Inr Let_def
      region_step_def new_region_def upd_bk_def split: option.splits)

lemma region_step_sel [simp]:
  "fdset (svr (region_step i mr addr m' fd p)) = fdset (svr p)"
  "max_fd (svr (region_step i mr addr m' fd p)) = max_fd (svr p)"
  "srv_fd (svr (region_step i mr addr m' fd p)) = srv_fd (svr p)"
  "memory (region_step i mr addr m' fd p) = m'"
  "outp (region_step i mr addr m' fd p) = outp p @ [CloseFd fd]"
  "regions (bk (svr (region_step i mr addr m' fd p))) =
     (regions (bk (svr p)))[i := new_region mr addr (regions (bk (svr p)) ! i)]"
  "nregions (bk (svr (region_step i mr addr m' fd p))) = nregions (bk (svr p))"
  "vq (bk (svr (region_step i mr addr m' fd p))) = vq (bk (svr p))"
  "en2 (bk (svr (region_step i mr addr m' fd p))) = en2 (bk (svr p))"
  "buf_vec (bk (svr (region_step i mr addr m' fd p))) = buf_vec (bk (svr p))"
  by (simp_all add: region_step_def emit_def upd_bk_def)

lemma keeps_region_step [simp, intro]: "keeps p (region_step i mr addr m' fd p)"
  by (simp add: keeps_def wf_backend_def)

lemma keeps_map_regions: "map_regions os v n i p = Inr p' \<Longrightarrow> keeps p p'"
proof (induction "n - i" arbitrary: i p)
  case 0
  then show ?case by (simp add: map_regions_stop)
next
  case (Suc d)
  then have "i < n" by simp
  with Suc.prems obtain mr fd addr m' where
    "map_regions os v n (Suc i) (region_step i mr addr m' fd p) = Inr p'"
    by (rule map_regions_InrE)
  then have "keeps (region_step i mr addr m' fd p) p'"
    by (rule Suc.hyps(1)[rotated]) (use Suc.hyps(2) in simp)
  then show ?case by (rule keeps_trans[OF keeps_region_step])
qed

lemma keeps_get_vring_base: "handle_get_vring_base ws fd v p = Inr p' \<Longrightarrow> keeps p p'"
  by (auto simp: handle_get_vring_base_def send_defs Let_def bindE_eq_Inr_iff
      intro: keeps_trans[OF keeps_emit] dest!: keeps_set_vq keeps_send dest: keeps_trans)

lemma keeps_en2: "keeps p (upd_bk (\<lambda>b. b\<lparr>en2 := (en2 b)[i := n]\<rparr>) p)"
  by (rule keeps_upd_bk) (simp add: wf_backend_def)

lemma keeps_count_enable: "count_enable i e p = Inr p' \<Longrightarrow> keeps p p'"
  by (auto simp: count_enable_def Let_def bindE_eq_Inr_iff keeps_en2
      intro: keeps_trans[OF keeps_en2 keeps_emit] split: if_splits)

lemma keeps_enable: "handle_set_vring_enable ws fd v p = Inr p' \<Longrightarrow> keeps p p'"
  unfolding handle_set_vring_enable_def Let_def send_defs
  by (elim bindE_InrE) (meson keeps_trans keeps_set_vq keeps_send keeps_count_enable)

lemma keeps_kick: "handle_set_vring_kick v p = Inr p' \<Longrightarrow> keeps p p'"
  by (auto simp: handle_set_vring_kick_def Let_def bindE_eq_Inr_iff
      dest!: keeps_set_vq intro: keeps_trans)

lemma keeps_dispatch:
  assumes "dispatch os fd v p = Inr p'"
  shows "keeps p p'"
proof (cases "vhost_req_of (request v)")
  case None
  with assms show ?thesis by (auto simp: dispatch_def)
next
  case (Some r)
  have u: "keeps p (upd_bk (\<lambda>b. b\<lparr>nregions := n\<rparr>) p)" for n
    by (rule keeps_upd_bk) (simp add: wf_backend_def)
  have f: "keeps p (upd_bk (\<lambda>b. b\<lparr>hdrlen := h\<rparr>) (upd_bk (\<lambda>b. b\<lparr>features := n\<rparr>) p))" for n h
    by (simp add: keeps_def upd_bk_def wf_backend_def)
  from Some assms show ?thesis
    by (cases r)
       (auto simp: dispatch_def handle_get_features_def handle_get_protocol_features_def send_defs
          handle_set_features_def handle_set_mem_table_def handle_set_vring_num_def
          handle_set_vring_addr_def handle_set_vring_base_def handle_set_vring_call_def
          handle_set_vring_err_def Let_def bindE_eq_Inr_iff f
        dest!: keeps_send keeps_set_vq keeps_map_regions keeps_enable keeps_get_vring_base keeps_kick
        intro: keeps_trans[OF u] split: if_splits)
qed

lemma keeps_process_vhost_msg: "process_vhost_msg os v fd p = Inr p' \<Longrightarrow> keeps p p'"
  by (auto simp: process_vhost_msg_def Let_def bindE_eq_Inr_iff log_request_def
      dest!: keeps_dispatch intro: keeps_trans[OF keeps_emit] split: if_splits)

lemma wf_add_fd: "add_fd s fd = Inr s' \<Longrightarrow> wf_server s \<Longrightarrow> wf_server s'"
  by (fastforce simp: add_fd_def wf_server_def FD_SETSIZE_def Let_def split: if_splits)

lemma wf_scan_fds:
  "scan_fds os acc v rd fd p = Inr p' \<Longrightarrow> wf_server (svr p) \<Longrightarrow> wf_server (svr p')"
proof (induction os acc v rd fd p rule: scan_fds.induct)
  case (1 os acc v rd fd p)
  show ?case
  proof (cases "fd < max_fd (svr p) + 1")
    case False
    with 1 show ?thesis by (simp add: scan_fds.simps[of _ _ _ _ fd])
  next
    case True
    have srv: "wf_server (svr p'')"
      if "bindE (add_fd (svr p) acc) (\<lambda>s. Inr (p\<lparr>svr := s\<rparr>)) = Inr p''" for p''
      using that "1.prems"(2) by (auto simp: bindE_eq_Inr_iff intro: wf_add_fd)
    have msg: "wf_server (svr p'')" if "process_vhost_msg (os fd) v fd p = Inr p''" for p''
      using that "1.prems"(2) by (blast intro: keeps_wf keeps_process_vhost_msg)
    from True "1.prems"(1) have b: "\<not> (fd < 0 \<or> FD_SETSIZE \<le> fd)"
      by (auto simp: scan_fds.simps[of _ _ _ _ fd] split: if_splits)
    show ?thesis
    proof (cases "fd \<in> rd \<and> fd \<in> fdset (svr p)")
      case False
      with True b "1.prems" show ?thesis
        by (intro "1.IH"(2)[OF True b False]) (simp_all add: scan_fds.simps[of _ _ _ _ fd])
    next
      case ready: True
      with True b "1.prems"(1) obtain p1 where p1:
        "(if fd = srv_fd (svr p) then bindE (add_fd (svr p) acc) (\<lambda>s. Inr (p\<lparr>svr := s\<rparr>))
          else process_vhost_msg (os fd) v fd p) = Inr p1"
        "scan_fds os acc v rd (fd + 1) p1 = Inr p'"
        by (auto simp: scan_fds.simps[of _ _ _ _ fd p] elim!: bindE_InrE)
      moreover from p1(1) have "wf_server (svr p1)" using srv msg by (metis (full_types))
      ultimately show ?thesis by (rule "1.IH"(1)[OF True b ready])
    qed
  qed
qed

end
