(* ===== verification/VhostProps.thy ===== *)
theory VhostProps
  imports VhostServer
begin

text \<open>
  What the control side of the backend promises: the replies it sends, the region table and
  ring addresses it installs, the invariant of the select loop, and what it does with
  messages that are short, unknown or out of range.
\<close>

section \<open>Shared lemmas\<close>

definition mmap_ok :: "(mem \<Rightarrow> u64 \<Rightarrow> cint \<Rightarrow> (u64 \<times> mem) option) \<Rightarrow> bool" where
  \<comment> \<open>a new mapping covers the requested length and leaves existing mappings in place\<close>
  "mmap_ok f \<longleftrightarrow> (\<forall>m len fd addr m'. f m len fd = Some (addr, m') \<longrightarrow>
     m \<subseteq>\<^sub>m m' \<and> span addr (unat len) \<subseteq> dom m')"

definition wire_hdr :: "u32 \<Rightarrow> u32 \<Rightarrow> u32 \<Rightarrow> u8 list" where
  "wire_hdr r fl sz = le_bytes 4 r @ le_bytes 4 fl @ le_bytes 4 sz"

lemma emit_emit [simp]: "emit es (emit ds p) = emit (ds @ es) p"
  by (simp add: emit_def)

lemma emit_sel [simp]:
  "svr (emit es p) = svr p" "memory (emit es p) = memory p" "outp (emit es p) = outp p @ es"
  by (simp_all add: emit_def)

lemma upd_bk_sel [simp]:
  "bk (svr (upd_bk f p)) = f (bk (svr p))" "memory (upd_bk f p) = memory p"
  "outp (upd_bk f p) = outp p" "fdset (svr (upd_bk f p)) = fdset (svr p)"
  "max_fd (svr (upd_bk f p)) = max_fd (svr p)" "srv_fd (svr (upd_bk f p)) = srv_fd (svr p)"
  by (simp_all add: upd_bk_def)

lemma sint_of_nat_small: "c < 2 ^ 31 \<Longrightarrow> sint (of_nat c :: cint) = int c"
  by (simp add: signed_of_nat signed_take_bit_int_eq_self)

lemma zero_proc_sel:
  "bk (svr zero_proc) = zero_backend" "outp zero_proc = []" "memory zero_proc = Map.empty"
  "en2 (zero_backend) = [0, 0]" "vq (zero_backend) = [zero_vq, zero_vq]"
  by (simp_all add: zero_proc_def zero_backend_def)

lemma map_regions_other_answers:
  "map_regions (os\<lparr>recvmsg_ans := r\<rparr>) v n i p = map_regions os v n i p"
proof (induction "n - i" arbitrary: i p)
  case 0
  then show ?case by (simp add: map_regions_stop)
next
  case (Suc d)
  then have "map_regions (os\<lparr>recvmsg_ans := r\<rparr>) v n (Suc i) q = map_regions os v n (Suc i) q" for q
    by simp
  then show ?case
    by (simp add: map_regions.simps[of _ _ n i] cong: option.case_cong prod.case_cong)
qed

lemma dispatch_other_answers: "dispatch (os\<lparr>recvmsg_ans := r\<rparr>) = dispatch os"
  by (intro ext)
     (simp add: dispatch_def handle_set_mem_table_def map_regions_other_answers
       cong: option.case_cong vhost_req.case_cong)

lemma write_loop_retry:
  "write_loop fd bs (replicate k (WErr True) @ WOk n # ws) = Inr [WriteFd fd (take n bs)]"
  by (induction k) simp_all

lemma take_msg_bytes:
  "wf_msg v \<Longrightarrow> take 20 (msg_bytes v) = msg_hdr v @ take 8 (payload v)"
  by (simp add: msg_bytes_def wf_msg_def payload_size_def)

lemma send_vhost_ok:
  assumes "wf_msg v" "msg_size v = 8" "20 \<le> n"
  shows "send_vhost tag (replicate k (WErr True) @ WOk n # ws) fd v p =
    Inr (emit [WriteFd fd (msg_hdr v @ take 8 (payload v)), Log tag] p)"
  using assms by (simp add: send_vhost_def VHOST_USER_HDR_SIZE_def length_msg_bytes
      write_loop_retry take_msg_bytes Let_def)

lemma reply_flags_sel [simp]:
  "request (reply_flags v) = request v" "msg_size (reply_flags v) = msg_size v"
  "payload (reply_flags v) = payload v" "fds (reply_flags v) = fds v"
  "wf_msg (reply_flags v) = wf_msg v"
  by (simp_all add: reply_flags_def wf_msg_def)

lemma reply_ok:
  assumes "wf_msg v" "msg_size v = 8" "20 \<le> n"
  shows "send_vhost_reply (replicate k (WErr True) @ WOk n # ws) fd (reply_flags v) p =
    Inr (emit [WriteFd fd (wire_hdr (request v) ((flags v AND NOT 3) OR 5) 8 @ take 8 (payload v)),
               Log ''-> send_vhost_reply''] p)"
proof -
  have "msg_hdr (reply_flags v) = wire_hdr (request v) ((flags v AND NOT 3) OR 5) 8"
    using assms(2) by (simp add: msg_hdr_def reply_flags_def wire_hdr_def vhost_const_defs or.assoc)
  then show ?thesis using assms by (simp add: send_vhost_reply_def send_vhost_ok)
qed

lemma wf_msg_set_u64:
  "wf_msg v \<Longrightarrow> wf_msg (v\<lparr>payload := set_payload_u64 x (payload v), msg_size := s\<rparr>)"
  "wf_msg v \<Longrightarrow> wf_msg (v\<lparr>request := r, payload := set_payload_u64 x (payload v), msg_size := s\<rparr>)"
  "wf_msg v \<Longrightarrow> wf_msg (v\<lparr>payload := set_payload_num y (payload v), msg_size := s\<rparr>)"
  by (simp_all add: wf_msg_def payload_size_def)

lemma take8_set_u64 [simp]: "take 8 (set_payload_u64 x p) = le_bytes 8 x"
  by (simp add: set_payload_u64_def)

lemma length_wire_hdr [simp]: "length (wire_hdr r fl sz) = 12"
  by (simp add: wire_hdr_def)

lemma set_msg_hdr_wire [simp]:
  "set_msg_hdr (wire_hdr r fl sz) v = v\<lparr>request := r, flags := fl, msg_size := sz\<rparr>"
  by (simp add: wire_hdr_def set_msg_hdr_def)

text \<open>A header received in one piece with an empty payload is dispatched as it stands.\<close>

lemma process_hdr_only:
  assumes "recvmsg_ans os = Recv (wire_hdr r fl 0) []"
  shows "process_vhost_msg os v0 fd p =
    bindE (log_request (v0\<lparr>request := r, flags := fl, msg_size := 0\<rparr>) p)
      (dispatch os fd (v0\<lparr>request := r, flags := fl, msg_size := 0\<rparr>))"
  using assms
  by (simp add: process_vhost_msg_def recv_rc_def recv_hdr_def copy_rights_def buf_write_def
      read_payload_def VHOST_USER_HDR_SIZE_def)

text \<open>The same for a message whose payload is read in one piece.\<close>

lemma process_with_payload:
  assumes "recvmsg_ans os = Recv (wire_hdr r fl (of_nat (length bs))) rights"
    and "read_ans os = ReadOk bs" "bs \<noteq> []" "length bs \<le> payload_size"
    and "length rights \<le> 8" "wf_msg v0"
  defines "v \<equiv> v0\<lparr>request := r, flags := fl, msg_size := of_nat (length bs),
      fds := rights @ drop (length rights) (fds v0), payload := bs @ drop (length bs) (payload v0)\<rparr>"
  shows "process_vhost_msg os v0 fd p = bindE (log_request v p) (dispatch os fd v)"
proof -
  have le: "length bs \<le> 264" using assms(4) by (simp add: payload_size_def)
  then have u: "unat (of_nat (length bs) :: u32) = length bs"
    by (simp add: unat_of_nat)
  moreover have "(of_nat (length bs) :: u32) \<noteq> 0"
    using u assms(3) by (metis length_greater_0_conv less_irrefl unsigned_0)
  ultimately show ?thesis
    using assms(1-6) le unfolding v_def
    by (simp add: process_vhost_msg_def recv_rc_def recv_hdr_def copy_rights_def buf_write_def
        read_payload_def read_rc_def VHOST_USER_HDR_SIZE_def wf_msg_def payload_size_def
        VHOST_MEMORY_MAX_NREGIONS_def)
qed

lemma log_request_known:
  "unat (request v) < 21 \<Longrightarrow> request v \<noteq> 0 \<Longrightarrow>
   log_request v p =
     Inr (emit [Log (''-> Vhost msg rcvd ('' @ vhost_req_str ! unat (request v) @ '')'')] p)"
  by (simp add: log_request_def vhost_req_str_def)

section \<open>Region table\<close>

lemma map_regions_spec:
  assumes "map_regions os v n i p = Inr p'" "i \<le> n" "n \<le> length (fds v)"
  shows "nregions (bk (svr p')) = nregions (bk (svr p)) \<and>
    length (regions (bk (svr p'))) = length (regions (bk (svr p))) \<and>
    outp p' = outp p @ map CloseFd (take (n - i) (drop i (fds v))) \<and>
    (\<forall>j < length (regions (bk (svr p))).
       if i \<le> j \<and> j < n
       then \<exists>mr addr. payload_region (payload v) j = Inr mr \<and>
              regions (bk (svr p')) ! j = new_region mr addr (regions (bk (svr p)) ! j)
       else regions (bk (svr p')) ! j = regions (bk (svr p)) ! j)"
  using assms
proof (induction "n - i" arbitrary: i p)
  case 0
  then show ?case by (auto simp: map_regions_stop)
next
  case (Suc d)
  then have lt: "i < n" by simp
  with Suc.prems(1) obtain mr fd addr m' where step:
    "payload_region (payload v) i = Inr mr" "i < length (regions (bk (svr p)))" "fd = fds v ! i"
    "map_regions os v n (Suc i) (region_step i mr addr m' fd p) = Inr p'"
    by (rule map_regions_InrE)
  have "take (n - i) (drop i (fds v)) = fd # take (n - Suc i) (drop (Suc i) (fds v))"
    using lt Suc.prems(3) step(3) by (metis Cons_nth_drop_Suc Suc_diff_Suc order_less_le_trans take_Suc_Cons)
  moreover have "d = n - Suc i" "Suc i \<le> n" using Suc.hyps(2) lt by simp_all
  note IH = Suc.hyps(1)[OF this(1) step(4) this(2) Suc.prems(3)]
  have "\<exists>mr addr. payload_region (payload v) j = Inr mr \<and>
      regions (bk (svr p')) ! j = new_region mr addr (regions (bk (svr p)) ! j)"
    if "i \<le> j" "j < n" "j < length (regions (bk (svr p)))" for j
    using IH that step(1,2) by (cases "j = i") (auto split: if_splits)
  ultimately show ?case
    using IH step(2) lt by (auto simp: nth_list_update split: if_splits)
qed

lemma map_regions_mapped:
  assumes "map_regions os v n i p = Inr p'" "mmap_ok (mmap_fn os)" "i \<le> n"
    and "\<And>j. j < i \<Longrightarrow> j < length (regions (bk (svr p))) \<Longrightarrow>
      span (mmap_addr (regions (bk (svr p)) ! j))
        (unat (reg_size (regions (bk (svr p)) ! j) + mmap_offset (regions (bk (svr p)) ! j)))
      \<subseteq> dom (memory p)"
  shows "\<forall>j<n. j < length (regions (bk (svr p'))) \<longrightarrow>
      span (mmap_addr (regions (bk (svr p')) ! j))
        (unat (reg_size (regions (bk (svr p')) ! j) + mmap_offset (regions (bk (svr p')) ! j)))
      \<subseteq> dom (memory p')"
  using assms
proof (induction "n - i" arbitrary: i p)
  case 0
  then show ?case by (auto simp: map_regions_stop)
next
  case (Suc d)
  then have lt: "i < n" by simp
  with Suc.prems(1) obtain mr fd addr m' where step:
    "mmap_fn os (memory p) (memory_size mr + mr_mmap_offset mr) fd = Some (addr, m')"
    "map_regions os v n (Suc i) (region_step i mr addr m' fd p) = Inr p'"
    by (rule map_regions_InrE)
  from step(1) Suc.prems(2) have m': "dom (memory p) \<subseteq> dom m'"
    "span addr (unat (memory_size mr + mr_mmap_offset mr)) \<subseteq> dom m'"
    by (force simp: mmap_ok_def map_le_def dom_def, auto simp: mmap_ok_def)
  show ?case
  proof (rule Suc.hyps(1)[OF _ step(2) Suc.prems(2)])
    fix j assume "j < Suc i" and j: "j < length (regions (bk (svr (region_step i mr addr m' fd p))))"
    then show "span (mmap_addr (regions (bk (svr (region_step i mr addr m' fd p))) ! j))
        (unat (reg_size (regions (bk (svr (region_step i mr addr m' fd p))) ! j) +
               mmap_offset (regions (bk (svr (region_step i mr addr m' fd p))) ! j)))
        \<subseteq> dom (memory (region_step i mr addr m' fd p))"
      using m' Suc.prems(4)[of j] by (cases "j = i") (auto simp: new_region_def less_Suc_eq)
  qed (use Suc.hyps(2) lt in auto)
qed

lemma map_regions_nregions:
  "map_regions os v n i p = Inr p' \<Longrightarrow> nregions (bk (svr p')) = nregions (bk (svr p))"
proof (induction "n - i" arbitrary: i p)
  case 0
  then show ?case by (auto simp: map_regions_stop)
next
  case (Suc d)
  then have "i < n" by simp
  with Suc.prems obtain mr fd addr m' where
    "map_regions os v n (Suc i) (region_step i mr addr m' fd p) = Inr p'"
    by (rule map_regions_InrE)
  then have "nregions (bk (svr p')) = nregions (bk (svr (region_step i mr addr m' fd p)))"
    by (rule Suc.hyps(1)[rotated]) (use Suc.hyps(2) in simp)
  then show ?case by simp
qed

lemma payload_region_bound: "payload_region p i = Inr mr \<Longrightarrow> i < 8"
  by (auto simp: payload_region_def VHOST_MEMORY_MAX_NREGIONS_def split: if_splits)

lemma map_regions_total:
  assumes "\<And>m len fd. mmap_fn os m len fd \<noteq> None" "n \<le> 8" "length (fds v) = 8" "length (regions (bk (svr p))) = 8"
  shows "\<exists>p'. map_regions os v n i p = Inr p'"
  using assms(4)
proof (induction "n - i" arbitrary: i p)
  case 0
  then show ?case by (simp add: map_regions_stop)
next
  case (Suc d)
  then have i: "i < n" "i < 8" and d: "d = n - Suc i" using assms(2) by simp_all
  obtain mr where mr: "payload_region (payload v) i = Inr mr"
    using i(2) by (simp add: payload_region_def VHOST_MEMORY_MAX_NREGIONS_def Let_def)
  obtain addr m' where mm: "mmap_fn os (memory p) (memory_size mr + mr_mmap_offset mr) (fds v ! i) = Some (addr, m')"
    using assms(1) by (metis not_None_eq surj_pair)
  have "map_regions os v n i p = map_regions os v n (Suc i) (region_step i mr addr m' (fds v ! i) p)"
    using i assms(3) Suc.prems mr mm
    by (simp add: map_regions.simps[of _ _ n i] Let_def region_step_def new_region_def upd_bk_def)
  with Suc.hyps(1)[OF d, of "region_step i mr addr m' (fds v ! i) p"] Suc.prems show ?case by simp
qed

lemma map_regions_count:
  "map_regions os v n i p = Inr p' \<Longrightarrow> i \<le> 8 \<Longrightarrow> n \<le> 8"
proof (induction "n - i" arbitrary: i p)
  case (Suc d)
  then have "i < n" by simp
  with Suc.prems(1) obtain mr fd addr m' where
    "payload_region (payload v) i = Inr mr"
    "map_regions os v n (Suc i) (region_step i mr addr m' fd p) = Inr p'"
    by (rule map_regions_InrE)
  with Suc.hyps show ?case by (metis Suc_diff_Suc Suc_inject Suc_leI \<open>i < n\<close> payload_region_bound)
qed simp

section \<open>A concrete session\<close>

text \<open>
  One guest region of 4096 bytes at guest address 0x1000, user address 0x7000 and offset 0,
  mapped at 0x100000. The witnesses of the properties below run on it.
\<close>

definition demo_mmap :: "mem \<Rightarrow> u64 \<Rightarrow> cint \<Rightarrow> (u64 \<times> mem) option" where
  "demo_mmap m len fd =
     Some (0x100000, (\<lambda>x. if m x = None \<and> x - 0x100000 < len then Some 0 else m x))"

definition demo_os :: os_answers where
  "demo_os = \<lparr>recvmsg_ans = RecvErr, read_ans = ReadErr, write_ans = [WOk 20], mmap_fn = demo_mmap\<rparr>"

definition demo_table_msg :: vh_msg where
  "demo_table_msg = zero_msg\<lparr>request := 5, msg_size := 40, fds := [11, 0, 0, 0, 0, 0, 0, 0],
     payload := le_bytes 4 (1::u32) @ le_bytes 4 (0::u32) @ le_bytes 8 (0x1000::u64) @
       le_bytes 8 (0x1000::u64) @ le_bytes 8 (0x7000::u64) @ le_bytes 8 (0::u64) @ replicate 224 0\<rparr>"

definition demo_region :: device_region where
  "demo_region = \<lparr>gpa = 0x1000, reg_size = 0x1000, qva = 0x7000, mmap_offset = 0, mmap_addr = 0x100000\<rparr>"

definition demo_proc :: proc where
  "demo_proc = \<lparr>svr = \<lparr>fdset = {}, max_fd = -1, srv_fd = -1,
       bk = zero_backend\<lparr>nregions := 1, regions := demo_region # replicate 7 zero_region\<rparr>\<rparr>,
     memory = (\<lambda>x. if x - 0x100000 < 0x1000 then Some 0 else None), outp = [CloseFd 11]\<rparr>"

lemma demo_mmap_ok: "mmap_ok demo_mmap"
  by (auto simp: mmap_ok_def demo_mmap_def map_le_def dom_def in_span_iff word_less_nat_alt
      less_imp_le unsigned_less[where 'a = nat and 'b = 64, simplified])

lemma demo_table_wf: "wf_msg demo_table_msg"
  by (simp add: demo_table_msg_def wf_msg_def payload_size_def VHOST_MEMORY_MAX_NREGIONS_def)

lemma demo_fds: "fds demo_table_msg = [11, 0, 0, 0, 0, 0, 0, 0]"
  by (simp add: demo_table_msg_def)

lemma demo_payload:
  "payload_nregions (payload demo_table_msg) = 1"
  "payload_region (payload demo_table_msg) 0 = Inr \<lparr>guest_phys_addr = 0x1000, memory_size = 0x1000,
     userspace_addr = 0x7000, mr_mmap_offset = 0\<rparr>"
  by (simp_all add: demo_table_msg_def payload_nregions_def payload_region_def
      VHOST_MEMORY_MAX_NREGIONS_def)

lemma demo_table_run: "handle_set_mem_table demo_os demo_table_msg zero_proc = Inr demo_proc"
  by (simp add: handle_set_mem_table_def demo_payload map_regions.simps zero_proc_def zero_backend_def
      VHOST_MEMORY_MAX_NREGIONS_def demo_os_def demo_mmap_def demo_proc_def demo_region_def
      emit_def upd_bk_def zero_region_def)
     (simp add: demo_table_msg_def numeral_eq_Suc)

section \<open>Properties: replies\<close>

text \<open>C16: A GET_FEATURES request (header only) is answered with exactly one 20-byte message,
  however often the write is interrupted: the request number is kept, the version bits are
  set to 1, the reply bit is set and the other flag bits are kept, the size is 8, and the
  payload offers mergeable receive buffers (bit 15) and protocol features (bit 30). Nothing
  of the device changes.\<close>

theorem get_features_reply:
  assumes "wf_msg v0" "recvmsg_ans os = Recv (wire_hdr 1 fl 0) []"
    and "write_ans os = replicate k (WErr True) @ WOk n # ws" "20 \<le> n"
  shows "process_vhost_msg os v0 fd p =
    Inr (emit [Log ''-> Vhost msg rcvd (vhost_user_get_features)'',
               WriteFd fd (wire_hdr 1 ((fl AND NOT 3) OR 5) 8 @ le_bytes 8 (0x40008000 :: u64)),
               Log ''-> send_vhost_reply''] p)"
proof -
  let ?v = "v0\<lparr>request := 1, flags := fl, msg_size := 0\<rparr>"
  have d: "dispatch os fd ?v q = handle_get_features (write_ans os) fd ?v q" for q
    by (simp add: dispatch_def vhost_req_of_def vhost_reqs_def)
  have "wf_msg ?v" using assms(1) by (simp add: wf_msg_def)
  from wf_msg_set_u64(1)[OF this, where x = "push_bit 15 1 OR push_bit 30 1" and s = 8] assms(3,4)
  have "handle_get_features (write_ans os) fd ?v q =
      Inr (emit [WriteFd fd (wire_hdr 1 ((fl AND NOT 3) OR 5) 8 @ le_bytes 8 (0x40008000 :: u64)),
                 Log ''-> send_vhost_reply''] q)" for q
    by (simp add: handle_get_features_def reply_ok vhost_const_defs)
  then show ?thesis
    by (simp add: process_hdr_only[OF assms(2)] log_request_known d vhost_req_str_def)
qed

theorem get_features_reply_witness:
  "process_vhost_msg
     \<lparr>recvmsg_ans = Recv (wire_hdr 1 1 0) [], read_ans = ReadErr, write_ans = [WErr True, WOk 20],
      mmap_fn = (\<lambda>m len fd. None)\<rparr> zero_msg 5 zero_proc =
   Inr (emit [Log ''-> Vhost msg rcvd (vhost_user_get_features)'',
                WriteFd 5 [1,0,0,0, 5,0,0,0, 8,0,0,0, 0,128,0,64,0,0,0,0],
                Log ''-> send_vhost_reply''] zero_proc)"
  by (subst get_features_reply[where k = 1 and n = 20 and ws = "[]" and fl = 1])
     (simp_all add: wire_hdr_def le_bytes_unfold)

section \<open>Properties: region table and rings\<close>

text \<open>C14: A SET_MEM_TABLE message with at most eight regions, each of which mmap can map, is processed to
  the end and installs exactly the regions of the message: every entry of the table up to the
  announced number carries the guest address, size, user address and offset of the message, the
  entries beyond are unchanged, and the received descriptors are closed in order.\<close>

theorem set_mem_table_installs:
  assumes "wf_msg v" "wf_backend (bk (svr p))" "\<And>m len fd. mmap_fn os m len fd \<noteq> None"
  defines "n \<equiv> unat (payload_nregions (payload v))"
  assumes "n \<le> 8"
  shows "\<exists>p'. handle_set_mem_table os v p = Inr p' \<and>
    nregions (bk (svr p')) = payload_nregions (payload v) \<and>
    outp p' = outp p @ map CloseFd (take n (fds v)) \<and>
    (\<forall>j<n. \<exists>mr addr. payload_region (payload v) j = Inr mr \<and>
       regions (bk (svr p')) ! j =
         \<lparr>gpa = guest_phys_addr mr, reg_size = memory_size mr, qva = userspace_addr mr,
          mmap_offset = mr_mmap_offset mr, mmap_addr = addr\<rparr>) \<and>
    (\<forall>j. n \<le> j \<longrightarrow> j < 8 \<longrightarrow> regions (bk (svr p')) ! j = regions (bk (svr p)) ! j)"
proof -
  let ?p = "upd_bk (\<lambda>b. b\<lparr>nregions := payload_nregions (payload v)\<rparr>) p"
  have len: "length (fds v) = 8" "length (regions (bk (svr ?p))) = 8"
    using assms(1,2) by (simp_all add: wf_msg_def wf_backend_def VHOST_MEMORY_MAX_NREGIONS_def upd_bk_def)
  obtain p' where run: "map_regions os v n 0 ?p = Inr p'"
    using map_regions_total[OF assms(3,5) len] by blast
  have eq: "new_region mr addr r = \<lparr>gpa = guest_phys_addr mr, reg_size = memory_size mr,
      qva = userspace_addr mr, mmap_offset = mr_mmap_offset mr, mmap_addr = addr\<rparr>" for mr addr r
    by (cases r) (simp add: new_region_def)
  have "handle_set_mem_table os v p = Inr p'"
    using run by (simp add: handle_set_mem_table_def Let_def n_def)
  moreover have "n \<le> length (fds v)" using len(1) assms(5) by simp
  note map_regions_spec[OF run _ this]
  ultimately show ?thesis using assms(2,5) by (intro exI[of _ p'])
     (auto simp: eq wf_backend_def VHOST_MEMORY_MAX_NREGIONS_def split: if_splits)
qed

theorem set_mem_table_installs_witness:
  "nregions (bk (svr demo_proc)) = 1 \<and> outp demo_proc = [CloseFd 11] \<and>
   gpa (regions (bk (svr demo_proc)) ! 0) = 0x1000 \<and>
   handle_set_mem_table demo_os demo_table_msg zero_proc = Inr demo_proc"
proof -
  have "mmap_fn demo_os m len fd \<noteq> None" for m len fd by (simp add: demo_os_def demo_mmap_def)
  moreover have "wf_backend (bk (svr zero_proc))" "outp zero_proc = []" by (simp_all add: zero_proc_def)
  ultimately show ?thesis using set_mem_table_installs[OF demo_table_wf, of zero_proc demo_os]
    by (auto simp: demo_payload demo_fds demo_table_run)
qed

text \<open>C15: After SET_MEM_TABLE, every guest buffer that lies inside one region of the table is
  translated to local addresses that are mapped, provided mmap maps the length it was asked
  for and keeps earlier mappings, and size plus offset of the region do not overflow.\<close>

theorem mem_table_translation_mapped:
  assumes "handle_set_mem_table os v p = Inr p'" "mmap_ok (mmap_fn os)"
    and "wf_backend (bk (svr p))"
  defines "b \<equiv> bk (svr p')"
  assumes "first_hit gpa b a i" "gpa_to_va a 1 b = Inr va"
    and "unat (reg_size (regions b ! i)) + unat (mmap_offset (regions b ! i)) < 2 ^ 64"
    and "unat (a - gpa (regions b ! i)) + n \<le> unat (reg_size (regions b ! i))"
  shows "span va n \<subseteq> dom (memory p')"
proof -
  have run: "map_regions os v (unat (payload_nregions (payload v))) 0
      (upd_bk (\<lambda>b. b\<lparr>nregions := payload_nregions (payload v)\<rparr>) p) = Inr p'"
    using assms(1) by (simp add: handle_set_mem_table_def Let_def)
  have nr: "nregions b = payload_nregions (payload v)"
    using map_regions_nregions[OF run] by (simp add: b_def)
  have "region_mapped (memory p') (regions b ! i)"
    using map_regions_mapped[OF run assms(2)] assms(5,7) nr
    by (auto simp: region_mapped_def first_hit_def b_def)
  from gpa_tx.tr_mapped[OF assms(5) this assms(8,6)] show ?thesis .
qed

theorem mem_table_translation_mapped_witness:
  "gpa_to_va 0x1800 1 (bk (svr demo_proc)) = Inr 0x100800 \<and>
   span 0x100800 2048 \<subseteq> dom (memory demo_proc)"
proof -
  have hit: "first_hit gpa (bk (svr demo_proc)) 0x1800 0"
    by (simp add: first_hit_def demo_proc_def in_region_def demo_region_def)
  have tr: "gpa_to_va 0x1800 1 (bk (svr demo_proc)) = Inr 0x100800"
    using gpa_tx.tr_hit[OF hit] by (simp add: region_va_def demo_proc_def demo_region_def)
  show ?thesis
    using tr mem_table_translation_mapped[OF demo_table_run _ _ hit tr, where n = 2048]
    by (simp add: demo_os_def demo_mmap_ok zero_proc_def demo_proc_def demo_region_def)
qed

text \<open>Inside one region the two translations agree: the address of offset k reached by the
  guest physical address and by the address in the virtual machine monitor is the same.\<close>

theorem gpa_qva_agree:
  assumes "i < unat (nregions b)" "i < length (regions b)"
    and "regions_disjoint gpa b" "regions_disjoint qva b"
    and "unat (gpa (regions b ! i)) + unat (reg_size (regions b ! i)) < 2 ^ 64"
    and "unat (qva (regions b ! i)) + unat (reg_size (regions b ! i)) < 2 ^ 64"
    and "k < reg_size (regions b ! i)"
  shows "gpa_to_va (gpa (regions b ! i) + k) 1 b = qva_to_va (qva (regions b ! i) + k) b"
  using gpa_tx.tr_disjoint[OF assms(3,1,2) in_region_offset[where base = gpa, OF assms(5,7)]]
    qva_tr.tr_disjoint[OF assms(4,1,2) in_region_offset[where base = qva, OF assms(6,7)]]
  by (simp add: region_va_def)

theorem gpa_qva_agree_witness:
  "gpa_to_va (0x1000 + 8) 1 (bk (svr demo_proc)) = qva_to_va (0x7000 + 8) (bk (svr demo_proc))"
  using gpa_qva_agree[of 0 "bk (svr demo_proc)" 8]
  by (simp add: demo_proc_def demo_region_def regions_disjoint_def)

section \<open>Properties: features, indices, threads\<close>

text \<open>SET_FEATURES stores the acknowledged feature word and a virtio-net header length of 12
  exactly when VERSION_1 (bit 32) or MRG_RXBUF (bit 15) is acknowledged, of 10 otherwise;
  nothing else changes.\<close>

theorem set_features_hdrlen:
  "handle_set_features v p =
     Inr (upd_bk (\<lambda>b. b\<lparr>features := payload_u64 (payload v),
       hdrlen := (if bit (payload_u64 (payload v)) 32 \<or> bit (payload_u64 (payload v)) 15
                  then 12 else 10)\<rparr>) p)"
  by (simp add: handle_set_features_def upd_bk_def Let_def VIRTIO_F_VERSION_1_def
      VIRTIO_NET_F_MRG_RXBUF_def bit_iff_and_push_bit_not_eq_0)

text \<open>A queue index that is not 0 or 1 makes every vring message access the two-element
  queue array out of bounds: no handler checks the index.\<close>

theorem vring_index_unchecked:
  assumes "wf_backend (bk (svr p))" "2 \<le> unat (vs_index (payload_state (payload v)))"
    and "2 \<le> unat (payload_u64 (payload v) AND 255)"
  shows "handle_set_vring_num v p = Inl OutOfBounds \<and>
    handle_set_vring_base v p = Inl OutOfBounds \<and>
    handle_set_vring_addr v p = Inl OutOfBounds \<and>
    handle_get_vring_base ws fd v p = Inl OutOfBounds \<and>
    handle_set_vring_enable ws fd v p = Inl OutOfBounds \<and>
    handle_set_vring_kick v p = Inl OutOfBounds \<and>
    (\<not> bit (payload_u64 (payload v)) 8 \<longrightarrow> handle_set_vring_call v p = Inl OutOfBounds)"
proof -
  have idx: "va_index (payload_addr (payload v)) = vs_index (payload_state (payload v))"
    by (simp add: payload_addr_def payload_state_def)
  have nofd: "\<not> bit (payload_u64 (payload v)) 8 \<Longrightarrow> payload_u64 (payload v) AND 256 = 0"
    by (simp add: bit_iff_and_push_bit_not_eq_0)
  show ?thesis
    using assms nofd
    by (simp add: handle_set_vring_num_def handle_set_vring_base_def handle_set_vring_addr_def
        handle_get_vring_base_def handle_set_vring_enable_def handle_set_vring_kick_def
        handle_set_vring_call_def get_vq_def wf_backend_def Let_def idx vhost_const_defs)
qed

theorem vring_index_unchecked_witness:
  "handle_set_vring_num (zero_msg\<lparr>payload := le_bytes 8 (2::u64) @ replicate 256 0\<rparr>) zero_proc =
   Inl OutOfBounds"
proof -
  let ?v = "zero_msg\<lparr>payload := le_bytes 8 (2::u64) @ replicate 256 0\<rparr>"
  have "vs_index (payload_state (payload ?v)) = 2"
    by (simp add: payload_state_def le_bytes_unfold)
  moreover have "payload_u64 (payload ?v) = 2"
    by (simp add: payload_u64_def)
  ultimately show ?thesis using vring_index_unchecked[of zero_proc ?v] by (simp add: zero_proc_def)
qed

lemma get_vring_base_effect:
  assumes "wf_msg v" "wf_backend (bk (svr p))" "20 \<le> n"
    and "i = unat (vs_index (payload_state (payload v)))" "i < 2" "q = vq (bk (svr p)) ! i"
  shows "handle_get_vring_base (replicate k (WErr True) @ WOk n # ws) fd v p =
    Inr (emit (map CloseFd (filter (\<lambda>d. d \<noteq> -1) [call_fd q, kick_fd q]) @
        [WriteFd fd (wire_hdr (request v) ((flags v AND NOT 3) OR 5) 8 @
           le_bytes 4 (of_nat i :: u32) @ le_bytes 4 (ucast (last_avail_idx q) :: u32)),
         Log ''-> send_vhost_reply''])
      (upd_bk (\<lambda>b. b\<lparr>vq := (vq b)[i := q\<lparr>call_fd := -1, kick_fd := -1\<rparr>]\<rparr>) p))"
proof -
  have "le_bytes 4 (le_word (take 4 (payload v)) :: u32) = take 4 (payload v)"
    using le_bytes_le_word[where 'a = 32 and bs = "take 4 (payload v)"] assms(1)
    by (simp add: wf_msg_def payload_size_def)
  then have pay:
    "take 8 (set_payload_num x (payload v)) = le_bytes 4 (of_nat i :: u32) @ le_bytes 4 x" for x
    using assms(1,4)
    by (simp add: set_payload_num_def wf_msg_def payload_size_def payload_state_def)
  show ?thesis
    using assms(2,3,5,6) wf_msg_set_u64(3)[OF assms(1)]
    by (simp add: handle_get_vring_base_def Let_def get_vq_def set_vq_def wf_backend_def
        reply_ok pay assms(4)[symmetric] emit_def upd_bk_def)
qed

text \<open>GET_VRING_BASE for one of the two queues answers with the running available index of the queue,
  closes the call and kick descriptors that are open and marks both closed, so that a second
  GET_VRING_BASE for the same queue succeeds and closes nothing: no descriptor is closed twice.\<close>

theorem get_vring_base_closes_once:
  assumes "wf_msg v" "wf_backend (bk (svr p))" "20 \<le> n"
    and "i = unat (vs_index (payload_state (payload v)))" "i < 2" "q = vq (bk (svr p)) ! i"
  shows "\<exists>p' p''. handle_get_vring_base (replicate k (WErr True) @ WOk n # ws) fd v p = Inr p' \<and>
    outp p' = outp p @ map CloseFd (filter (\<lambda>d. d \<noteq> -1) [call_fd q, kick_fd q]) @
        [WriteFd fd (wire_hdr (request v) ((flags v AND NOT 3) OR 5) 8 @
           le_bytes 4 (of_nat i :: u32) @ le_bytes 4 (ucast (last_avail_idx q) :: u32)),
         Log ''-> send_vhost_reply''] \<and>
    vq (bk (svr p')) = (vq (bk (svr p)))[i := q\<lparr>call_fd := -1, kick_fd := -1\<rparr>] \<and>
    handle_get_vring_base (replicate k (WErr True) @ WOk n # ws) fd v p' = Inr p'' \<and>
    (\<forall>d. CloseFd d \<notin> set (drop (length (outp p')) (outp p'')))"
proof -
  let ?p' = "emit (map CloseFd (filter (\<lambda>d. d \<noteq> -1) [call_fd q, kick_fd q]) @
        [WriteFd fd (wire_hdr (request v) ((flags v AND NOT 3) OR 5) 8 @
           le_bytes 4 (of_nat i :: u32) @ le_bytes 4 (ucast (last_avail_idx q) :: u32)),
         Log ''-> send_vhost_reply''])
      (upd_bk (\<lambda>b. b\<lparr>vq := (vq b)[i := q\<lparr>call_fd := -1, kick_fd := -1\<rparr>]\<rparr>) p)"
  have q': "vq (bk (svr ?p')) ! i = q\<lparr>call_fd := -1, kick_fd := -1\<rparr>" and wf: "wf_backend (bk (svr ?p'))"
    using assms(2,5) by (simp_all add: wf_backend_def emit_def upd_bk_def)
  show ?thesis
    by (rule exI[of _ ?p'], rule exI, intro conjI, rule get_vring_base_effect[OF assms], simp add: emit_def upd_bk_def,
        simp add: emit_def upd_bk_def, rule get_vring_base_effect[OF assms(1) wf assms(3-5) q'[symmetric]])
       (simp add: emit_def upd_bk_def)
qed

theorem get_vring_base_closes_once_witness:
  "\<exists>p'. handle_get_vring_base [WOk 20] 5 zero_msg zero_proc = Inr p' \<and>
     call_fd (vq (bk (svr p')) ! 0) = -1 \<and> CloseFd 0 \<in> set (outp p')"
proof -
  have idx: "0 = unat (vs_index (payload_state (payload zero_msg)))"
    by (simp add: zero_msg_def payload_state_def payload_size_def) code_simp
  have wf: "wf_backend (bk (svr zero_proc))" and q: "vq (bk (svr zero_proc)) ! 0 = zero_vq"
    by (simp_all add: zero_proc_def) (simp add: zero_backend_def)
  have "20 \<le> (20::nat)" "0 < (2::nat)" by simp_all
  from get_vring_base_closes_once[OF wf_zero(1) wf this(1) idx this(2) q[symmetric], of 0 "[]" 5]
  obtain p' where "handle_get_vring_base [WOk 20] 5 zero_msg zero_proc = Inr p'"
    "vq (bk (svr p')) = (vq (bk (svr zero_proc)))[0 := zero_vq\<lparr>call_fd := -1, kick_fd := -1\<rparr>]"
    "CloseFd 0 \<in> set (outp p')" by (auto simp: zero_vq_def)
  then show ?thesis using wf by (auto simp: wf_backend_def)
qed

lemma enable_step:
  assumes "wf_msg v" "wf_backend (bk (svr p))" "20 \<le> n"
    and "vs_index (payload_state (payload v)) = 1" "vs_num (payload_state (payload v)) \<noteq> 0"
    and "en2 (bk (svr p)) ! 1 = of_nat c" "c < 2 ^ 31 - 1"
  shows "\<exists>p'. handle_set_vring_enable [WOk n] fd v p = Inr p' \<and> wf_backend (bk (svr p')) \<and>
    en2 (bk (svr p')) ! 1 = of_nat (Suc c) \<and>
    count_list (outp p') (ThreadStart Tx_dequeue) =
      count_list (outp p) (ThreadStart Tx_dequeue) + (if c = 0 then 0 else 1)"
proof -
  have send: "send_vhost_msg [WOk n] fd
      (v\<lparr>request := r, payload := set_payload_u64 x (payload v), msg_size := 8\<rparr>) q =
      Inr (emit [WriteFd fd (msg_hdr (v\<lparr>request := r, payload := set_payload_u64 x (payload v), msg_size := 8\<rparr>)
           @ le_bytes 8 x), Log ''-> send_vhost_msg''] q)" for r x q
    using send_vhost_ok[OF wf_msg_set_u64(2)[OF assms(1), where r = r and x = x and s = 8] _ assms(3),
        where k = 0 and ws = "[]"]
    by (simp add: send_vhost_msg_def)
  have s1: "sint (of_nat c :: cint) = int c" and s2: "sint (of_nat c + 1 :: cint) = int c + 1"
    using assms(7) sint_of_nat_small[of c] sint_of_nat_small[of "Suc c"] by (simp_all add: add.commute)
  from assms(2) have len: "length (vq (bk (svr p))) = 2" "length (en2 (bk (svr p))) = 2"
    by (simp_all add: wf_backend_def)
  show ?thesis
    using assms(4-7) len s1 s2
    by (auto simp: handle_set_vring_enable_def Let_def get_vq_def set_vq_def send count_enable_def
        assms(2)[unfolded wf_backend_def] wf_backend_def)
qed

text \<open>Enabling queue 1 over and over: the first ENABLE starts no worker, and each of the
  following ones starts one more dequeue thread on the same queue. After k messages k - 1
  threads have been started.\<close>

theorem enable_starts_threads:
  assumes "wf_msg v" "wf_backend (bk (svr p))" "20 \<le> n" "k < 2 ^ 31"
    and "vs_index (payload_state (payload v)) = 1" "vs_num (payload_state (payload v)) \<noteq> 0"
    and "en2 (bk (svr p)) ! 1 = 0"
  shows "\<exists>p'. ((\<lambda>r. bindE r (handle_set_vring_enable [WOk n] fd v)) ^^ k) (Inr p) = Inr p' \<and>
    count_list (outp p') (ThreadStart Tx_dequeue) =
      count_list (outp p) (ThreadStart Tx_dequeue) + (k - 1)"
proof -
  have "\<exists>p'. ((\<lambda>r. bindE r (handle_set_vring_enable [WOk n] fd v)) ^^ k) (Inr p) = Inr p' \<and>
      wf_backend (bk (svr p')) \<and> en2 (bk (svr p')) ! 1 = of_nat k \<and>
      count_list (outp p') (ThreadStart Tx_dequeue) =
        count_list (outp p) (ThreadStart Tx_dequeue) + (k - 1)"
    using assms(4)
  proof (induction k)
    case 0
    then show ?case using assms(2,7) by simp
  next
    case (Suc k)
    then obtain q where q: "((\<lambda>r. bindE r (handle_set_vring_enable [WOk n] fd v)) ^^ k) (Inr p) = Inr q"
      "wf_backend (bk (svr q))" "en2 (bk (svr q)) ! 1 = of_nat k"
      "count_list (outp q) (ThreadStart Tx_dequeue) =
        count_list (outp p) (ThreadStart Tx_dequeue) + (k - 1)" by auto
    from Suc.prems have "k < 2 ^ 31 - 1" by simp
    from enable_step[OF assms(1) q(2) assms(3,5,6) q(3) this, of fd] q(1,4) show ?case
      by (cases k) auto
  qed
  then show ?thesis by blast
qed

theorem enable_starts_threads_witness:
  "\<exists>p'. ((\<lambda>r. bindE r (handle_set_vring_enable [WOk 20] 5
         (zero_msg\<lparr>payload := le_bytes 4 (1::u32) @ le_bytes 4 (1::u32) @ replicate 256 0\<rparr>))) ^^ 3)
       (Inr zero_proc) = Inr p' \<and> count_list (outp p') (ThreadStart Tx_dequeue) = 2"
  using enable_starts_threads[of "zero_msg\<lparr>payload := le_bytes 4 (1::u32) @ le_bytes 4 (1::u32) @ replicate 256 0\<rparr>"
      zero_proc 20 3 5]
  by (simp add: zero_proc_sel payload_state_def wf_msg_def payload_size_def zero_msg_def)
     (simp only: numeral_2_eq_2)

section \<open>Properties: reception and the loop\<close>

text \<open>A failing recvmsg is not recognised (its result is kept in an unsigned variable): the
  backend goes on with whatever the message variable held before, exactly as if that header
  had just arrived without descriptors.\<close>

theorem recv_error_replays_stale_message:
  "process_vhost_msg (os\<lparr>recvmsg_ans := RecvErr\<rparr>) v0 fd p =
   process_vhost_msg (os\<lparr>recvmsg_ans := Recv (msg_hdr v0) []\<rparr>) v0 fd p"
  by (simp add: process_vhost_msg_def recv_rc_def recv_hdr_def copy_rights_def buf_write_def
      VHOST_USER_HDR_SIZE_def Let_def dispatch_other_answers)

text \<open>C38: A message whose payload does not arrive complete is never dispatched, whatever its header and whatever
  descriptors come with it. Let \<open>sz\<close> be the size in the header as the code sees it: that of the header received, or,
  when less than a header or an error was received, what the message variable held before in the missing
  bytes. If \<open>sz\<close> is not 0 and the read of the payload fails or returns fewer bytes, then the process ends when \<open>sz\<close> is
  larger than the payload union or the stream has ended, and else the assertion on the size fails. The hypotheses
  on \<^verbatim>\<open>recvmsg\<close> are those of its buffers: 1 to 12 bytes and at most 8 descriptors.\<close>

theorem incomplete_payload_not_dispatched:
  assumes "\<And>bs rights. recvmsg_ans os = Recv bs rights \<Longrightarrow>
      bs \<noteq> [] \<and> length bs \<le> VHOST_USER_HDR_SIZE \<and> length rights \<le> VHOST_MEMORY_MAX_NREGIONS"
    and "wf_msg v0" "sz = msg_size (recv_hdr (recvmsg_ans os) v0)" "sz \<noteq> 0"
    and "\<And>bs. read_ans os = ReadOk bs \<Longrightarrow> length bs < unat sz"
  shows "process_vhost_msg os v0 fd p =
    (if unat sz > 264 then Inl (Exit 1)
     else if read_ans os = ReadOk [] then Inl (Exit 1)
     else Inl (AssertFail ''rc == vmsg.size''))"
proof -
  have rc: "recv_rc (recvmsg_ans os) \<noteq> 0"
  proof (cases "recvmsg_ans os")
    case (Recv bs rights)
    then have "0 < length bs" "length bs \<le> 12" using assms(1) by (simp_all add: VHOST_USER_HDR_SIZE_def)
    then have "unat (of_nat (length bs) :: u32) \<noteq> 0" by (simp add: unat_of_nat)
    with Recv show ?thesis by (auto simp: recv_rc_def)
  qed (simp add: recv_rc_def)
  obtain v where v: "copy_rights (recvmsg_ans os) (recv_hdr (recvmsg_ans os) v0) = Inr v" "msg_size v = sz"
  proof (cases "recvmsg_ans os")
    case (Recv bs rights)
    then have "length rights \<le> length (fds (recv_hdr (recvmsg_ans os) v0))"
      using assms(1,2) by (simp add: wf_msg_def recv_hdr_def set_msg_hdr_def)
    with Recv assms(3) show ?thesis using that by (auto simp: copy_rights_def buf_write_def)
  qed (use that assms(3) in \<open>simp add: copy_rights_def\<close>)
  have "read_payload (read_ans os) v =
      (if read_ans os = ReadOk [] then Inl (Exit 1) else Inl (AssertFail ''rc == vmsg.size''))" if "unat sz \<le> 264"
  proof (cases "read_ans os")
    case ReadErr
    moreover have "sz \<noteq> -1" using that by (auto simp: unsigned_minus_1_eq_mask mask_eq_exp_minus_1)
    ultimately show ?thesis using assms(4) v(2) by (auto simp: read_payload_def read_rc_def)
  next
    case (ReadOk bs)
    with assms(5) have lt: "length bs < unat sz" by simp
    then have "unat (of_nat (length bs) :: u32) = length bs"
      using unsigned_less[of sz, where 'a = nat] by (simp add: unat_of_nat)
    then have "(of_nat (length bs) :: u32) \<noteq> sz" "(of_nat (length bs) :: u32) = 0 \<longleftrightarrow> bs = []"
      using lt by (auto simp: unat_eq_zero[symmetric])
    with ReadOk assms(4) v(2) show ?thesis by (auto simp: read_payload_def read_rc_def)
  qed
  with rc v show ?thesis by (auto simp: process_vhost_msg_def payload_size_def Let_def)
qed

theorem incomplete_payload_not_dispatched_witness:
  "process_vhost_msg (demo_os\<lparr>recvmsg_ans := Recv (wire_hdr 12 1 8) [7], read_ans := ReadOk [1, 0, 0]\<rparr>)
     zero_msg 5 zero_proc = Inl (AssertFail ''rc == vmsg.size'')"
proof -
  have l: "length (wire_hdr 12 1 8) = 12" by (simp add: wire_hdr_def)
  then have "wire_hdr 12 1 8 \<noteq> []" by (metis list.size(3) zero_neq_numeral)
  with l have w: "length (wire_hdr 12 1 8) = 12" "wire_hdr 12 1 8 \<noteq> []" .
  have "msg_size (recv_hdr (Recv (wire_hdr 12 1 8) [7]) zero_msg) = 8" by code_simp
  with w show ?thesis
    by (subst incomplete_payload_not_dispatched[where sz = 8])
       (auto simp: VHOST_USER_HDR_SIZE_def VHOST_MEMORY_MAX_NREGIONS_def wf_msg_def zero_msg_def payload_size_def)
qed

text \<open>A header with a request number above 20 makes the backend read its table of message
  names out of bounds before the branch for invalid messages is reached.\<close>

theorem unknown_request_out_of_bounds:
  assumes "recvmsg_ans os = Recv (wire_hdr r fl 0) []" "20 < unat r"
  shows "process_vhost_msg os v0 fd p = Inl OutOfBounds"
proof -
  have "r \<noteq> 0" using assms(2) by auto
  with assms(2) show ?thesis
    by (simp add: process_hdr_only[OF assms(1)] log_request_def vhost_req_str_def)
qed

theorem unknown_request_out_of_bounds_witness:
  "process_vhost_msg (demo_os\<lparr>recvmsg_ans := Recv (wire_hdr 21 1 0) []\<rparr>) zero_msg 5 zero_proc =
   Inl OutOfBounds"
  by (rule unknown_request_out_of_bounds[where r = 21 and fl = 1]) simp_all

lemma wf_server_srv_fd [simp]: "wf_server (s\<lparr>srv_fd := x\<rparr>) = wf_server s"
  by (simp add: wf_server_def)

lemma server_reach_wf: "server_reach p p' \<Longrightarrow> wf_server (svr p) \<Longrightarrow> wf_server (svr p')"
  by (induction rule: server_reach.induct) (auto simp: select_round_def intro: wf_scan_fds)

text \<open>C11: In every state the backend reaches from a successful start, whatever the peers send and
  the system answers, the device arrays have their declared sizes and every descriptor in
  the select set lies between 0 and the bound up to which the loop scans, below FD_SETSIZE.\<close>

theorem server_invariant:
  assumes "bkend_main socket_ans bind_ans p0 = Inr p" "wf_backend (bk (svr p0))"
    and "server_reach p p'"
  shows "wf_server (svr p')"
proof -
  have "wf_server (reset (svr p0))"
    using assms(2) by (simp add: wf_server_def reset_def wf_backend_def FD_SETSIZE_def)
  then have "wf_server (svr p)"
    using assms(1) by (auto simp: bkend_main_def create_vhost_server_def start_vhost_server_def
        bindE_eq_Inr_iff dest: wf_add_fd split: if_splits)
  with assms(3) show ?thesis by (rule server_reach_wf)
qed

theorem server_invariant_witness:
  "\<exists>p. bkend_main 3 0 zero_proc = Inr p \<and> fdset (svr p) = {3} \<and> wf_server (svr p)"
proof -
  obtain p where p: "bkend_main 3 0 zero_proc = Inr p" "fdset (svr p) = {3}"
    by (simp add: bkend_main_def create_vhost_server_def start_vhost_server_def add_fd_def
        FD_SETSIZE_def reset_def)
  with server_invariant[OF p(1) _ server_start] show ?thesis by (auto simp: zero_proc_sel)
qed

end
