(* ===== verification/Ring.thy ===== *)
theory Ring
  imports VhostTypes
begin

text \<open>
  Facts on the rings shared with the guest that the transmit and the receive path of
  src/code_dump/bkend/bkend.c both rest on: where the elements of the rings and the descriptors lie, and that
  free-running 16-bit indices taken modulo a power of two enumerate distinct slots.
\<close>

section \<open>The used ring\<close>

definition used_area :: "u64 \<Rightarrow> nat \<Rightarrow> u64 set" where
  "used_area u sz = span (used_id_at u 0) (8 * sz)"

lemma used_elem_spans:
  "span (used_len_at u s) 4 \<subseteq> span (used_id_at u s) 8"
  "span (used_id_at u s) 4 \<inter> span (used_len_at u s) 4 = {}"
  "span (used_id_at u s) 4 \<subseteq> span (used_id_at u s) 8"
  using span_shift[of 4 4 8 "used_id_at u s"] span_shift[of 0 4 8 "used_id_at u s"]
    span_apart[of 0 4 4 4 "used_id_at u s"]
  by (simp_all add: used_id_at_def used_len_at_def ac_simps)

lemma used_elem_in: "s < sz \<Longrightarrow> span (used_id_at u s) 8 \<subseteq> used_area u sz"
  using span_shift[of "8 * s" 8 "8 * sz" "used_id_at u 0"]
  by (simp add: used_area_def used_id_at_def add.assoc add.commute)

lemma used_elem_apart:
  assumes "s \<noteq> t" "s < 32768" "t < 32768"
  shows "span (used_id_at u s) 8 \<inter> span (used_id_at u t) 8 = {}"
proof -
  have "8 * s + 8 \<le> 8 * t \<or> 8 * t + 8 \<le> 8 * s" using assms(1) by arith
  with span_apart2[of "8 * s" 8 "8 * t" 8 "used_id_at u 0"] assms(2,3) show ?thesis
    by (simp add: used_id_at_def add.assoc add.commute)
qed

lemma used_elem_agree:
  assumes "agree_off S m m'" "span (used_id_at u t) 8 \<inter> S = {}"
  shows "load32 m' (used_id_at u t) = load32 m (used_id_at u t)"
    "load32 m' (used_len_at u t) = load32 m (used_len_at u t)"
  using assms used_elem_spans[of u t] by (blast intro: c32.ld_agree)+

section \<open>The descriptor table and the available ring\<close>

lemma desc_fields_in:
  "span (desc_addr_at d i) 8 \<subseteq> span (desc_addr_at d i) 16"
  "span (desc_len_at d i) 4 \<subseteq> span (desc_addr_at d i) 16"
  "span (desc_flags_at d i) 2 \<subseteq> span (desc_addr_at d i) 16"
  "span (desc_next_at d i) 2 \<subseteq> span (desc_addr_at d i) 16"
  using span_shift[of 0 8 16 "desc_addr_at d i"] span_shift[of 8 4 16 "desc_addr_at d i"]
    span_shift[of 12 2 16 "desc_addr_at d i"] span_shift[of 14 2 16 "desc_addr_at d i"]
  by (simp_all add: desc_addr_at_def desc_len_at_def desc_flags_at_def desc_next_at_def add.assoc)

lemma desc_fields_agree:
  assumes "agree_off S m m'" "span (desc_addr_at d i) 16 \<inter> S = {}"
  shows "load64 m' (desc_addr_at d i) = load64 m (desc_addr_at d i)"
    "load32 m' (desc_len_at d i) = load32 m (desc_len_at d i)"
    "load16 m' (desc_flags_at d i) = load16 m (desc_flags_at d i)"
    "load16 m' (desc_next_at d i) = load16 m (desc_next_at d i)"
  using assms desc_fields_in[of d i]
  by (blast intro: c64.ld_agree c32.ld_agree c16.ld_agree)+

lemma avail_in:
  "span (avail_flags_at a) 2 \<subseteq> span (avail_flags_at a) (4 + 2 * sz)"
  "span (avail_idx_at a) 2 \<subseteq> span (avail_flags_at a) (4 + 2 * sz)"
  "k < sz \<Longrightarrow> span (avail_ring_at a k) 2 \<subseteq> span (avail_flags_at a) (4 + 2 * sz)"
  using span_mono[of 2 "4 + 2 * sz" a] span_shift[of 2 2 "4 + 2 * sz" a]
    span_shift[of "4 + 2 * k" 2 "4 + 2 * sz" a]
  by (simp_all add: avail_flags_at_def avail_idx_at_def avail_ring_at_def)

section \<open>Free-running indices\<close>

lemma pending_differs:
  assumes "0 < n" "n < 65536"
  shows "(x::u16) \<noteq> x + of_nat n"
proof
  assume "x = x + of_nat n"
  then have "(of_nat n :: u16) = 0" by simp
  then have "unat (of_nat n :: u16) = 0" by simp
  with assms show False by (simp add: unat_of_nat)
qed

lemma slot_distinct:
  assumes "sz dvd 65536" "0 < j" "j < sz"
  shows "unat (pos :: u16) mod sz \<noteq> unat (pos + of_nat j) mod sz"
proof -
  have "sz \<le> 65536" using assms(1) by (rule dvd_imp_le) simp
  then have "unat (of_nat j :: u16) = j" using assms(3) by (simp add: unat_of_nat)
  then have "unat (pos + of_nat j) mod sz = (unat pos + j) mod 65536 mod sz"
    by (simp add: unat_word_ariths)
  also have "\<dots> = (unat pos + j) mod sz" using assms(1) by (simp add: mod_mod_cancel)
  finally have e: "unat (pos + of_nat j) mod sz = (unat pos + j) mod sz" .
  show ?thesis
  proof
    assume "unat pos mod sz = unat (pos + of_nat j) mod sz"
    with e have "(unat pos + j) mod sz = unat pos mod sz" by simp
    then have "sz dvd j" by (metis add_diff_cancel_left' le_add1 mod_eq_dvd_iff_nat)
    with assms show False by (auto dest: dvd_imp_le)
  qed
qed

end
