(* ===== verification/Dequeue.thy ===== *)
theory Dequeue
  imports AddrTrans Ring
begin

text \<open>
  The transmit path of the backend (\<^verbatim>\<open>dequeue\<close> of src/code_dump/bkend/bkend.c, run as a thread
  on queue 1). For every entry of the available ring the thread walks the descriptor chain,
  copies the chunks into its frame buffer, and puts the head of the chain into the used ring;
  once the available ring is drained it publishes the used index.

  \<open>deq_chain\<close> is the inner loop over descriptors and \<open>deq_drain\<close> the loop over entries; both
  can run forever in C, so they take fuel. The inductive predicate \<open>frame_of\<close> is the
  specification of a chain: the bytes it holds, and the addresses they are read from.
\<close>

section \<open>Definitions\<close>

text \<open>
  The local variables of the thread that are set once: the ring pointers, the ring size (the
  code takes the size of the first queue of the array, \<^verbatim>\<open>b->vq->size\<close>, into an \<^verbatim>\<open>int\<close>) and
  the frame buffer of 12288 bytes.
\<close>

record tx_local =
  t_avail :: u64
  t_used :: u64
  t_desc :: u64
  t_size :: cint
  t_buf :: "u8 list"

definition TX_BUF_SIZE :: nat where "TX_BUF_SIZE = 12288"

definition deq_start :: "u8 list \<Rightarrow> backend \<Rightarrow> tx_local res" where
  "deq_start garbage b =
     bindE (arr_get (vq b) 1) (\<lambda>q.
     bindE (arr_get (vq b) 0) (\<lambda>q0.
       Inr \<lparr>t_avail = vq_avail q, t_used = vq_used q, t_desc = vq_desc q, t_size = vq_size q0,
            t_buf = garbage\<rparr>))"

text \<open>\<^verbatim>\<open>idx % size\<close> for a \<^verbatim>\<open>uint16_t\<close> and an \<^verbatim>\<open>int\<close>: truncated division, so the sign of \<^verbatim>\<open>size\<close>
  does not matter.\<close>

definition ring_slot :: "u16 \<Rightarrow> cint \<Rightarrow> nat res" where
  "ring_slot idx sz =
     (if sz = 0 then Inl DivideByZero else Inr (unat idx mod nat \<bar>sint sz\<bar>))"

fun deq_chain ::
  "nat \<Rightarrow> backend \<Rightarrow> mem \<Rightarrow> u64 \<Rightarrow> u32 \<Rightarrow> u32 \<Rightarrow> u8 list \<Rightarrow> (u32 \<times> u8 list) res" where
  "deq_chain 0 b m desc i len buf = Inl OutOfFuel"
| "deq_chain (Suc fuel) b m desc i len buf =
     bindE (load64 m (desc_addr_at desc (unat i))) (\<lambda>addr.
     bindE (gpa_to_va addr 1 b) (\<lambda>chunk.
     bindE (load32 m (desc_len_at desc (unat i))) (\<lambda>chunk_len.
     bindE (load16 m (desc_flags_at desc (unat i))) (\<lambda>fl.
       if fl AND VRING_DESC_F_WRITE \<noteq> 0
       then Inl (AssertFail ''!(desc[i].flags & VRING_DESC_F_WRITE)'')
       else if len + chunk_len < MAX_LEN then
         bindE (load m chunk (unat chunk_len)) (\<lambda>bs.
         bindE (buf_write buf (unat len) bs) (\<lambda>buf.
           if fl AND VRING_DESC_F_NEXT \<noteq> 0 then
             bindE (load16 m (desc_next_at desc (unat i))) (\<lambda>nxt.
               deq_chain fuel b m desc (ucast nxt) (len + chunk_len) buf)
           else Inr (len + chunk_len, buf)))
       else Inl (Exit 1)))))"

definition deq_entry ::
  "nat \<Rightarrow> tx_local \<Rightarrow> backend \<Rightarrow> mem \<Rightarrow> (tx_local \<times> backend \<times> mem \<times> event list) res" where
  "deq_entry fuel l b m =
     bindE (arr_get (vq b) 1) (\<lambda>q.
     bindE (ring_slot (last_avail_idx q) (t_size l)) (\<lambda>a_idx.
     bindE (load16 m (avail_ring_at (vq_avail q) a_idx)) (\<lambda>d_idx.
     bindE (ring_slot (last_used_idx q) (t_size l)) (\<lambda>u_idx.
     bindE (deq_chain fuel b m (t_desc l) (ucast d_idx) 0 (t_buf l)) (\<lambda>(len, buf).
       if len = 0 then Inl (Exit 1)
       else
         bindE (store32 m (used_id_at (t_used l) u_idx) (ucast d_idx)) (\<lambda>m.
         bindE (store32 m (used_len_at (t_used l) u_idx) 1) (\<lambda>m.
           Inr (l\<lparr>t_buf := buf\<rparr>,
                b\<lparr>vq := (vq b)[1 := q\<lparr>last_avail_idx := last_avail_idx q + 1,
                                      last_used_idx := last_used_idx q + 1\<rparr>]\<rparr>,
                m, [Log ''Packet received'']))))))))"

fun deq_drain ::
  "nat \<Rightarrow> nat \<Rightarrow> tx_local \<Rightarrow> backend \<Rightarrow> mem \<Rightarrow> (tx_local \<times> backend \<times> mem \<times> event list) res" where
  "deq_drain 0 fuel l b m = Inl OutOfFuel"
| "deq_drain (Suc n) fuel l b m =
     bindE (arr_get (vq b) 1) (\<lambda>q.
     bindE (load16 m (avail_idx_at (t_avail l))) (\<lambda>idx.
       if last_avail_idx q = idx then Inr (l, b, m, [])
       else
         bindE (deq_entry fuel l b m) (\<lambda>(l1, b1, m1, es1).
         bindE (deq_drain n fuel l1 b1 m1) (\<lambda>(l2, b2, m2, es2).
           Inr (l2, b2, m2, es1 @ es2)))))"

text \<open>One round of the outer loop: drain, then publish the used index.\<close>

definition deq_round ::
  "nat \<Rightarrow> nat \<Rightarrow> tx_local \<Rightarrow> backend \<Rightarrow> mem \<Rightarrow> (tx_local \<times> backend \<times> mem \<times> event list) res" where
  "deq_round n fuel l b m =
     bindE (deq_drain n fuel l b m) (\<lambda>(l, b, m, es).
     bindE (arr_get (vq b) 1) (\<lambda>q.
     bindE (store16 m (used_idx_at (t_used l)) (last_used_idx q)) (\<lambda>m.
       Inr (l, b, m, es))))"

section \<open>Specification of a descriptor chain\<close>

inductive frame_of :: "backend \<Rightarrow> mem \<Rightarrow> u64 \<Rightarrow> u32 \<Rightarrow> u8 list \<Rightarrow> u64 set \<Rightarrow> bool"
  for b :: backend and m :: mem and desc :: u64 where
  frame_last:
    "load64 m (desc_addr_at desc (unat i)) = Inr addr \<Longrightarrow> gpa_to_va addr 1 b = Inr va \<Longrightarrow>
     load32 m (desc_len_at desc (unat i)) = Inr n \<Longrightarrow>
     load16 m (desc_flags_at desc (unat i)) = Inr fl \<Longrightarrow> fl AND 2 = 0 \<Longrightarrow> fl AND 1 = 0 \<Longrightarrow>
     load m va (unat n) = Inr bs \<Longrightarrow>
     frame_of b m desc i bs (span (desc_addr_at desc (unat i)) 16 \<union> span va (unat n))"
| frame_more:
    "load64 m (desc_addr_at desc (unat i)) = Inr addr \<Longrightarrow> gpa_to_va addr 1 b = Inr va \<Longrightarrow>
     load32 m (desc_len_at desc (unat i)) = Inr n \<Longrightarrow>
     load16 m (desc_flags_at desc (unat i)) = Inr fl \<Longrightarrow> fl AND 2 = 0 \<Longrightarrow> fl AND 1 \<noteq> 0 \<Longrightarrow>
     load m va (unat n) = Inr bs \<Longrightarrow>
     load16 m (desc_next_at desc (unat i)) = Inr nxt \<Longrightarrow>
     frame_of b m desc (ucast nxt) rest F \<Longrightarrow>
     frame_of b m desc i (bs @ rest)
       (span (desc_addr_at desc (unat i)) 16 \<union> span va (unat n) \<union> F)"

text \<open>The descriptors that the loop can come to from the head \<open>h\<close> by following the links in the table.\<close>

inductive linked :: "mem \<Rightarrow> u64 \<Rightarrow> u16 \<Rightarrow> u16 \<Rightarrow> bool" for m :: mem and desc :: u64 where
  linked_head: "linked m desc h h"
| linked_next:
    "load16 m (desc_flags_at desc (unat h)) = Inr fl \<Longrightarrow> fl AND 1 \<noteq> 0 \<Longrightarrow>
     load16 m (desc_next_at desc (unat h)) = Inr nxt \<Longrightarrow> linked m desc nxt j \<Longrightarrow> linked m desc h j"

section \<open>The descriptor loop\<close>

lemma unat_desc_index: "unat (ucast (h :: u16) :: u32) = unat h"
  using unsigned_less[of h, where 'a = nat] by (simp add: unsigned_ucast_eq take_bit_nat_eq_self)

lemmas deq_const_defs = MAX_LEN_def VRING_DESC_F_WRITE_def VRING_DESC_F_NEXT_def

lemma len_step:
  assumes "k + unat n < 10240" "len = of_nat k"
  shows "len + n < (10240 :: u32)" "len + n = of_nat (k + unat n)" "unat len = k"
proof -
  have k: "unat (of_nat k :: u32) = k" using assms(1) by (simp add: unat_of_nat)
  then have sum: "unat (of_nat k + n :: u32) = k + unat n"
    using assms(1) by (simp add: unat_word_ariths)
  show "unat len = k" using k assms(2) by simp
  show "len + n = of_nat (k + unat n)" using assms(2) by simp
  have "unat (len + n) < 10240" using sum assms by simp
  then show "len + n < 10240" by (simp add: word_less_nat_alt)
qed

lemma take_append_write:
  assumes "length pre = k" "k + length bs \<le> length buf" "take k buf = pre"
  shows "buf_write buf k bs = Inr (pre @ bs @ drop (k + length bs) buf)"
  using assms by (simp add: buf_write_def)

lemma deq_chain_complete:
  assumes "frame_of b m desc i bs F" "k + length bs < 10240" "length buf = TX_BUF_SIZE"
    and "length pre = k" "take k buf = pre" "len = of_nat k"
  shows "\<exists>f0. \<forall>fuel \<ge> f0. deq_chain fuel b m desc i len buf =
    Inr (of_nat (k + length bs), pre @ bs @ drop (k + length bs) buf)"
  using assms
proof (induction arbitrary: k len buf pre rule: frame_of.induct)
  case (frame_last i addr va n fl bs)
  then have n: "length bs = unat n" using load_length by blast
  note ls = len_step[OF frame_last.prems(1)[unfolded n] frame_last.prems(5)]
  have "deq_chain (Suc f) b m desc i len buf =
      Inr (of_nat (k + length bs), pre @ bs @ drop (k + length bs) buf)" for f
    using frame_last ls n
    by (simp add: deq_const_defs take_append_write TX_BUF_SIZE_def)
  then show ?case by (metis Suc_le_D)
next
  case (frame_more i addr va n fl bs nxt rest F)
  then have n: "length bs = unat n" using load_length by blast
  have lt: "k + unat n < 10240" using frame_more.prems(1) n by simp
  note ls = len_step[OF lt frame_more.prems(5)]
  let ?buf = "pre @ bs @ drop (k + length bs) buf"
  have "\<exists>f0. \<forall>fuel \<ge> f0. deq_chain fuel b m desc (ucast nxt) (len + n) ?buf =
      Inr (of_nat (k + length bs + length rest),
           (pre @ bs) @ rest @ drop (k + length bs + length rest) ?buf)"
    by (rule frame_more.IH)
       (use frame_more.prems ls n in \<open>simp_all add: TX_BUF_SIZE_def\<close>)
  then obtain f0 where f0: "\<forall>fuel \<ge> f0. deq_chain fuel b m desc (ucast nxt) (len + n) ?buf =
      Inr (of_nat (k + length bs + length rest),
           (pre @ bs) @ rest @ drop (k + length bs + length rest) ?buf)" ..
  have "deq_chain (Suc f) b m desc i len buf =
      Inr (of_nat (k + length (bs @ rest)), pre @ (bs @ rest) @ drop (k + length (bs @ rest)) buf)"
    if "f0 \<le> f" for f
    using frame_more.hyps frame_more.prems ls(1,3) n f0[rule_format, OF that] lt
    by (simp add: deq_const_defs take_append_write TX_BUF_SIZE_def ac_simps)
  then show ?case by (metis Suc_le_D Suc_le_mono)
qed

lemma deq_chain_sound:
  assumes "deq_chain fuel b m desc i len buf = Inr (len', buf')" "unat len < 10240"
    and "length buf = TX_BUF_SIZE"
  shows "\<exists>bs F. frame_of b m desc i bs F \<and> unat len' = unat len + length bs \<and> unat len' < 10240 \<and>
    length buf' = TX_BUF_SIZE \<and> take (unat len') buf' = take (unat len) buf @ bs"
  using assms
proof (induction fuel arbitrary: i len buf)
  case 0
  then show ?case by simp
next
  case (Suc fuel)
  then obtain addr chunk n fl bs buf1 where s:
    "load64 m (desc_addr_at desc (unat i)) = Inr addr" "gpa_to_va addr 1 b = Inr chunk"
    "load32 m (desc_len_at desc (unat i)) = Inr n" "load16 m (desc_flags_at desc (unat i)) = Inr fl"
    "fl AND 2 = 0" "len + n < 10240" "load m chunk (unat n) = Inr bs"
    "buf_write buf (unat len) bs = Inr buf1"
    and rest: "if fl AND 1 \<noteq> 0
      then bindE (load16 m (desc_next_at desc (unat i))) (\<lambda>nxt.
             deq_chain fuel b m desc (ucast nxt) (len + n) buf1) = Inr (len', buf')
      else len' = len + n \<and> buf' = buf1"
    by (auto simp: bindE_eq_Inr_iff deq_const_defs split: if_splits)
  have lb: "length bs = unat n" using load_length s(7) by blast
  with s(8) Suc.prems(3) have fit: "unat len + unat n \<le> 12288" "length buf1 = TX_BUF_SIZE"
    by (auto simp: buf_write_eq_Inr TX_BUF_SIZE_def)
  then have un: "unat (len + n) = unat len + unat n" by (simp add: unat_word_ariths)
  with s(6) have lt: "unat (len + n) < 10240" by (simp add: word_less_nat_alt)
  have pre: "take (unat (len + n)) buf1 = take (unat len) buf @ bs"
    using buf_write_prefix[OF s(8)] un lb by simp
  show ?case
  proof (cases "fl AND 1 = 0")
    case True
    with rest frame_last[OF s(1-5) True s(7)] un lt lb pre fit show ?thesis by auto
  next
    case False
    with rest obtain nxt where nxt: "load16 m (desc_next_at desc (unat i)) = Inr nxt"
      "deq_chain fuel b m desc (ucast nxt) (len + n) buf1 = Inr (len', buf')"
      by (auto simp: bindE_eq_Inr_iff)
    from Suc.IH[OF nxt(2) lt fit(2)] obtain cs F where
      "frame_of b m desc (ucast nxt) cs F" "unat len' = unat (len + n) + length cs"
      "unat len' < 10240" "length buf' = TX_BUF_SIZE"
      "take (unat len') buf' = take (unat (len + n)) buf1 @ cs" by blast
    with frame_more[OF s(1-5) False s(7) nxt(1)] un lb pre show ?thesis
      by (intro exI conjI) (auto simp: add.assoc)
  qed
qed

section \<open>Termination of the descriptor loop\<close>

lemma load_not_fuel: "load m a n \<noteq> Inl OutOfFuel"
  by (induction n arbitrary: a) (auto simp: bindE_eq_Inl_iff split: option.splits)

lemma region_loop_not_fuel: "region_loop base rs a n i \<noteq> Inl OutOfFuel"
proof (induction "n - i" arbitrary: i)
  case 0
  then show ?case by (simp add: region_loop.simps[of _ _ _ _ i])
next
  case (Suc d)
  then show ?case
    by (auto simp: region_loop.simps[of _ _ _ _ i] bindE_eq_Inl_iff arr_get_def split: if_splits)
qed

lemma gpa_not_fuel: "gpa_to_va a mode b \<noteq> Inl OutOfFuel"
  by (auto simp: gpa_to_va_def bindE_eq_Inl_iff region_loop_not_fuel split: option.splits)

lemma deq_chain_terminates:
  assumes "\<And>j. linked m desc h j \<Longrightarrow> load32 m (desc_len_at desc (unat j)) \<noteq> Inr 0"
    and "length buf = TX_BUF_SIZE" "unat len < 10240" "10240 \<le> fuel + unat len"
  shows "deq_chain fuel b m desc (ucast h) len buf \<noteq> Inl OutOfFuel"
  using assms
proof (induction fuel arbitrary: h len buf)
  case 0
  then show ?case by simp
next
  case (Suc fuel)
  show ?case
  proof
    assume fail: "deq_chain (Suc fuel) b m desc (ucast h) len buf = Inl OutOfFuel"
    have nf: "load64 m a \<noteq> Inl OutOfFuel" "load32 m a \<noteq> Inl OutOfFuel" "load16 m a \<noteq> Inl OutOfFuel"
      "load m a k \<noteq> Inl OutOfFuel" "buf_write bf off bs \<noteq> Inl OutOfFuel"
      "gpa_to_va a 1 b \<noteq> Inl OutOfFuel" for a k bf off and bs :: "u8 list"
      using load_not_fuel gpa_not_fuel
      by (auto simp: load64_def load32_def load16_def buf_write_def bindE_eq_Inl_iff)
    from fail nf obtain n chunk bs buf1 and fl nxt :: u16 where s:
      "load32 m (desc_len_at desc (unat h)) = Inr n" "len + n < 10240"
      "load m chunk (unat n) = Inr bs" "buf_write buf (unat len) bs = Inr buf1"
      "deq_chain fuel b m desc (ucast nxt) (len + n) buf1 = Inl OutOfFuel"
      "load16 m (desc_flags_at desc (unat h)) = Inr fl" "fl AND 1 \<noteq> 0"
      "load16 m (desc_next_at desc (unat h)) = Inr nxt"
      by (auto simp: bindE_eq_Inl_iff deq_const_defs unat_desc_index split: if_splits)
    from Suc.prems(1)[OF linked_head] s(1) have "n \<noteq> 0" by metis
    then have pos: "0 < unat n" by (simp add: unat_gt_0)
    have fit: "unat len + unat n \<le> 12288" "length buf1 = TX_BUF_SIZE"
      using load_length[OF s(3)] s(4) Suc.prems(2) by (auto simp: buf_write_eq_Inr TX_BUF_SIZE_def)
    then have un: "unat (len + n) = unat len + unat n" by (simp add: unat_word_ariths)
    moreover have "unat (len + n) < 10240" using s(2) by (simp add: word_less_nat_alt)
    ultimately have "deq_chain fuel b m desc (ucast nxt) (len + n) buf1 \<noteq> Inl OutOfFuel"
      using Suc.prems(1)[OF linked_next[OF s(6-8)]] Suc.prems(4) pos fit(2) by (intro Suc.IH) auto
    with s(5) show False by simp
  qed
qed

section \<open>Frames are stable\<close>

text \<open>A chain reads the same bytes from any memory that agrees on its footprint.\<close>

lemma frame_of_agree:
  "frame_of b m desc i bs F \<Longrightarrow> agree_off S m m' \<Longrightarrow> F \<inter> S = {} \<Longrightarrow> frame_of b m' desc i bs F"
proof (induction rule: frame_of.induct)
  case (frame_last i addr va n fl bs)
  then have d: "span (desc_addr_at desc (unat i)) 16 \<inter> S = {}" "span va (unat n) \<inter> S = {}" by auto
  show ?case
    by (rule frame_of.frame_last)
       (use frame_last desc_fields_agree[OF frame_last.prems(1) d(1)]
          load_agree[OF frame_last.prems(1) d(2)] in auto)
next
  case (frame_more i addr va n fl bs nxt rest F)
  then have d: "span (desc_addr_at desc (unat i)) 16 \<inter> S = {}" "span va (unat n) \<inter> S = {}"
    "F \<inter> S = {}" by auto
  show ?case
    by (rule frame_of.frame_more)
       (use frame_more d(3) desc_fields_agree[OF frame_more.prems(1) d(1)]
          load_agree[OF frame_more.prems(1) d(2)] in auto)
qed

lemma frame_of_backend:
  "frame_of b m desc i bs F \<Longrightarrow> nregions b' = nregions b \<Longrightarrow> regions b' = regions b \<Longrightarrow>
   frame_of b' m desc i bs F"
proof (induction rule: frame_of.induct)
  case (frame_last i addr va n fl bs)
  then show ?case by (intro frame_of.frame_last) (auto simp: gpa_to_va_def)
next
  case (frame_more i addr va n fl bs nxt rest F)
  then show ?case by (intro frame_of.frame_more) (auto simp: gpa_to_va_def)
qed

end
