(* ===== verification/DeqProps.thy ===== *)
theory DeqProps
  imports Dequeue
begin

text \<open>
  Correctness of the transmit path (\<^verbatim>\<open>dequeue\<close> of src/code_dump/bkend/bkend.c): a chain that
  fits the frame buffer is copied in full, the thread drains the available ring in order and
  hands every head back in the used ring. The last part states the inputs for which the code
  hangs, overruns its buffer or reads the wrong ring entry.
\<close>

section \<open>Definitions of the specification\<close>

text \<open>The device state after \<open>n\<close> entries of the transmit queue were consumed.\<close>

definition tx_advance :: "nat \<Rightarrow> backend \<Rightarrow> backend" where
  "tx_advance n b =
     b\<lparr>vq := (vq b)[1 := (vq b ! 1)\<lparr>last_avail_idx := last_avail_idx (vq b ! 1) + of_nat n,
                                    last_used_idx := last_used_idx (vq b ! 1) + of_nat n\<rparr>]\<rparr>"

text \<open>
  \<open>tx_pending sz l b m hs frs\<close>: the guest has made available the chains with heads \<open>hs\<close>, which
  hold the frames \<open>frs\<close>; nothing the thread reads lies in the elements of the used ring.
\<close>

definition tx_pending ::
  "nat \<Rightarrow> tx_local \<Rightarrow> backend \<Rightarrow> mem \<Rightarrow> u16 list \<Rightarrow> u8 list list \<Rightarrow> bool" where
  "tx_pending sz l b m hs frs \<longleftrightarrow>
     length frs = length hs \<and>
     load16 m (avail_idx_at (t_avail l)) = Inr (last_avail_idx (vq b ! 1) + of_nat (length hs)) \<and>
     span (avail_idx_at (t_avail l)) 2 \<inter> used_area (t_used l) sz = {} \<and>
     (\<forall>j < length hs.
        let a = avail_ring_at (t_avail l) (unat (last_avail_idx (vq b ! 1) + of_nat j) mod sz) in
        load16 m a = Inr (hs ! j) \<and> span a 2 \<inter> used_area (t_used l) sz = {} \<and>
        frs ! j \<noteq> [] \<and> length (frs ! j) < unat MAX_LEN \<and>
        (\<exists>F. frame_of b m (t_desc l) (ucast (hs ! j)) (frs ! j) F \<and>
             F \<inter> used_area (t_used l) sz = {}))"

text \<open>The used ring holds the heads \<open>hs\<close> from the free-running position \<open>pos\<close> on.\<close>

definition used_holds :: "nat \<Rightarrow> u64 \<Rightarrow> mem \<Rightarrow> u16 \<Rightarrow> u16 list \<Rightarrow> bool" where
  "used_holds sz u m pos hs \<longleftrightarrow>
     (\<forall>j < length hs.
        let s = unat (pos + of_nat j) mod sz in
        load32 m (used_id_at u s) = Inr (ucast (hs ! j)) \<and> load32 m (used_len_at u s) = Inr 1)"

definition tx_wf :: "nat \<Rightarrow> tx_local \<Rightarrow> backend \<Rightarrow> mem \<Rightarrow> bool" where
  "tx_wf sz l b m \<longleftrightarrow>
     length (vq b) = 2 \<and> t_avail l = vq_avail (vq b ! 1) \<and> length (t_buf l) = TX_BUF_SIZE \<and>
     0 < sz \<and> sz \<le> 32768 \<and> t_size l = of_nat sz \<and> used_area (t_used l) sz \<subseteq> dom m"

section \<open>One entry\<close>

lemma ring_slot_of_nat:
  assumes "0 < sz" "sz \<le> 32768"
  shows "ring_slot i (of_nat sz) = Inr (unat i mod sz)"
proof -
  have "(of_nat sz :: cint) \<noteq> 0"
  proof
    assume "(of_nat sz :: cint) = 0"
    then have "unat (of_nat sz :: cint) = 0" by simp
    with assms show False by (simp add: unat_of_nat)
  qed
  moreover have "sint (of_nat sz :: cint) = int sz"
    using assms by (simp add: signed_of_nat signed_take_bit_int_eq_self)
  ultimately show ?thesis by (simp add: ring_slot_def)
qed

lemma deq_entry_ok:
  assumes len: "length (vq b) = 2" and buf: "length (t_buf l) = TX_BUF_SIZE"
    and a: "ring_slot (last_avail_idx (vq b ! 1)) (t_size l) = Inr a"
    and h: "load16 m (avail_ring_at (vq_avail (vq b ! 1)) a) = Inr h"
    and u: "ring_slot (last_used_idx (vq b ! 1)) (t_size l) = Inr u"
    and fr: "frame_of b m (t_desc l) (ucast h) fr F" "fr \<noteq> []" "length fr < 10240"
    and dom: "span (used_id_at (t_used l) u) 8 \<subseteq> dom m"
  obtains m' f0 where
    "\<And>fuel. f0 \<le> fuel \<Longrightarrow> deq_entry fuel l b m =
       Inr (l\<lparr>t_buf := fr @ drop (length fr) (t_buf l)\<rparr>, tx_advance 1 b, m', [Log ''Packet received''])"
    "agree_off (span (used_id_at (t_used l) u) 8) m m'"
    "load32 m' (used_id_at (t_used l) u) = Inr (ucast h)"
    "load32 m' (used_len_at (t_used l) u) = Inr 1"
proof -
  note sp = used_elem_spans[of "t_used l" u]
  have "\<exists>f0. \<forall>fuel \<ge> f0. deq_chain fuel b m (t_desc l) (ucast h) 0 (t_buf l) =
      Inr (of_nat (0 + length fr), [] @ fr @ drop (0 + length fr) (t_buf l))"
    by (rule deq_chain_complete[OF fr(1)]) (use fr buf in auto)
  then obtain f0 where f0: "\<And>fuel. f0 \<le> fuel \<Longrightarrow>
      deq_chain fuel b m (t_desc l) (ucast h) 0 (t_buf l) =
      Inr (of_nat (length fr), fr @ drop (length fr) (t_buf l))" by auto
  have ne: "(of_nat (length fr) :: u32) \<noteq> 0"
  proof
    assume "(of_nat (length fr) :: u32) = 0"
    then have "unat (of_nat (length fr) :: u32) = 0" by simp
    with fr(2,3) show False by (simp add: unat_of_nat)
  qed
  obtain m1 where m1: "store32 m (used_id_at (t_used l) u) (ucast h) = Inr m1"
    using c32.st_ok[of "used_id_at (t_used l) u" m "ucast h"] sp(3) dom by auto
  have "span (used_len_at (t_used l) u) 4 \<subseteq> dom m1"
    using c32.st_dom[OF m1] sp(1) dom by auto
  then obtain m2 where m2: "store32 m1 (used_len_at (t_used l) u) 1 = Inr m2"
    using c32.st_ok[of "used_len_at (t_used l) u" m1 1] by auto
  show ?thesis
  proof (rule that)
    show "deq_entry fuel l b m = Inr (l\<lparr>t_buf := fr @ drop (length fr) (t_buf l)\<rparr>,
        tx_advance 1 b, m2, [Log ''Packet received''])" if "f0 \<le> fuel" for fuel
      using a h u f0[OF that] ne m1 m2 len by (simp add: deq_entry_def tx_advance_def)
    show "agree_off (span (used_id_at (t_used l) u) 8) m m2"
      by (rule agree_off_step[OF c32.st_agree_in[OF m1 sp(3)] c32.st_agree[OF m2] sp(1)])
    show "load32 m2 (used_len_at (t_used l) u) = Inr 1"
      by (rule c32.ld_st[OF m2])
    show "load32 m2 (used_id_at (t_used l) u) = Inr (ucast h)"
      using c32.ld_st_apart[OF m2 sp(2)] c32.ld_st[OF m1] by simp
  qed
qed

lemma tx_advance_simps [simp]:
  assumes "length (vq b) = 2"
  shows "vq (tx_advance n b) ! Suc 0 =
      (vq b ! Suc 0)\<lparr>last_avail_idx := last_avail_idx (vq b ! Suc 0) + of_nat n,
                      last_used_idx := last_used_idx (vq b ! Suc 0) + of_nat n\<rparr>"
    "length (vq (tx_advance n b)) = 2"
    "tx_advance k (tx_advance n b) = tx_advance (k + n) b"
  using assms by (simp_all add: tx_advance_def ac_simps)

lemma tx_advance_regions [simp]:
  "nregions (tx_advance n b) = nregions b" "regions (tx_advance n b) = regions b"
  by (simp_all add: tx_advance_def)

lemma tx_advance_0 [simp]: "length (vq b) = 2 \<Longrightarrow> tx_advance 0 b = b"
  by (simp add: tx_advance_def)

section \<open>Draining the ring\<close>

lemma tx_pendingD:
  assumes "tx_pending sz l b m hs frs"
  shows "length frs = length hs"
    "load16 m (avail_idx_at (t_avail l)) = Inr (last_avail_idx (vq b ! 1) + of_nat (length hs))"
    "span (avail_idx_at (t_avail l)) 2 \<inter> used_area (t_used l) sz = {}"
  using assms unfolding tx_pending_def by blast+

lemma tx_pending_nth:
  assumes "tx_pending sz l b m hs frs" "j < length hs"
    and "a = avail_ring_at (t_avail l) (unat (last_avail_idx (vq b ! 1) + of_nat j) mod sz)"
  shows "load16 m a = Inr (hs ! j)" "span a 2 \<inter> used_area (t_used l) sz = {}"
    "frs ! j \<noteq> []" "length (frs ! j) < unat MAX_LEN"
    "\<exists>F. frame_of b m (t_desc l) (ucast (hs ! j)) (frs ! j) F \<and> F \<inter> used_area (t_used l) sz = {}"
  using assms unfolding tx_pending_def Let_def by blast+

lemma tx_pending_step:
  assumes wf: "tx_wf sz l b m" and p: "tx_pending sz l b m (h # hs) (fr # frs)"
    and ag: "agree_off (used_area (t_used l) sz) m m'"
  shows "tx_pending sz (l\<lparr>t_buf := buf\<rparr>) (tx_advance 1 b) m' hs frs"
proof -
  note P = tx_pendingD[OF p]
  have len: "length (vq b) = 2" using wf by (simp add: tx_wf_def)
  then have pos: "last_avail_idx (vq (tx_advance 1 b) ! 1) + of_nat j =
      last_avail_idx (vq b ! 1) + of_nat (Suc j)" for j by (simp add: ac_simps)
  have "load16 m' (avail_idx_at (t_avail l)) =
      Inr (last_avail_idx (vq (tx_advance 1 b) ! 1) + of_nat (length hs))"
    unfolding pos using P(2) c16.ld_agree[OF ag P(3)] by simp
  moreover have "load16 m' a = Inr (hs ! j) \<and> span a 2 \<inter> used_area (t_used l) sz = {} \<and>
      frs ! j \<noteq> [] \<and> length (frs ! j) < unat MAX_LEN \<and>
      (\<exists>F. frame_of (tx_advance 1 b) m' (t_desc l) (ucast (hs ! j)) (frs ! j) F \<and>
           F \<inter> used_area (t_used l) sz = {})"
    if "j < length hs" and
      a: "a = avail_ring_at (t_avail l) (unat (last_avail_idx (vq (tx_advance 1 b) ! 1) + of_nat j) mod sz)"
    for j a
  proof -
    have "Suc j < length (h # hs)" using that by simp
    note N = tx_pending_nth[OF p this a[unfolded pos]]
    from N(5) obtain F where fr: "frame_of b m (t_desc l) (ucast (hs ! j)) (frs ! j) F"
      and F: "F \<inter> used_area (t_used l) sz = {}" by auto
    have "frame_of (tx_advance 1 b) m' (t_desc l) (ucast (hs ! j)) (frs ! j) F"
      by (rule frame_of_backend[OF frame_of_agree[OF fr ag F]]) simp_all
    moreover have "load16 m' a = Inr (hs ! j)" using N(1) c16.ld_agree[OF ag N(2)] by simp
    ultimately show ?thesis using F N(2-4) by auto
  qed
  ultimately show ?thesis using P(1,3) unfolding tx_pending_def Let_def by simp
qed

lemma tx_wf_step:
  "tx_wf sz l b m \<Longrightarrow> agree_off S m m' \<Longrightarrow> length buf = TX_BUF_SIZE \<Longrightarrow>
   tx_wf sz (l\<lparr>t_buf := buf\<rparr>) (tx_advance 1 b) m'"
  by (simp add: tx_wf_def agree_off_def)

lemma tx_pending_entry:
  assumes wf: "tx_wf sz l b m" and p: "tx_pending sz l b m (h # hs) (fr # frs)"
  obtains m' f0 where
    "\<And>fuel. f0 \<le> fuel \<Longrightarrow> deq_entry fuel l b m =
       Inr (l\<lparr>t_buf := fr @ drop (length fr) (t_buf l)\<rparr>, tx_advance 1 b, m', [Log ''Packet received''])"
    "agree_off (span (used_id_at (t_used l) (unat (last_used_idx (vq b ! 1)) mod sz)) 8) m m'"
    "load32 m' (used_id_at (t_used l) (unat (last_used_idx (vq b ! 1)) mod sz)) = Inr (ucast h)"
    "load32 m' (used_len_at (t_used l) (unat (last_used_idx (vq b ! 1)) mod sz)) = Inr 1"
proof -
  let ?u = "unat (last_used_idx (vq b ! 1)) mod sz"
  from wf have w: "length (vq b) = 2" "length (t_buf l) = TX_BUF_SIZE" "0 < sz" "sz \<le> 32768"
    "t_size l = of_nat sz" "t_avail l = vq_avail (vq b ! 1)" "used_area (t_used l) sz \<subseteq> dom m"
    by (simp_all add: tx_wf_def)
  have "span (used_id_at (t_used l) ?u) 8 \<subseteq> dom m"
    using used_elem_in[of ?u sz "t_used l"] w by auto
  moreover from p obtain F where
    "load16 m (avail_ring_at (vq_avail (vq b ! 1)) (unat (last_avail_idx (vq b ! 1)) mod sz)) = Inr h"
    "frame_of b m (t_desc l) (ucast h) fr F" "fr \<noteq> []" "length fr < 10240"
    using w(6) by (auto simp: tx_pending_def Let_def MAX_LEN_def)
  moreover have "ring_slot i (t_size l) = Inr (unat i mod sz)" for i
    using w by (simp add: ring_slot_of_nat)
  ultimately show ?thesis using deq_entry_ok[OF w(1,2)] that by metis
qed

lemma deq_drain_ok:
  assumes "tx_wf sz l b m" "tx_pending sz l b m hs frs" "sz dvd 65536" "length hs \<le> sz"
  shows "\<exists>l' m' f0.
    (\<forall>fuel \<ge> f0. deq_drain (Suc (length hs)) fuel l b m =
       Inr (l', tx_advance (length hs) b, m', replicate (length hs) (Log ''Packet received''))) \<and>
    t_used l' = t_used l \<and> agree_off (used_area (t_used l) sz) m m' \<and>
    (\<forall>t < sz. (\<forall>j < length hs. t \<noteq> unat (last_used_idx (vq b ! 1) + of_nat j) mod sz) \<longrightarrow>
       load32 m' (used_id_at (t_used l) t) = load32 m (used_id_at (t_used l) t) \<and>
       load32 m' (used_len_at (t_used l) t) = load32 m (used_len_at (t_used l) t)) \<and>
    used_holds sz (t_used l) m' (last_used_idx (vq b ! 1)) hs"
  using assms
proof (induction hs arbitrary: l b m frs)
  case Nil
  then show ?case
    by (intro exI[of _ l] exI[of _ m] exI[of _ 0])
       (auto simp: tx_wf_def tx_pending_def used_holds_def)
next
  case (Cons h hs)
  from Cons.prems(2) obtain fr frs' where frs: "frs = fr # frs'"
    by (cases frs) (auto simp: tx_pending_def)
  let ?pos = "last_used_idx (vq b ! 1)" and ?U = "t_used l"
  let ?u = "unat ?pos mod sz" and ?buf = "fr @ drop (length fr) (t_buf l)"
  let ?l = "l\<lparr>t_buf := ?buf\<rparr>" and ?b = "tx_advance 1 b"
  have len: "length (vq b) = 2" "0 < sz" "sz \<le> 32768" "length (t_buf l) = TX_BUF_SIZE"
    using Cons.prems(1) by (simp_all add: tx_wf_def)
  obtain m1 f1 where e: "\<And>fuel. f1 \<le> fuel \<Longrightarrow> deq_entry fuel l b m = Inr (?l, ?b, m1, [Log ''Packet received''])"
    "agree_off (span (used_id_at ?U ?u) 8) m m1" "load32 m1 (used_id_at ?U ?u) = Inr (ucast h)"
    "load32 m1 (used_len_at ?U ?u) = Inr 1"
    by (rule tx_pending_entry[OF Cons.prems(1) Cons.prems(2)[unfolded frs]]) (rule that, assumption+)
  have u: "?u < sz" using len by simp
  have ag: "agree_off (used_area ?U sz) m m1"
    by (rule agree_off_mono[OF e(2) used_elem_in[OF u]])
  have frl: "length fr < 10240" using Cons.prems(2) frs by (auto simp: tx_pending_def Let_def MAX_LEN_def)
  have wf1: "tx_wf sz ?l ?b m1"
    by (rule tx_wf_step[OF Cons.prems(1) ag]) (use len(4) frl in \<open>simp add: TX_BUF_SIZE_def\<close>)
  note p1 = tx_pending_step[OF Cons.prems(1) Cons.prems(2)[unfolded frs] ag, of ?buf]
  obtain l2 m2 f2 where IH:
    "\<And>fuel. f2 \<le> fuel \<Longrightarrow> deq_drain (Suc (length hs)) fuel ?l ?b m1 =
       Inr (l2, tx_advance (length hs) ?b, m2, replicate (length hs) (Log ''Packet received''))"
    "t_used l2 = ?U" "agree_off (used_area ?U sz) m1 m2"
    "\<And>t. t < sz \<Longrightarrow> (\<And>j. j < length hs \<Longrightarrow> t \<noteq> unat (?pos + 1 + of_nat j) mod sz) \<Longrightarrow>
       load32 m2 (used_id_at ?U t) = load32 m1 (used_id_at ?U t) \<and>
       load32 m2 (used_len_at ?U t) = load32 m1 (used_len_at ?U t)"
    "used_holds sz ?U m2 (?pos + 1) hs"
    using Cons.IH[OF wf1 p1 Cons.prems(3)] Cons.prems(4) len(1) by auto
  have shift: "?pos + 1 + of_nat j = ?pos + of_nat (Suc j)" for j by (simp add: ac_simps)
  have "?u \<noteq> unat (?pos + 1 + of_nat j) mod sz" if "j < length hs" for j
    unfolding shift by (rule slot_distinct[OF Cons.prems(3)]) (use that Cons.prems(4) in simp_all)
  then have keep: "load32 m2 (used_id_at ?U ?u) = Inr (ucast h)" "load32 m2 (used_len_at ?U ?u) = Inr 1"
    using IH(4)[OF u] e(3,4) by simp_all
  have far: "load32 m1 (used_id_at ?U t) = load32 m (used_id_at ?U t)"
    "load32 m1 (used_len_at ?U t) = load32 m (used_len_at ?U t)" if "t < sz" "t \<noteq> ?u" for t
    using used_elem_agree[OF e(2) used_elem_apart[OF that(2)]] that(1) u len(3) by linarith+
  have "deq_drain (Suc (length (h # hs))) fuel l b m = Inr (l2, tx_advance (length (h # hs)) b, m2,
      replicate (length (h # hs)) (Log ''Packet received''))" if "max f1 f2 \<le> fuel" for fuel
    using that e(1)[of fuel] IH(1)[of fuel] len Cons.prems
      pending_differs[of "Suc (length hs)" "last_avail_idx (vq b ! 1)"]
    by (simp add: tx_pending_def)
  moreover have "used_holds sz ?U m2 ?pos (h # hs)"
    using IH(5) keep unfolding used_holds_def Let_def shift
    by (auto simp: nth_Cons split: nat.splits)
  moreover have "agree_off (used_area ?U sz) m m2" by (rule agree_off_step[OF ag IH(3)]) simp
  moreover have "load32 m2 (used_id_at ?U t) = load32 m (used_id_at ?U t) \<and>
      load32 m2 (used_len_at ?U t) = load32 m (used_len_at ?U t)"
    if "t < sz" and ne: "\<forall>j < length (h # hs). t \<noteq> unat (?pos + of_nat j) mod sz" for t
  proof -
    have "t \<noteq> ?u" using ne[rule_format, of 0] by simp
    moreover have "t \<noteq> unat (?pos + 1 + of_nat j) mod sz" if "j < length hs" for j
      unfolding shift using ne[rule_format, of "Suc j"] that by simp
    ultimately show ?thesis using IH(4)[OF that(1)] far[OF that(1)] by simp
  qed
  ultimately show ?case using IH(2) by blast
qed

section \<open>Properties\<close>

text \<open>C8: The descriptor loop of \<^verbatim>\<open>dequeue\<close> copies exactly the frame that the chain holds. If the
  chain with head \<open>i\<close> holds the bytes \<open>bs\<close>, fewer than \<^verbatim>\<open>MAX_LEN\<close>, then the loop ends (some
  number of iterations is enough), reports the length of \<open>bs\<close> and leaves \<open>bs\<close> at the front of
  the frame buffer and the rest of the buffer as it was.\<close>

theorem deq_chain_copies_frame:
  assumes "frame_of b m desc i bs F" "length bs < unat MAX_LEN" "length buf = TX_BUF_SIZE"
  shows "\<exists>f0. \<forall>fuel \<ge> f0. deq_chain fuel b m desc i 0 buf =
    Inr (of_nat (length bs), bs @ drop (length bs) buf)"
  using deq_chain_complete[OF assms(1), of 0 buf "[]" 0] assms(2,3) by (simp add: MAX_LEN_def)

text \<open>C17: Conversely, whenever the descriptor loop of \<^verbatim>\<open>dequeue\<close> ends normally, what it left in the
  buffer is the content of the descriptor chain, and the frame is shorter than \<^verbatim>\<open>MAX_LEN\<close>; no
  descriptor of the chain was a device-writable one.\<close>

theorem deq_chain_only_frames:
  assumes "deq_chain fuel b m desc i 0 buf = Inr (len, buf')" "length buf = TX_BUF_SIZE"
  shows "\<exists>F. frame_of b m desc i (take (unat len) buf') F \<and> len < MAX_LEN \<and>
    length buf' = TX_BUF_SIZE"
  using deq_chain_sound[OF assms(1)] assms(2) by (auto simp: MAX_LEN_def word_less_nat_alt)

text \<open>C22: The descriptor loop of \<^verbatim>\<open>dequeue\<close> ends after at most \<^verbatim>\<open>MAX_LEN\<close> iterations, with a frame or
  with an error, if none of the descriptors that the links lead to from the head of the chain has length
  0, whatever these links are (cycles included).\<close>

theorem deq_chain_ends:
  assumes "\<And>j. linked m desc h j \<Longrightarrow> load32 m (desc_len_at desc (unat j)) \<noteq> Inr 0" "length buf = TX_BUF_SIZE"
  shows "deq_chain (unat MAX_LEN) b m desc (ucast h) 0 buf \<noteq> Inl OutOfFuel"
  by (rule deq_chain_terminates[OF assms]) (simp_all add: MAX_LEN_def)

text \<open>A guest can hang the transmit thread: a readable descriptor of length 0 that links to itself
  is walked forever, no number of iterations is enough.\<close>

theorem deq_chain_hangs:
  assumes "load64 m (desc_addr_at desc (unat i)) = Inr addr" "gpa_to_va addr 1 b = Inr va"
    and "load32 m (desc_len_at desc (unat i)) = Inr 0"
    and "load16 m (desc_flags_at desc (unat i)) = Inr VRING_DESC_F_NEXT"
    and "load16 m (desc_next_at desc (unat i)) = Inr nxt" "i = ucast nxt"
    and "length buf = TX_BUF_SIZE"
  shows "\<forall>fuel. deq_chain fuel b m desc i 0 buf = Inl OutOfFuel"
proof
  fix fuel show "deq_chain fuel b m desc i 0 buf = Inl OutOfFuel"
  proof (induction fuel)
    case (Suc fuel)
    have "VRING_DESC_F_NEXT AND VRING_DESC_F_WRITE = 0" "VRING_DESC_F_NEXT AND VRING_DESC_F_NEXT \<noteq> 0"
      "(0::u32) < MAX_LEN"
      by (simp_all add: deq_const_defs)
    with Suc assms show ?case by (simp add: buf_write_def)
  qed simp
qed

lemma gpa_not_oob: "wf_backend b \<Longrightarrow> unat (nregions b) \<le> 8 \<Longrightarrow> gpa_to_va a 1 b \<noteq> Inl OutOfBounds"
proof (cases "\<exists>j < unat (nregions b). in_region gpa (regions b ! j) a")
  case True
  assume wf: "wf_backend b" "unat (nregions b) \<le> 8"
  from True obtain k where "k < unat (nregions b) \<and> in_region gpa (regions b ! k) a"
    "\<And>j. j < k \<Longrightarrow> \<not> (j < unat (nregions b) \<and> in_region gpa (regions b ! j) a)"
    using exists_least_iff[of "\<lambda>j. j < unat (nregions b) \<and> in_region gpa (regions b ! j) a"] by blast
  then have "first_hit gpa b a k" using wf
    by (fastforce simp: first_hit_def wf_backend_def VHOST_MEMORY_MAX_NREGIONS_def)
  from gpa_tx.tr_hit[OF this] show ?thesis by simp
next
  case False
  assume wf: "wf_backend b" "unat (nregions b) \<le> 8"
  with False gpa_tx.tr_miss[of b a] show ?thesis
    by (auto simp: wf_backend_def VHOST_MEMORY_MAX_NREGIONS_def)
qed

lemma load_not_oob: "load m a n \<noteq> Inl OutOfBounds"
  by (induction n arbitrary: a) (auto simp: bindE_eq_Inl_iff split: option.splits)

lemma deq_chain_in_bounds:
  assumes "wf_backend b" "unat (nregions b) \<le> 8"
    and "\<And>j n. linked m desc h j \<Longrightarrow> load32 m (desc_len_at desc (unat j)) = Inr n \<Longrightarrow> unat n < 2 ^ 32 - 10240"
    and "length buf = TX_BUF_SIZE" "unat len < 10240"
  shows "deq_chain fuel b m desc (ucast h) len buf \<noteq> Inl OutOfBounds"
  using assms(3-5)
proof (induction fuel arbitrary: h len buf)
  case (Suc fuel)
  have no: "load64 m a \<noteq> Inl OutOfBounds" "load32 m a \<noteq> Inl OutOfBounds"
    "load16 m a \<noteq> Inl OutOfBounds" "load m a k \<noteq> Inl OutOfBounds" "gpa_to_va a 1 b \<noteq> Inl OutOfBounds" for a k
    using load_not_oob gpa_not_oob[OF assms(1,2)]
    by (auto simp: load64_def load32_def load16_def bindE_eq_Inl_iff)
  show ?case
  proof
    assume fail: "deq_chain (Suc fuel) b m desc (ucast h) len buf = Inl OutOfBounds"
    from fail no obtain n chunk bs and fl :: u16 where s:
      "load32 m (desc_len_at desc (unat h)) = Inr n" "len + n < 10240" "load m chunk (unat n) = Inr bs"
      "load16 m (desc_flags_at desc (unat h)) = Inr fl"
      "buf_write buf (unat len) bs = Inl OutOfBounds \<or>
       (\<exists>buf1 nxt. buf_write buf (unat len) bs = Inr buf1 \<and> fl AND 1 \<noteq> 0 \<and>
          load16 m (desc_next_at desc (unat h)) = Inr nxt \<and>
          deq_chain fuel b m desc (ucast (nxt :: u16)) (len + n) buf1 = Inl OutOfBounds)"
      by (auto simp: bindE_eq_Inl_iff deq_const_defs unat_desc_index split: if_splits)
    from Suc.prems(1)[OF linked_head s(1)] Suc.prems(3) have un: "unat (len + n) = unat len + unat n"
      by (simp add: unat_word_ariths)
    with s(2) have lt: "unat len + unat n < 10240" by (simp add: word_less_nat_alt)
    with load_length[OF s(3)] Suc.prems(2)
    have fits: "buf_write buf (unat len) bs \<noteq> Inl OutOfBounds"
      by (simp add: buf_write_def TX_BUF_SIZE_def)
    with s(5) obtain buf1 and nxt :: u16 where n: "buf_write buf (unat len) bs = Inr buf1" "fl AND 1 \<noteq> 0"
      "load16 m (desc_next_at desc (unat h)) = Inr nxt"
      "deq_chain fuel b m desc (ucast nxt) (len + n) buf1 = Inl OutOfBounds" by blast
    have "length buf1 = TX_BUF_SIZE" using buf_write_length[OF n(1)] Suc.prems(2) by simp
    from Suc.IH[OF Suc.prems(1)[OF linked_next[OF s(4) n(2,3)]] this] lt un n(4) show False by simp
  qed
qed simp

text \<open>C21: Memory safety of the copy in \<^verbatim>\<open>dequeue\<close>. With at most as many regions as the table has entries
  (\<^verbatim>\<open>SET_MEM_TABLE\<close> does not check their number), and as long as each of the descriptors that the links lead to
  from the head of the chain has a length below \<^verbatim>\<open>2^32 - MAX_LEN\<close>, the frame buffer is never written out of
  bounds, whatever the links are and however many iterations the loop makes.\<close>

theorem deq_chain_memory_safe:
  assumes "wf_backend b" "unat (nregions b) \<le> VHOST_MEMORY_MAX_NREGIONS"
    and "\<And>j n. linked m desc h j \<Longrightarrow> load32 m (desc_len_at desc (unat j)) = Inr n \<Longrightarrow> unat n < 2 ^ 32 - unat MAX_LEN"
    and "length buf = TX_BUF_SIZE"
  shows "deq_chain fuel b m desc (ucast h) 0 buf \<noteq> Inl OutOfBounds"
  by (rule deq_chain_in_bounds)
     (use assms in \<open>simp_all add: MAX_LEN_def VHOST_MEMORY_MAX_NREGIONS_def\<close>)

text \<open>The bound on the descriptor length in the previous property is needed: the check
  \<^verbatim>\<open>len+chunk_len<MAX_LEN\<close> is computed in 32 bits. After \<open>len > 0\<close> bytes, a descriptor of length
  \<^verbatim>\<open>2^32 - len\<close> passes it, and the copy that follows leaves the mapped memory or the frame
  buffer; the \<^verbatim>\<open>Frame too long\<close> exit is not taken.\<close>

theorem deq_chain_length_wraps:
  assumes "load64 m (desc_addr_at desc (unat i)) = Inr addr" "gpa_to_va addr 1 b = Inr va"
    and "load32 m (desc_len_at desc (unat i)) = Inr (- len)" "0 < len" "len < MAX_LEN"
    and "load16 m (desc_flags_at desc (unat i)) = Inr fl" "fl AND VRING_DESC_F_WRITE = 0"
    and "length buf = TX_BUF_SIZE"
  shows "deq_chain (Suc fuel) b m desc i len buf = Inl OutOfBounds \<or>
    (\<exists>a. deq_chain (Suc fuel) b m desc i len buf = Inl (SegFault a))"
proof -
  have lt: "unat len < 10240" "0 < unat len"
    using assms(4,5) by (simp_all add: MAX_LEN_def word_less_nat_alt unat_gt_0)
  have "unat (- len + len) = (unat (- len) + unat len) mod 2 ^ 32" by (simp only: unat_word_ariths) simp
  then have "4294967296 dvd unat (- len) + unat len" by (simp add: mod_eq_0_iff_dvd)
  then have "4294967296 \<le> unat (- len) + unat len" using lt by (intro dvd_imp_le) auto
  with lt have long: "TX_BUF_SIZE < unat (- len)" by (simp add: TX_BUF_SIZE_def)
  have seg: "load m a n = Inl e \<Longrightarrow> \<exists>x. e = SegFault x" for a n e
    by (induction n arbitrary: a) (auto simp: bindE_eq_Inl_iff split: option.splits)
  show ?thesis
  proof (cases "load m va (unat (- len))")
    case (Inl e)
    with seg[OF Inl] assms show ?thesis by (auto simp: MAX_LEN_def)
  next
    case (Inr bs)
    then have "buf_write buf (unat len) bs = Inl OutOfBounds"
      using load_length[OF Inr] long assms(8) by (simp add: buf_write_def)
    with Inr assms show ?thesis by (simp add: MAX_LEN_def)
  qed
qed

lemma used_holds_agree:
  assumes "agree_off S m m'" "used_area u sz \<inter> S = {}" "0 < sz" "used_holds sz u m pos hs"
  shows "used_holds sz u m' pos hs"
proof -
  have "load32 m' (used_id_at u (k mod sz)) = load32 m (used_id_at u (k mod sz)) \<and>
      load32 m' (used_len_at u (k mod sz)) = load32 m (used_len_at u (k mod sz))" for k
    using used_elem_agree[OF assms(1), of u "k mod sz"] used_elem_in[of "k mod sz" sz u] assms(2,3)
    by fastforce
  with assms(4) show ?thesis by (simp add: used_holds_def Let_def)
qed

text \<open>C9: One round of the transmit thread consumes everything the guest made available. With a ring
  size that is a power of two and with the same size on both queues, if \<open>n\<close> chains with heads
  \<open>hs\<close> are pending (at most the ring size, none of them empty or too long, nothing overlapping
  the used ring), the round ends, receives \<open>n\<close> packets, advances both indices by \<open>n\<close>, puts the
  heads into the used ring in the order of the available ring, publishes the used index, and
  changes nothing else in guest memory.\<close>

theorem deq_round_drains:
  assumes "wf_backend b" "deq_start garbage b = Inr l" "length garbage = TX_BUF_SIZE"
    and "vq_size (vq b ! 0) = of_nat sz" "vq_size (vq b ! 1) = of_nat sz"
    and "0 < sz" "sz \<le> 32768" "sz dvd 65536" "length hs \<le> sz"
    and "span (used_idx_at (t_used l)) 2 \<union> used_area (t_used l) sz \<subseteq> dom m"
    and "tx_pending sz l b m hs frs"
  shows "\<exists>l' m' f0.
    (\<forall>fuel \<ge> f0. deq_round (Suc (length hs)) fuel l b m =
       Inr (l', tx_advance (length hs) b, m', replicate (length hs) (Log ''Packet received''))) \<and>
    used_holds sz (t_used l) m' (last_used_idx (vq b ! 1)) hs \<and>
    load16 m' (used_idx_at (t_used l)) = Inr (last_used_idx (vq b ! 1) + of_nat (length hs)) \<and>
    agree_off (span (used_idx_at (t_used l)) 2 \<union> used_area (t_used l) sz) m m'"
proof -
  let ?U = "t_used l"
  have len: "length (vq b) = 2" using assms(1) by (simp add: wf_backend_def)
  then have "l = \<lparr>t_avail = vq_avail (vq b ! 1), t_used = vq_used (vq b ! 1),
      t_desc = vq_desc (vq b ! 1), t_size = of_nat sz, t_buf = garbage\<rparr>"
    using assms(2,4) by (simp add: deq_start_def)
  with len assms(3,6,7,10) have wf: "tx_wf sz l b m" by (simp add: tx_wf_def)
  obtain l' m1 f0 where d: "\<forall>fuel \<ge> f0. deq_drain (Suc (length hs)) fuel l b m =
      Inr (l', tx_advance (length hs) b, m1, replicate (length hs) (Log ''Packet received''))"
    "t_used l' = ?U" "agree_off (used_area ?U sz) m m1"
    "used_holds sz ?U m1 (last_used_idx (vq b ! 1)) hs"
    using deq_drain_ok[OF wf assms(11,8,9)] by auto
  have "span (used_idx_at ?U) 2 \<subseteq> dom m1" using assms(10) d(3) by (simp add: agree_off_def)
  then obtain m2 where m2: "store16 m1 (used_idx_at ?U)
      (last_used_idx (vq b ! 1) + of_nat (length hs)) = Inr m2"
    using c16.st_ok by blast
  have apart: "used_area ?U sz \<inter> span (used_idx_at ?U) 2 = {}"
    using span_apart[of 2 2 4 "8 * sz" ?U] assms(7)
    by (auto simp: used_area_def used_id_at_def used_idx_at_def)
  have "\<forall>fuel \<ge> f0. deq_round (Suc (length hs)) fuel l b m =
      Inr (l', tx_advance (length hs) b, m2, replicate (length hs) (Log ''Packet received''))"
    using d(1,2) m2 len by (simp add: deq_round_def)
  moreover have "agree_off (span (used_idx_at ?U) 2 \<union> used_area ?U sz) m m2"
    by (rule agree_off_step[OF agree_off_mono[OF d(3)] c16.st_agree[OF m2]]) auto
  ultimately show ?thesis
    using c16.ld_st[OF m2] used_holds_agree[OF c16.st_agree[OF m2] apart assms(6) d(4)] by blast
qed

text \<open>\<^verbatim>\<open>dequeue\<close> serves queue 1 but takes the ring size from \<^verbatim>\<open>b->vq->size\<close>, which is queue 0. If
  the guest gave queue 1 a smaller ring than queue 0, the thread leaves the ring of queue 1:
  the entry after the last one is read at the index \<^verbatim>\<open>size\<close> of queue 1 instead of index 0.\<close>

theorem deq_wrong_ring_size:
  assumes "wf_backend b" "vq_size (vq b ! 0) = of_nat s0" "vq_size (vq b ! 1) = of_nat s1"
    and "0 < s1" "s1 < s0" "s0 \<le> 32768" "deq_start garbage b = Inr l"
  shows "ring_slot (of_nat s1) (t_size l) = Inr s1 \<and>
    ring_slot (of_nat s1) (vq_size (vq b ! 1)) = Inr 0"
proof -
  have "t_size l = of_nat s0" using assms(1,2,7) by (auto simp: deq_start_def wf_backend_def)
  moreover have "unat (of_nat s1 :: u16) = s1" using assms(5,6) by (simp add: unat_of_nat)
  ultimately show ?thesis using assms(3-6) by (simp add: ring_slot_of_nat)
qed

section \<open>A concrete guest\<close>

text \<open>
  One region at guest address 0 mapped at 65536, two queues of size 2, and one pending chain of
  two descriptors that hold the bytes 170, 187 and 204.
\<close>

definition tx_demo_b :: backend where
  "tx_demo_b = zero_backend\<lparr>nregions := 1,
     regions := (regions zero_backend)[0 := zero_region\<lparr>reg_size := 4096, mmap_addr := 65536\<rparr>],
     vq := [zero_vq\<lparr>vq_size := 2\<rparr>,
            zero_vq\<lparr>vq_size := 2, vq_desc := 65536, vq_avail := 65664, vq_used := 65728\<rparr>]\<rparr>"

definition tx_demo_mem :: mem where
  "tx_demo_mem a =
     (if 65536 \<le> a \<and> a < 66048 then
        Some (if a = 65537 \<or> a = 65548 \<or> a = 65550 \<or> a = 65553 \<or> a = 65560 \<or> a = 65666 then 1
              else if a = 65544 then 2 else if a = 65552 then 16
              else if a = 65792 then 170 else if a = 65793 then 187 else if a = 65808 then 204
              else 0)
      else None)"

definition tx_demo_l :: tx_local where
  "tx_demo_l = \<lparr>t_avail = 65664, t_used = 65728, t_desc = 65536, t_size = 2,
     t_buf = replicate TX_BUF_SIZE 0\<rparr>"

lemma tx_demo_start: "deq_start (replicate TX_BUF_SIZE 0) tx_demo_b = Inr tx_demo_l"
  by (simp add: deq_start_def tx_demo_b_def tx_demo_l_def zero_vq_def)

lemma tx_demo_gpa: "gpa_to_va a 1 tx_demo_b = (if a < 4096 then Inr (a + 65536)
    else Inl (AssertFail ''Transmit side address not found in regions''))"
  by (simp add: gpa_to_va_def tx_demo_b_def zero_backend_def zero_region_def
      VHOST_MEMORY_MAX_NREGIONS_def region_loop.simps)

lemmas tx_demo_load = load64_def load32_def load16_def mem_simps tx_demo_mem_def
  desc_addr_at_def desc_len_at_def desc_flags_at_def desc_next_at_def

lemma tx_demo_desc:
  "load64 tx_demo_mem (desc_addr_at 65536 0) = Inr 256"
  "load32 tx_demo_mem (desc_len_at 65536 0) = Inr 2"
  "load16 tx_demo_mem (desc_flags_at 65536 0) = Inr 1"
  "load16 tx_demo_mem (desc_next_at 65536 0) = Inr 1"
  "load64 tx_demo_mem (desc_addr_at 65536 1) = Inr 272"
  "load32 tx_demo_mem (desc_len_at 65536 1) = Inr 1"
  "load16 tx_demo_mem (desc_flags_at 65536 1) = Inr 0"
  by (simp_all add: tx_demo_load)

lemma tx_demo_data: "load tx_demo_mem 65792 2 = Inr [170, 187]" "load tx_demo_mem 65808 1 = Inr [204]"
  by (simp_all add: mem_simps tx_demo_mem_def One_nat_def)

lemma tx_demo_frame:
  "frame_of tx_demo_b tx_demo_mem 65536 0 ([170, 187] @ [204])
     (span 65536 16 \<union> span 65792 2 \<union> (span 65552 16 \<union> span 65808 1))"
proof -
  have "frame_of tx_demo_b tx_demo_mem 65536 1 [204]
      (span (desc_addr_at 65536 (unat (1::u32))) 16 \<union> span 65808 (unat (1::u32)))"
    by (rule frame_last[where addr = 272 and fl = 0])
       (use tx_demo_desc tx_demo_data in \<open>simp_all add: tx_demo_gpa\<close>)
  then have "frame_of tx_demo_b tx_demo_mem 65536 (ucast (1::u16)) [204] (span 65552 16 \<union> span 65808 1)"
    by (simp add: desc_addr_at_def)
  then have "frame_of tx_demo_b tx_demo_mem 65536 0 ([170, 187] @ [204])
      (span (desc_addr_at 65536 (unat (0::u32))) 16 \<union> span 65792 (unat (2::u32)) \<union>
       (span 65552 16 \<union> span 65808 1))"
    by (rule frame_more[where addr = 256 and fl = 1 and nxt = 1, rotated -1])
       (use tx_demo_desc tx_demo_data in \<open>simp_all add: tx_demo_gpa\<close>)
  then show ?thesis by (simp add: desc_addr_at_def)
qed

theorem deq_chain_copies_frame_witness:
  "\<exists>f0. \<forall>fuel \<ge> f0. deq_chain fuel tx_demo_b tx_demo_mem 65536 0 0 (replicate TX_BUF_SIZE 0) =
     Inr (3, [170, 187, 204] @ replicate 12285 0)"
  using deq_chain_copies_frame[OF tx_demo_frame, of "replicate TX_BUF_SIZE 0"]
  by (simp add: MAX_LEN_def TX_BUF_SIZE_def)

lemma tx_demo_chain:
  "deq_chain (Suc (Suc 0)) tx_demo_b tx_demo_mem 65536 0 0 (replicate TX_BUF_SIZE 0) =
     Inr (3, [170, 187, 204] @ replicate 12285 0)"
  using tx_demo_desc tx_demo_data
  by (simp add: deq_const_defs tx_demo_gpa buf_write_def TX_BUF_SIZE_def)

theorem deq_chain_only_frames_witness:
  "\<exists>F. frame_of tx_demo_b tx_demo_mem 65536 0 [170, 187, 204] F"
  using deq_chain_only_frames[OF tx_demo_chain] by (auto simp: TX_BUF_SIZE_def)

text \<open>A table in which every descriptor has length 1 and links to descriptor 0.\<close>

definition cyc_mem :: mem where
  "cyc_mem a = Some (if unat a mod 16 = 8 \<or> unat a mod 16 = 12 then 1 else 0)"

lemma cyc_slot: "k < 16 \<Longrightarrow> unat (of_nat (16 * j + k) :: u64) mod 16 = k"
  by (simp only: unat_of_nat) (simp add: mod_mod_cancel)

lemma cyc_len: "load32 cyc_mem (desc_len_at 0 j) = Inr 1"
proof -
  have "cyc_mem (of_nat (16 * j + k)) = Some (if k = 8 \<or> k = 12 then 1 else 0)" if "k < 16" for k
    unfolding cyc_mem_def using cyc_slot[OF that, of j] by simp
  from this[of 8] this[of 9] this[of 10] this[of 11] show ?thesis
    by (simp add: load32_def mem_simps desc_len_at_def add.commute)
qed

theorem deq_chain_ends_witness:
  "deq_chain 10240 tx_demo_b cyc_mem 0 0 0 (replicate TX_BUF_SIZE 0) \<noteq> Inl OutOfFuel"
  using deq_chain_ends[of cyc_mem 0 0 "replicate TX_BUF_SIZE 0" tx_demo_b]
  by (simp add: cyc_len MAX_LEN_def)

theorem deq_chain_memory_safe_witness:
  "deq_chain 10240 tx_demo_b cyc_mem 0 0 0 (replicate TX_BUF_SIZE 0) \<noteq> Inl OutOfBounds"
  using deq_chain_memory_safe[of tx_demo_b cyc_mem 0 0 "replicate TX_BUF_SIZE 0" 10240]
  by (simp add: cyc_len MAX_LEN_def tx_demo_b_def wf_backend_def zero_backend_def
        VHOST_MEMORY_MAX_NREGIONS_def)

text \<open>A memory with a descriptor of length 0 that links to itself.\<close>

definition hang_mem :: mem where
  "hang_mem a = Some (if a = 12 then 1 else 0)"

lemmas hang_load = load64_def load32_def load16_def mem_simps hang_mem_def
  desc_addr_at_def desc_len_at_def desc_flags_at_def desc_next_at_def

theorem deq_chain_hangs_witness:
  "\<forall>fuel. deq_chain fuel tx_demo_b hang_mem 0 0 0 (replicate TX_BUF_SIZE 0) = Inl OutOfFuel"
  by (rule deq_chain_hangs[where addr = 0 and va = 65536 and nxt = 0])
     (simp_all add: hang_load tx_demo_gpa deq_const_defs)

text \<open>A memory in which descriptor 0 has length 4294967295, one less than a multiple of 2^32.\<close>

definition wrap_mem :: mem where
  "wrap_mem a = Some (if a = 8 \<or> a = 9 \<or> a = 10 \<or> a = 11 then 255 else 0)"

lemmas wrap_load = load64_def load32_def load16_def mem_simps wrap_mem_def
  desc_addr_at_def desc_len_at_def desc_flags_at_def desc_next_at_def

theorem deq_chain_length_wraps_witness:
  "deq_chain (Suc 0) tx_demo_b wrap_mem 0 0 1 (replicate TX_BUF_SIZE 0) = Inl OutOfBounds \<or>
   (\<exists>a. deq_chain (Suc 0) tx_demo_b wrap_mem 0 0 1 (replicate TX_BUF_SIZE 0) = Inl (SegFault a))"
  by (rule deq_chain_length_wraps[where addr = 0 and va = 65536 and fl = 0])
     (simp_all add: wrap_load tx_demo_gpa deq_const_defs)

lemma tx_demo_pending: "tx_pending 2 tx_demo_l tx_demo_b tx_demo_mem [0] [[170, 187] @ [204]]"
proof -
  have area: "used_area 65728 2 = span 65732 16" by (simp add: used_area_def used_id_at_def)
  have "load16 tx_demo_mem 65666 = Inr 1" "load16 tx_demo_mem 65668 = Inr 0"
    by (simp_all add: tx_demo_load)
  moreover have "span 65666 2 \<inter> span 65732 16 = {}" "span 65668 2 \<inter> span 65732 16 = {}"
    "(span 65536 16 \<union> span 65792 2 \<union> (span 65552 16 \<union> span 65808 1)) \<inter> span 65732 16 = {}"
    by (simp_all add: mem_simps span_Suc)
  ultimately show ?thesis
    using tx_demo_frame area
    by (auto simp: tx_pending_def tx_demo_l_def tx_demo_b_def zero_vq_def avail_idx_at_def
        avail_ring_at_def MAX_LEN_def)
qed

theorem deq_round_drains_witness:
  "\<exists>l' m' f0. (\<forall>fuel \<ge> f0. deq_round (Suc (Suc 0)) fuel tx_demo_l tx_demo_b tx_demo_mem =
       Inr (l', tx_advance 1 tx_demo_b, m', [Log ''Packet received''])) \<and>
     used_holds 2 65728 m' 0 [0] \<and> load16 m' 65730 = Inr 1"
proof -
  have "span (used_idx_at (t_used tx_demo_l)) 2 \<union> used_area (t_used tx_demo_l) 2 \<subseteq> dom tx_demo_mem"
    by (simp add: used_area_def used_id_at_def used_idx_at_def tx_demo_l_def mem_simps span_Suc
        tx_demo_mem_def dom_def)
  note round = deq_round_drains[OF _ tx_demo_start, of 2 "[0]" tx_demo_mem "[[170, 187] @ [204]]",
      OF _ _ _ _ _ _ _ _ this tx_demo_pending]
  show ?thesis
    using round
    by (simp add: wf_backend_def tx_demo_b_def zero_backend_def VHOST_MEMORY_MAX_NREGIONS_def
        zero_vq_def tx_demo_l_def used_idx_at_def) blast
qed

definition tx_small_b :: backend where
  "tx_small_b = zero_backend\<lparr>vq := [zero_vq\<lparr>vq_size := 256\<rparr>, zero_vq\<lparr>vq_size := 128\<rparr>]\<rparr>"

theorem deq_wrong_ring_size_witness:
  "ring_slot 128 256 = Inr 128 \<and> ring_slot 128 128 = Inr 0"
proof -
  have "deq_start [] tx_small_b =
      Inr \<lparr>t_avail = 0, t_used = 0, t_desc = 0, t_size = 256, t_buf = []\<rparr>"
    by (simp add: deq_start_def tx_small_b_def zero_vq_def)
  from deq_wrong_ring_size[OF _ _ _ _ _ _ this, of 256 128] show ?thesis
    by (simp add: tx_small_b_def zero_vq_def wf_backend_def zero_backend_def
        VHOST_MEMORY_MAX_NREGIONS_def)
qed

end
