(* ===== verification/TxRing.thy ===== *)
theory TxRing
  imports DeqProps
begin

text \<open>
  The transmit thread and the guest driver running at the same time on the rings they share.

  \<open>tx_thread\<close> cuts the endless loop of \<^verbatim>\<open>dequeue\<close> (src/code_dump/bkend/bkend.c) at the points where
  another party can be seen: the test of \<^verbatim>\<open>avail->idx\<close>, the work on one entry, and the store of
  \<^verbatim>\<open>used->idx\<close>. \<open>run_drain\<close> shows that without a guest the pieces add up to \<open>deq_round\<close>. The
  driver is not code of the repository: \<open>tx_step\<close> lets it do anything that the virtio protocol
  allows (write whatever it still owns, then publish a chain by advancing \<^verbatim>\<open>avail->idx\<close>, never
  more than a ring ahead of \<^verbatim>\<open>used->idx\<close>), in any interleaving with the steps of the thread.
  \<open>entry_commutes\<close> is the reason why the work on one entry can be a single step.

  \<open>txq_step\<close> is the abstract queue. The invariant \<open>tx_inv\<close> holds in every state that can be
  reached, and the system refines the queue: frames arrive in the order of submission, each
  one once, and heads come back in that order.
\<close>

section \<open>The thread in steps\<close>

datatype tx_pc = TxCheck | TxEntry | TxPublish

text \<open>The last three components are histories: the value of both ring indices at the start, the
  chains the driver has published, and the frames the thread has copied.\<close>

record tx_sys =
  x_pc :: tx_pc
  x_l :: tx_local
  x_b :: backend
  x_m :: mem
  x_base :: u16
  x_sub :: "(u16 \<times> u8 list) list"
  x_got :: "u8 list list"

text \<open>The frame that the work on one entry leaves at the front of the buffer.\<close>

definition deq_received :: "nat \<Rightarrow> tx_local \<Rightarrow> backend \<Rightarrow> mem \<Rightarrow> u8 list res" where
  "deq_received fuel l b m =
     bindE (arr_get (vq b) 1) (\<lambda>q.
     bindE (ring_slot (last_avail_idx q) (t_size l)) (\<lambda>a_idx.
     bindE (load16 m (avail_ring_at (vq_avail q) a_idx)) (\<lambda>d_idx.
     bindE (deq_chain fuel b m (t_desc l) (ucast d_idx) 0 (t_buf l)) (\<lambda>(len, buf).
       Inr (take (unat len) buf)))))"

definition tx_thread :: "nat \<Rightarrow> tx_sys \<Rightarrow> tx_sys res" where
  "tx_thread fuel s =
     (case x_pc s of
        TxCheck \<Rightarrow>
          bindE (arr_get (vq (x_b s)) 1) (\<lambda>q.
          bindE (load16 (x_m s) (avail_idx_at (t_avail (x_l s)))) (\<lambda>idx.
            Inr (s\<lparr>x_pc := (if last_avail_idx q = idx then TxPublish else TxEntry)\<rparr>)))
      | TxEntry \<Rightarrow>
          bindE (deq_received fuel (x_l s) (x_b s) (x_m s)) (\<lambda>fr.
          bindE (deq_entry fuel (x_l s) (x_b s) (x_m s)) (\<lambda>(l, b, m, es).
            Inr (s\<lparr>x_pc := TxCheck, x_l := l, x_b := b, x_m := m, x_got := x_got s @ [fr]\<rparr>)))
      | TxPublish \<Rightarrow>
          bindE (arr_get (vq (x_b s)) 1) (\<lambda>q.
          bindE (store16 (x_m s) (used_idx_at (t_used (x_l s))) (last_used_idx q)) (\<lambda>m.
            Inr (s\<lparr>x_pc := TxCheck, x_m := m\<rparr>))))"

fun tx_run :: "nat \<Rightarrow> nat \<Rightarrow> tx_sys \<Rightarrow> tx_sys res" where
  "tx_run 0 fuel s = Inr s"
| "tx_run (Suc n) fuel s = bindE (tx_thread fuel s) (tx_run n fuel)"

section \<open>The guest driver\<close>

definition tx_pend :: "tx_sys \<Rightarrow> (u16 \<times> u8 list) list" where
  "tx_pend s = drop (length (x_got s)) (x_sub s)"

definition tx_slot :: "nat \<Rightarrow> tx_sys \<Rightarrow> nat \<Rightarrow> u64" where
  "tx_slot sz s j = avail_ring_at (t_avail (x_l s)) (unat (x_base s + of_nat j) mod sz)"

text \<open>What the device writes, and what the driver leaves alone: the indices, the used ring, and
  the ring slots and chains it has handed over.\<close>

definition dev_area :: "nat \<Rightarrow> tx_local \<Rightarrow> u64 set" where
  "dev_area sz l = span (used_idx_at (t_used l)) 2 \<union> used_area (t_used l) sz"

definition guest_keeps :: "nat \<Rightarrow> tx_sys \<Rightarrow> u64 set" where
  "guest_keeps sz s =
     dev_area sz (x_l s) \<union> span (avail_idx_at (t_avail (x_l s))) 2 \<union>
     (\<Union>j \<in> {length (x_got s) ..< length (x_sub s)}. span (tx_slot sz s j) 2) \<union>
     {a. \<exists>p \<in> set (tx_pend s). \<exists>fr F.
           frame_of (x_b s) (x_m s) (t_desc (x_l s)) (ucast (fst p)) fr F \<and> a \<in> F}"

definition tx_chain :: "nat \<Rightarrow> tx_local \<Rightarrow> backend \<Rightarrow> mem \<Rightarrow> u16 \<times> u8 list \<Rightarrow> bool" where
  "tx_chain sz l b m p \<longleftrightarrow>
     snd p \<noteq> [] \<and> length (snd p) < unat MAX_LEN \<and>
     (\<exists>F. frame_of b m (t_desc l) (ucast (fst p)) (snd p) F \<and>
          F \<inter> (dev_area sz l \<union> span (avail_idx_at (t_avail l)) 2) = {})"

inductive tx_step :: "nat \<Rightarrow> tx_sys \<Rightarrow> tx_sys \<Rightarrow> bool" for sz :: nat where
  thread: "tx_thread fuel s = Inr s' \<Longrightarrow> tx_step sz s s'"
| guest_write:
    "agree_off G (x_m s) m' \<Longrightarrow> G \<inter> guest_keeps sz s = {} \<Longrightarrow> tx_step sz s (s\<lparr>x_m := m'\<rparr>)"
| guest_publish:
    "load16 (x_m s) (avail_idx_at (t_avail (x_l s))) = Inr i \<Longrightarrow>
     load16 (x_m s) (used_idx_at (t_used (x_l s))) = Inr u \<Longrightarrow> unat (i - u) < sz \<Longrightarrow>
     load16 (x_m s) (avail_ring_at (t_avail (x_l s)) (unat i mod sz)) = Inr h \<Longrightarrow>
     tx_chain sz (x_l s) (x_b s) (x_m s) (h, fr) \<Longrightarrow>
     store16 (x_m s) (avail_idx_at (t_avail (x_l s))) (i + 1) = Inr m' \<Longrightarrow>
     tx_step sz s (s\<lparr>x_m := m', x_sub := x_sub s @ [(h, fr)]\<rparr>)"

inductive tx_reach :: "nat \<Rightarrow> tx_sys \<Rightarrow> tx_sys \<Rightarrow> bool" for sz :: nat and s :: tx_sys where
  reach_refl: "tx_reach sz s s"
| reach_step: "tx_reach sz s s' \<Longrightarrow> tx_step sz s' s'' \<Longrightarrow> tx_reach sz s s''"

section \<open>The invariant\<close>

text \<open>\<open>tx_front\<close> is what the driver has handed over, \<open>tx_back\<close> what it finds in the used ring.\<close>

definition tx_front :: "nat \<Rightarrow> tx_sys \<Rightarrow> bool" where
  "tx_front sz s \<longleftrightarrow>
     load16 (x_m s) (avail_idx_at (t_avail (x_l s))) = Inr (x_base s + of_nat (length (x_sub s))) \<and>
     (\<forall>j. length (x_got s) \<le> j \<longrightarrow> j < length (x_sub s) \<longrightarrow>
        load16 (x_m s) (tx_slot sz s j) = Inr (fst (x_sub s ! j)) \<and>
        tx_chain sz (x_l s) (x_b s) (x_m s) (x_sub s ! j))"

definition used_entry :: "nat \<Rightarrow> tx_sys \<Rightarrow> nat \<Rightarrow> u16 \<Rightarrow> bool" where
  "used_entry sz s j h \<longleftrightarrow>
     load32 (x_m s) (used_id_at (t_used (x_l s)) (unat (x_base s + of_nat j) mod sz)) = Inr (ucast h) \<and>
     load32 (x_m s) (used_len_at (t_used (x_l s)) (unat (x_base s + of_nat j) mod sz)) = Inr 1"

definition tx_back :: "nat \<Rightarrow> tx_sys \<Rightarrow> bool" where
  "tx_back sz s \<longleftrightarrow>
     (\<exists>r \<le> length (x_got s). length (x_sub s) \<le> r + sz \<and>
        load16 (x_m s) (used_idx_at (t_used (x_l s))) = Inr (x_base s + of_nat r)) \<and>
     (\<forall>j < length (x_got s). length (x_got s) \<le> j + sz \<longrightarrow> used_entry sz s j (fst (x_sub s ! j)))"

definition tx_layout :: "nat \<Rightarrow> tx_sys \<Rightarrow> bool" where
  "tx_layout sz s \<longleftrightarrow>
     tx_wf sz (x_l s) (x_b s) (x_m s) \<and> sz dvd 65536 \<and> dev_area sz (x_l s) \<subseteq> dom (x_m s) \<and>
     span (avail_idx_at (t_avail (x_l s))) (2 + 2 * sz) \<inter> dev_area sz (x_l s) = {}"

definition tx_inv :: "nat \<Rightarrow> tx_sys \<Rightarrow> bool" where
  "tx_inv sz s \<longleftrightarrow>
     tx_layout sz s \<and> tx_front sz s \<and> tx_back sz s \<and>
     last_avail_idx (vq (x_b s) ! 1) = x_base s + of_nat (length (x_got s)) \<and>
     last_used_idx (vq (x_b s) ! 1) = x_base s + of_nat (length (x_got s)) \<and>
     length (x_got s) \<le> length (x_sub s) \<and>
     x_got s = map snd (take (length (x_got s)) (x_sub s)) \<and>
     (x_pc s = TxEntry \<longrightarrow> length (x_got s) < length (x_sub s))"

section \<open>Fuel\<close>

text \<open>\<open>le_res x y\<close>: where \<open>x\<close> gives a result, \<open>y\<close> gives the same one. More fuel never changes a
  result, because every construct of the model is monotone in this order.\<close>

definition le_res :: "'a res \<Rightarrow> 'a res \<Rightarrow> bool" where
  "le_res x y \<longleftrightarrow> (\<forall>r. x = Inr r \<longrightarrow> y = Inr r)"

named_theorems le_res_intros

lemma le_res_refl [le_res_intros]: "le_res x x"
  by (simp add: le_res_def)

lemma le_res_Inl [le_res_intros]: "le_res (Inl e) y"
  by (simp add: le_res_def)

lemma le_res_bindE [le_res_intros]:
  "le_res x y \<Longrightarrow> (\<And>a. le_res (f a) (g a)) \<Longrightarrow> le_res (bindE x f) (bindE y g)"
  by (auto simp: le_res_def bindE_eq_Inr_iff)

lemma le_res_if [le_res_intros]:
  "le_res x x' \<Longrightarrow> le_res y y' \<Longrightarrow> le_res (if c then x else y) (if c then x' else y')"
  by simp

lemma le_res_prod [le_res_intros]:
  "(\<And>a b. le_res (f a b) (g a b)) \<Longrightarrow> le_res (case p of (a, b) \<Rightarrow> f a b) (case p of (a, b) \<Rightarrow> g a b)"
  by (cases p) simp

lemma le_res_pc [le_res_intros]:
  "le_res c c' \<Longrightarrow> le_res e e' \<Longrightarrow> le_res p p' \<Longrightarrow>
   le_res (case pc of TxCheck \<Rightarrow> c | TxEntry \<Rightarrow> e | TxPublish \<Rightarrow> p)
          (case pc of TxCheck \<Rightarrow> c' | TxEntry \<Rightarrow> e' | TxPublish \<Rightarrow> p')"
  by (cases pc) simp_all

lemma deq_chain_mono [le_res_intros]:
  "fuel \<le> fuel' \<Longrightarrow> le_res (deq_chain fuel b m desc i len buf) (deq_chain fuel' b m desc i len buf)"
proof (induction fuel arbitrary: fuel' i len buf)
  case (Suc fuel)
  then obtain f' where f': "fuel' = Suc f'" "fuel \<le> f'" by (cases fuel') auto
  show ?case unfolding f'(1) deq_chain.simps by (intro le_res_intros Suc.IH f'(2))
qed (simp add: le_res_Inl)

lemma deq_entry_mono [le_res_intros]:
  "fuel \<le> fuel' \<Longrightarrow> le_res (deq_entry fuel l b m) (deq_entry fuel' l b m)"
  unfolding deq_entry_def by (intro le_res_intros)

lemma deq_received_mono [le_res_intros]:
  "fuel \<le> fuel' \<Longrightarrow> le_res (deq_received fuel l b m) (deq_received fuel' l b m)"
  unfolding deq_received_def by (intro le_res_intros)

lemma tx_thread_mono [le_res_intros]:
  "fuel \<le> fuel' \<Longrightarrow> le_res (tx_thread fuel s) (tx_thread fuel' s)"
  unfolding tx_thread_def by (intro le_res_intros)

lemma tx_run_mono [le_res_intros]: "fuel \<le> fuel' \<Longrightarrow> le_res (tx_run n fuel s) (tx_run n fuel' s)"
  by (induction n arbitrary: s) (simp_all add: le_res_intros)

lemma le_resD: "le_res x y \<Longrightarrow> x = Inr r \<Longrightarrow> y = Inr r"
  by (simp add: le_res_def)

lemma tx_run_add: "tx_run (n + k) fuel s = bindE (tx_run n fuel s) (tx_run k fuel)"
proof (induction n arbitrary: s)
  case (Suc n)
  then show ?case by (cases "tx_thread fuel s") simp_all
qed simp

text \<open>An entry that is processed is an entry whose frame is observed.\<close>

lemma deq_entry_received:
  assumes "deq_entry fuel l b m = Inr (l', b', m', es)"
  obtains fr where "deq_received fuel l b m = Inr fr"
  using assms unfolding deq_entry_def deq_received_def
  by (auto simp: bindE_eq_Inr_iff split: if_splits)

text \<open>With no guest in between, the steps are those of \<^verbatim>\<open>dequeue\<close>: draining the available ring
  takes two steps per entry and one to find it empty, the next one publishes the used index.\<close>

lemma run_drain:
  assumes "deq_drain n fuel (x_l s) (x_b s) (x_m s) = Inr (l', b', m', es)" "x_pc s = TxCheck"
  shows "\<exists>got. tx_run (Suc (2 * length es)) fuel s =
    Inr (s\<lparr>x_pc := TxPublish, x_l := l', x_b := b', x_m := m', x_got := got\<rparr>)"
  using assms
proof (induction n arbitrary: s es)
  case (Suc n)
  then obtain q idx where q: "arr_get (vq (x_b s)) 1 = Inr q"
    "load16 (x_m s) (avail_idx_at (t_avail (x_l s))) = Inr idx"
    by (auto simp: bindE_eq_Inr_iff)
  show ?case
  proof (cases "last_avail_idx q = idx")
    case True
    with Suc.prems q show ?thesis
      by (intro exI[of _ "x_got s"]) (auto simp: tx_thread_def)
  next
    case False
    with Suc.prems(1) q obtain l1 b1 m1 es1 es2 where
      e: "deq_entry fuel (x_l s) (x_b s) (x_m s) = Inr (l1, b1, m1, es1)"
      and d: "deq_drain n fuel l1 b1 m1 = Inr (l', b', m', es2)" and es: "es = es1 @ es2"
      by (auto simp: bindE_eq_Inr_iff)
    have one: "length es1 = 1" using e by (auto simp: deq_entry_def bindE_eq_Inr_iff split: if_splits)
    obtain fr where fr: "deq_received fuel (x_l s) (x_b s) (x_m s) = Inr fr"
      by (rule deq_entry_received[OF e])
    let ?s = "s\<lparr>x_pc := TxCheck, x_l := l1, x_b := b1, x_m := m1, x_got := x_got s @ [fr]\<rparr>"
    have two: "tx_run 2 fuel s = Inr ?s"
      using Suc.prems(2) q False e fr by (simp add: tx_thread_def numeral_2_eq_2)
    from Suc.IH[of ?s es2] d obtain got where
      "tx_run (Suc (2 * length es2)) fuel ?s =
        Inr (?s\<lparr>x_pc := TxPublish, x_l := l', x_b := b', x_m := m', x_got := got\<rparr>)" by auto
    moreover have "Suc (2 * length es) = 2 + Suc (2 * length es2)" using es one by simp
    ultimately show ?thesis using two by (simp only: tx_run_add) auto
  qed
qed simp

section \<open>The areas of the rings\<close>

lemma avail_cells:
  "span (avail_idx_at a) 2 \<subseteq> span (avail_idx_at a) (2 + 2 * sz)"
  "k < sz \<Longrightarrow> span (avail_ring_at a k) 2 \<subseteq> span (avail_idx_at a) (2 + 2 * sz)"
  "k < 32768 \<Longrightarrow> span (avail_ring_at a k) 2 \<inter> span (avail_idx_at a) 2 = {}"
  using span_mono[of 2 "2 + 2 * sz" "avail_idx_at a"]
    span_shift[of "2 + 2 * k" 2 "2 + 2 * sz" "avail_idx_at a"]
    span_apart[of 0 2 "2 + 2 * k" 2 "avail_idx_at a"]
  by (auto simp: avail_idx_at_def avail_ring_at_def ac_simps)

lemma used_parts:
  "span (used_idx_at (t_used l)) 2 \<subseteq> dev_area sz l" "used_area (t_used l) sz \<subseteq> dev_area sz l"
  "sz \<le> 32768 \<Longrightarrow> used_area (t_used l) sz \<inter> span (used_idx_at (t_used l)) 2 = {}"
  using span_apart[of 2 2 4 "8 * sz" "t_used l"]
  by (auto simp: dev_area_def used_area_def used_id_at_def used_idx_at_def)

lemma dev_area_buf [simp]: "dev_area sz (l\<lparr>t_buf := bf\<rparr>) = dev_area sz l"
  by (simp add: dev_area_def)

lemma tx_layoutD:
  assumes "tx_layout sz s"
  shows "tx_wf sz (x_l s) (x_b s) (x_m s)" "sz dvd 65536" "0 < sz" "sz \<le> 32768"
    "length (vq (x_b s)) = 2" "t_avail (x_l s) = vq_avail (vq (x_b s) ! 1)"
    "dev_area sz (x_l s) \<subseteq> dom (x_m s)"
    "span (avail_idx_at (t_avail (x_l s))) 2 \<inter> dev_area sz (x_l s) = {}"
    "span (tx_slot sz s j) 2 \<inter> dev_area sz (x_l s) = {}"
    "span (tx_slot sz s j) 2 \<inter> span (avail_idx_at (t_avail (x_l s))) 2 = {}"
proof -
  from assms show w: "tx_wf sz (x_l s) (x_b s) (x_m s)" and "sz dvd 65536"
    "dev_area sz (x_l s) \<subseteq> dom (x_m s)" by (simp_all add: tx_layout_def)
  from w show sz: "0 < sz" "sz \<le> 32768" "length (vq (x_b s)) = 2"
    "t_avail (x_l s) = vq_avail (vq (x_b s) ! 1)" by (simp_all add: tx_wf_def)
  have k: "unat (x_base s + of_nat j) mod sz < sz" using sz by simp
  show "span (avail_idx_at (t_avail (x_l s))) 2 \<inter> dev_area sz (x_l s) = {}"
    "span (tx_slot sz s j) 2 \<inter> dev_area sz (x_l s) = {}"
    using assms avail_cells(1)[of "t_avail (x_l s)" sz] avail_cells(2)[OF k, of "t_avail (x_l s)"]
    unfolding tx_layout_def tx_slot_def by blast+
  show "span (tx_slot sz s j) 2 \<inter> span (avail_idx_at (t_avail (x_l s))) 2 = {}"
    unfolding tx_slot_def by (rule avail_cells(3)[OF order.strict_trans2[OF k sz(2)]])
qed

lemma tx_chain_agree:
  assumes "tx_chain sz l b m p" "agree_off S m m'" "S \<subseteq> dev_area sz l \<union> span (avail_idx_at (t_avail l)) 2"
  shows "tx_chain sz l b m' p"
  using assms frame_of_agree[OF _ assms(2)] unfolding tx_chain_def by blast

lemma tx_chain_advance:
  "tx_chain sz l b m p \<Longrightarrow> tx_chain sz (l\<lparr>t_buf := bf\<rparr>) (tx_advance n b) m p"
  using frame_of_backend[of b m _ _ _ _ "tx_advance n b"] by (simp add: tx_chain_def) blast

section \<open>Every step keeps the invariant\<close>

lemma tx_front_agree:
  assumes "tx_layout sz s" "tx_front sz s" "agree_off S (x_m s) m'" "S \<subseteq> dev_area sz (x_l s)"
  shows "tx_front sz (s\<lparr>x_m := m'\<rparr>)"
proof -
  note L = tx_layoutD[OF assms(1)]
  have "load16 m' (avail_idx_at (t_avail (x_l s))) = load16 (x_m s) (avail_idx_at (t_avail (x_l s)))"
    by (rule c16.ld_agree[OF assms(3)]) (use L(8) assms(4) in blast)
  moreover have "load16 m' (tx_slot sz s j) = load16 (x_m s) (tx_slot sz s j)" for j
    by (rule c16.ld_agree[OF assms(3)]) (use L(9)[of j] assms(4) in blast)
  moreover have "tx_chain sz (x_l s) (x_b s) (x_m s) p \<Longrightarrow> tx_chain sz (x_l s) (x_b s) m' p" for p
    by (rule tx_chain_agree[OF _ assms(3)]) (use assms(4) in auto)
  ultimately show ?thesis using assms(2) by (simp add: tx_front_def tx_slot_def)
qed

lemma used_entry_agree:
  assumes "agree_off S (x_m s) m'" "used_area (t_used (x_l s)) sz \<inter> S = {}" "0 < sz"
  shows "used_entry sz (s\<lparr>x_m := m'\<rparr>) j h = used_entry sz s j h"
proof -
  have "unat (x_base s + of_nat j) mod sz < sz" using assms(3) by simp
  then have "span (used_id_at (t_used (x_l s)) (unat (x_base s + of_nat j) mod sz)) 8 \<inter> S = {}"
    using assms(2) used_elem_in by blast
  from used_elem_agree[OF assms(1) this] show ?thesis by (simp add: used_entry_def)
qed

lemma tx_back_agree:
  assumes "tx_layout sz s" "tx_back sz s" "agree_off S (x_m s) m'" "dev_area sz (x_l s) \<inter> S = {}"
  shows "tx_back sz (s\<lparr>x_m := m'\<rparr>)"
proof -
  note L = tx_layoutD[OF assms(1)] and U = used_parts[where l = "x_l s" and sz = sz]
  have "load16 m' (used_idx_at (t_used (x_l s))) = load16 (x_m s) (used_idx_at (t_used (x_l s)))"
    by (rule c16.ld_agree[OF assms(3)]) (use assms(4) U(1) in blast)
  moreover have "used_area (t_used (x_l s)) sz \<inter> S = {}" using assms(4) U(2) by blast
  ultimately show ?thesis
    using assms(2) used_entry_agree[OF assms(3) _ L(3)] by (simp add: tx_back_def)
qed

lemma tx_layout_mem:
  "tx_layout sz s \<Longrightarrow> dom m' = dom (x_m s) \<Longrightarrow> tx_layout sz (s\<lparr>x_m := m'\<rparr>)"
  unfolding tx_layout_def tx_wf_def by auto

lemma ghost_simps [simp]:
  "tx_layout sz (s\<lparr>x_pc := pc\<rparr>) = tx_layout sz s" "tx_front sz (s\<lparr>x_pc := pc\<rparr>) = tx_front sz s"
  "tx_back sz (s\<lparr>x_pc := pc\<rparr>) = tx_back sz s" "tx_layout sz (s\<lparr>x_sub := xs\<rparr>) = tx_layout sz s"
  "tx_slot sz (s\<lparr>x_m := m\<rparr>) = tx_slot sz s" "tx_slot sz (s\<lparr>x_sub := xs\<rparr>) = tx_slot sz s"
  by (simp_all add: tx_layout_def tx_front_def tx_back_def tx_slot_def used_entry_def fun_eq_iff)

text \<open>The driver writes something it owns.\<close>

lemma inv_guest_write:
  assumes inv: "tx_inv sz s" and ag: "agree_off G (x_m s) m'" and G: "G \<inter> guest_keeps sz s = {}"
  shows "tx_inv sz (s\<lparr>x_m := m'\<rparr>)"
proof -
  from inv have lay: "tx_layout sz s" and fr: "tx_front sz s" and bk: "tx_back sz s"
    by (simp_all add: tx_inv_def)
  have off: "dev_area sz (x_l s) \<inter> G = {}" "span (avail_idx_at (t_avail (x_l s))) 2 \<inter> G = {}"
    using G unfolding guest_keeps_def by blast+
  have "load16 m' (tx_slot sz s j) = Inr (fst (x_sub s ! j)) \<and> tx_chain sz (x_l s) (x_b s) m' (x_sub s ! j)"
    if j: "length (x_got s) \<le> j" "j < length (x_sub s)" for j
  proof -
    from fr j have ld: "load16 (x_m s) (tx_slot sz s j) = Inr (fst (x_sub s ! j))"
      and ch: "tx_chain sz (x_l s) (x_b s) (x_m s) (x_sub s ! j)" by (simp_all add: tx_front_def)
    have mem: "x_sub s ! j \<in> set (tx_pend s)"
      using j nth_mem[of "j - length (x_got s)" "tx_pend s"] by (simp add: tx_pend_def)
    have "span (tx_slot sz s j) 2 \<inter> G = {}" using G j unfolding guest_keeps_def by auto
    moreover have "F \<inter> G = {}"
      if "frame_of (x_b s) (x_m s) (t_desc (x_l s)) (ucast (fst (x_sub s ! j))) bs F" for bs F
      using G mem that unfolding guest_keeps_def by blast
    ultimately show ?thesis
      using ld ch c16.ld_agree[OF ag] frame_of_agree[OF _ ag] unfolding tx_chain_def by metis
  qed
  then have "tx_front sz (s\<lparr>x_m := m'\<rparr>)"
    using fr c16.ld_agree[OF ag off(2)] by (simp add: tx_front_def)
  moreover have "tx_layout sz (s\<lparr>x_m := m'\<rparr>)"
    using lay ag by (intro tx_layout_mem) (simp_all add: agree_off_def)
  ultimately show ?thesis using inv tx_back_agree[OF lay bk ag off(1)] by (simp add: tx_inv_def)
qed

text \<open>The driver publishes a chain.\<close>

lemma room_in_ring:
  assumes "r \<le> n" "n \<le> r + sz" "sz \<le> 32768"
  shows "unat ((p + of_nat n) - (p + of_nat r) :: u16) = n - r"
proof -
  have "(p + of_nat n) - (p + of_nat r) = (of_nat (n - r) :: u16)" using assms(1) by (simp add: of_nat_diff)
  moreover have "n - r < 65536" using assms(2,3) by simp
  ultimately show ?thesis by (simp add: unat_of_nat)
qed

lemma inv_guest_publish:
  assumes inv: "tx_inv sz s"
    and i: "load16 (x_m s) (avail_idx_at (t_avail (x_l s))) = Inr i"
    and u: "load16 (x_m s) (used_idx_at (t_used (x_l s))) = Inr u" "unat (i - u) < sz"
    and h: "load16 (x_m s) (avail_ring_at (t_avail (x_l s)) (unat i mod sz)) = Inr h"
    and ch: "tx_chain sz (x_l s) (x_b s) (x_m s) (h, fr)"
    and st: "store16 (x_m s) (avail_idx_at (t_avail (x_l s))) (i + 1) = Inr m'"
  shows "tx_inv sz (s\<lparr>x_m := m', x_sub := x_sub s @ [(h, fr)]\<rparr>)"
proof -
  let ?s = "s\<lparr>x_m := m'\<rparr>" and ?n = "length (x_sub s)"
  from inv have lay: "tx_layout sz s" and front: "tx_front sz s" and bkd: "tx_back sz s"
    by (simp_all add: tx_inv_def)
  note L = tx_layoutD[OF lay] and ag = c16.st_agree[OF st]
  from front i have ii: "i = x_base s + of_nat ?n" by (simp add: tx_front_def)
  have slot: "load16 m' (tx_slot sz s j) = load16 (x_m s) (tx_slot sz s j)" for j
    by (rule c16.ld_agree[OF ag L(10)])
  have chain: "tx_chain sz (x_l s) (x_b s) m' p" if "tx_chain sz (x_l s) (x_b s) (x_m s) p" for p
    by (rule tx_chain_agree[OF that ag]) simp
  have "tx_front sz (s\<lparr>x_m := m', x_sub := x_sub s @ [(h, fr)]\<rparr>)"
    using front c16.ld_st[OF st] slot chain ch h
    by (auto simp: tx_front_def ii nth_append tx_slot_def less_Suc_eq ac_simps)
  moreover obtain r where r: "r \<le> length (x_got s)" "?n \<le> r + sz" "u = x_base s + of_nat r"
    using bkd u(1) by (auto simp: tx_back_def)
  have le: "r \<le> ?n" using r(1) inv by (simp add: tx_inv_def)
  have "?n < r + sz"
    using u(2) le unfolding ii r(3) room_in_ring[OF le r(2) L(4)] by simp
  moreover have "tx_back sz ?s" by (rule tx_back_agree[OF lay bkd ag]) (use L(8) in blast)
  then have "used_entry sz ?s j (fst (x_sub s ! j))"
    if "j < length (x_got s)" "length (x_got s) \<le> j + sz" for j
    using that by (simp add: tx_back_def)
  moreover have "load16 m' (used_idx_at (t_used (x_l s))) = Inr u"
    using c16.ld_agree[OF ag, of "used_idx_at (t_used (x_l s))"] L(8) used_parts(1)[where l = "x_l s" and sz = sz] u(1)
    by auto
  moreover have "tx_layout sz ?s" by (rule tx_layout_mem[OF lay c16.st_dom[OF st]])
  ultimately show ?thesis
    using inv r(1,3)
    by (auto simp: tx_inv_def tx_back_def nth_append used_entry_def intro!: exI[of _ r])
qed

text \<open>The thread works on an entry: the next chain is the one it copies.\<close>

lemma tx_inv_pending:
  assumes "tx_inv sz s"
  shows "tx_pending sz (x_l s) (x_b s) (x_m s) (map fst (tx_pend s)) (map snd (tx_pend s))"
proof -
  let ?n = "length (x_got s)"
  have lay: "tx_layout sz s" and front: "tx_front sz s" and n: "?n \<le> length (x_sub s)"
    and la: "last_avail_idx (vq (x_b s) ! 1) = x_base s + of_nat ?n"
    using assms by (simp_all add: tx_inv_def)
  note L = tx_layoutD[OF lay] and U = used_parts(2)[where l = "x_l s" and sz = sz]
  have idx: "x_base s + of_nat (length (x_sub s)) =
      last_avail_idx (vq (x_b s) ! 1) + of_nat (length (tx_pend s))"
    using n unfolding la tx_pend_def by (simp add: of_nat_diff)
  have slot: "avail_ring_at (t_avail (x_l s)) (unat (last_avail_idx (vq (x_b s) ! 1) + of_nat j) mod sz) =
      tx_slot sz s (?n + j)" for j
    by (simp only: la tx_slot_def of_nat_add add.assoc)
  have "load16 (x_m s) (tx_slot sz s (?n + j)) = Inr (fst (tx_pend s ! j)) \<and>
      span (tx_slot sz s (?n + j)) 2 \<inter> used_area (t_used (x_l s)) sz = {} \<and>
      snd (tx_pend s ! j) \<noteq> [] \<and> length (snd (tx_pend s ! j)) < unat MAX_LEN \<and>
      (\<exists>F. frame_of (x_b s) (x_m s) (t_desc (x_l s)) (ucast (fst (tx_pend s ! j))) (snd (tx_pend s ! j)) F \<and>
           F \<inter> used_area (t_used (x_l s)) sz = {})"
    if "j < length (tx_pend s)" for j
  proof -
    have j: "tx_pend s ! j = x_sub s ! (?n + j)" "?n + j < length (x_sub s)"
      using that n by (simp_all add: tx_pend_def)
    with front have "load16 (x_m s) (tx_slot sz s (?n + j)) = Inr (fst (tx_pend s ! j))"
      "tx_chain sz (x_l s) (x_b s) (x_m s) (tx_pend s ! j)" by (simp_all add: tx_front_def)
    with L(9)[of "?n + j"] U show ?thesis unfolding tx_chain_def by blast
  qed
  moreover have "span (avail_idx_at (t_avail (x_l s))) 2 \<inter> used_area (t_used (x_l s)) sz = {}"
    using L(8) U by blast
  ultimately show ?thesis
    using front unfolding tx_pending_def Let_def slot length_map idx[symmetric] tx_front_def by simp
qed

lemma tx_pending_received:
  assumes wf: "tx_wf sz l b m" and p: "tx_pending sz l b m (h # hs) (fr # frs)"
  obtains f0 where "\<And>fuel. f0 \<le> fuel \<Longrightarrow> deq_received fuel l b m = Inr fr"
proof -
  from wf have w: "length (vq b) = 2" "length (t_buf l) = TX_BUF_SIZE" "0 < sz" "sz \<le> 32768"
    "t_size l = of_nat sz" "t_avail l = vq_avail (vq b ! 1)" by (simp_all add: tx_wf_def)
  note N = tx_pending_nth[OF p _ refl, of 0, simplified]
  from N(5) obtain F where F: "frame_of b m (t_desc l) (ucast h) fr F" by blast
  have short: "length fr < 10240" using N(4) by (simp add: MAX_LEN_def)
  obtain f0 where f0: "\<And>fuel. f0 \<le> fuel \<Longrightarrow> deq_chain fuel b m (t_desc l) (ucast h) 0 (t_buf l) =
      Inr (of_nat (length fr), fr @ drop (length fr) (t_buf l))"
    using deq_chain_complete[OF F, of 0 "t_buf l" "[]" 0] short w(2) by auto
  have "unat (of_nat (length fr) :: u32) = length fr" using short by (simp add: unat_of_nat)
  then have "deq_received fuel l b m = Inr fr" if "f0 \<le> fuel" for fuel
    using f0[OF that] N(1) w ring_slot_of_nat[OF w(3,4)] by (simp add: deq_received_def)
  then show ?thesis by (rule that)
qed

lemma used_slot_other:
  assumes "tx_layout sz s" "j < k" "k < j + sz"
  shows "unat (x_base s + of_nat j) mod sz \<noteq> unat (x_base s + of_nat k) mod sz"
proof -
  have k: "x_base s + of_nat k = (x_base s + of_nat j) + of_nat (k - j)"
    using assms(2) by (simp add: of_nat_diff)
  show ?thesis unfolding k
    by (rule slot_distinct[OF tx_layoutD(2)[OF assms(1)]]) (use assms(2,3) in simp_all)
qed

lemma tx_back_entry:
  assumes inv: "tx_inv sz s" and u: "u = unat (x_base s + of_nat (length (x_got s))) mod sz"
    and ag: "agree_off (span (used_id_at (t_used (x_l s)) u) 8) (x_m s) m'"
    and el: "load32 m' (used_id_at (t_used (x_l s)) u) = Inr (ucast (fst (x_sub s ! length (x_got s))))"
      "load32 m' (used_len_at (t_used (x_l s)) u) = Inr 1"
  shows "tx_back sz (s\<lparr>x_m := m', x_got := x_got s @ [fr]\<rparr>)"
proof -
  let ?n = "length (x_got s)" and ?U = "t_used (x_l s)"
  from inv have lay: "tx_layout sz s" and bkd: "tx_back sz s" by (simp_all add: tx_inv_def)
  note L = tx_layoutD[OF lay] and P = used_parts[where l = "x_l s" and sz = sz]
  have us: "u < sz" using u L(3) by simp
  have "span (used_idx_at ?U) 2 \<inter> span (used_id_at ?U u) 8 = {}"
    using P(3)[OF L(4)] used_elem_in[OF us] by blast
  then have idx: "load16 m' (used_idx_at ?U) = load16 (x_m s) (used_idx_at ?U)"
    by (rule c16.ld_agree[OF ag])
  have old: "used_entry sz (s\<lparr>x_m := m'\<rparr>) j h = used_entry sz s j h" if "j < ?n" "?n < j + sz" for j h
  proof -
    let ?k = "unat (x_base s + of_nat j) mod sz"
    have k: "?k < sz" using L(3) by simp
    have "span (used_id_at ?U ?k) 8 \<inter> span (used_id_at ?U u) 8 = {}"
      by (rule used_elem_apart[OF used_slot_other[OF lay that, folded u]
            less_le_trans[OF k L(4)] less_le_trans[OF us L(4)]])
    from used_elem_agree[OF ag this] show ?thesis by (simp add: used_entry_def)
  qed
  have "used_entry sz (s\<lparr>x_m := m'\<rparr>) j (fst (x_sub s ! j))" if "j < Suc ?n" "Suc ?n \<le> j + sz" for j
  proof (cases "j = ?n")
    case True
    with el u show ?thesis by (simp add: used_entry_def)
  next
    case False
    with that old[of j] bkd show ?thesis by (simp add: tx_back_def)
  qed
  moreover have "used_entry sz (s\<lparr>x_m := m', x_got := x_got s @ [fr]\<rparr>) j h = used_entry sz (s\<lparr>x_m := m'\<rparr>) j h" for j h
    by (simp add: used_entry_def)
  moreover have "\<exists>r \<le> Suc ?n. length (x_sub s) \<le> r + sz \<and>
      load16 m' (used_idx_at ?U) = Inr (x_base s + of_nat r)"
    using bkd unfolding tx_back_def idx by (meson le_SucI)
  ultimately show ?thesis by (simp add: tx_back_def)
qed

lemma thread_entry:
  assumes inv: "tx_inv sz s" and pc: "x_pc s = TxEntry"
  obtains l' m' f0 where
    "\<And>fuel. f0 \<le> fuel \<Longrightarrow> tx_thread fuel s =
       Inr (s\<lparr>x_pc := TxCheck, x_l := l', x_b := tx_advance 1 (x_b s), x_m := m',
              x_got := x_got s @ [snd (x_sub s ! length (x_got s))]\<rparr>)"
    "tx_inv sz (s\<lparr>x_pc := TxCheck, x_l := l', x_b := tx_advance 1 (x_b s), x_m := m',
              x_got := x_got s @ [snd (x_sub s ! length (x_got s))]\<rparr>)"
    "t_used l' = t_used (x_l s)"
    "load16 m' (used_idx_at (t_used (x_l s))) = load16 (x_m s) (used_idx_at (t_used (x_l s)))"
proof -
  let ?n = "length (x_got s)" and ?U = "t_used (x_l s)"
  let ?h = "fst (x_sub s ! ?n)" and ?fr = "snd (x_sub s ! ?n)"
  let ?l = "(x_l s)\<lparr>t_buf := ?fr @ drop (length ?fr) (t_buf (x_l s))\<rparr>" and ?b = "tx_advance 1 (x_b s)"
  from inv have lay: "tx_layout sz s" and front: "tx_front sz s" and n: "?n < length (x_sub s)"
    and la: "last_avail_idx (vq (x_b s) ! 1) = x_base s + of_nat ?n"
    and lu: "last_used_idx (vq (x_b s) ! 1) = x_base s + of_nat ?n"
    and got: "x_got s = map snd (take ?n (x_sub s))" using pc by (simp_all add: tx_inv_def)
  note L = tx_layoutD[OF lay]
  let ?u = "unat (last_used_idx (vq (x_b s) ! 1)) mod sz"
  have "tx_pend s = x_sub s ! ?n # drop (Suc ?n) (x_sub s)"
    unfolding tx_pend_def using n by (rule Cons_nth_drop_Suc[symmetric])
  with tx_inv_pending[OF inv] have p: "tx_pending sz (x_l s) (x_b s) (x_m s)
      (?h # map fst (drop (Suc ?n) (x_sub s))) (?fr # map snd (drop (Suc ?n) (x_sub s)))" by simp
  obtain m' f1 where e: "\<And>fuel. f1 \<le> fuel \<Longrightarrow> deq_entry fuel (x_l s) (x_b s) (x_m s) =
       Inr (?l, ?b, m', [Log ''Packet received''])"
    "agree_off (span (used_id_at ?U ?u) 8) (x_m s) m'" "load32 m' (used_id_at ?U ?u) = Inr (ucast ?h)"
    "load32 m' (used_len_at ?U ?u) = Inr 1"
    by (rule tx_pending_entry[OF L(1) p]) (rule that, assumption+)
  have short: "length ?fr < unat MAX_LEN" using tx_pending_nth(4)[OF p, of 0] by simp
  have buf: "length (t_buf (x_l s)) = TX_BUF_SIZE" using L(1) by (simp add: tx_wf_def)
  obtain f2 where rec: "\<And>fuel. f2 \<le> fuel \<Longrightarrow> deq_received fuel (x_l s) (x_b s) (x_m s) = Inr ?fr"
    by (rule tx_pending_received[OF L(1) p]) (rule that)
  let ?s = "s\<lparr>x_pc := TxCheck, x_l := ?l, x_b := ?b, x_m := m', x_got := x_got s @ [?fr]\<rparr>"
  have area: "agree_off (dev_area sz (x_l s)) (x_m s) m'"
    using e(2) used_elem_in[of ?u sz ?U] used_parts(2)[where l = "x_l s" and sz = sz] L(3)
    by (blast intro: agree_off_mono mod_less_divisor)
  have "tx_layout sz ?s"
    using tx_layout_mem[OF lay, of m'] area tx_wf_step[OF L(1) area, of "t_buf ?l"] short buf
    by (auto simp: tx_layout_def agree_off_def MAX_LEN_def TX_BUF_SIZE_def)
  moreover have "tx_front sz ?s"
    using tx_front_agree[OF lay front area] tx_chain_advance[of sz "x_l s" "x_b s" m']
    by (auto simp: tx_front_def tx_slot_def)
  moreover have "tx_back sz ?s"
    using tx_back_entry[OF inv, of ?u m' ?fr] e(2-4) lu by (simp add: tx_back_def used_entry_def)
  moreover have "map snd (take (Suc ?n) (x_sub s)) = x_got s @ [?fr]"
    using n got by (simp add: take_Suc_conv_app_nth)
  ultimately have "tx_inv sz ?s" using L(5) la lu n by (simp add: tx_inv_def ac_simps)
  moreover have "tx_thread fuel s = Inr ?s" if "max f1 f2 \<le> fuel" for fuel
    using that e(1)[of fuel] rec[of fuel] pc by (simp add: tx_thread_def)
  moreover have "span (used_idx_at ?U) 2 \<inter> span (used_id_at ?U ?u) 8 = {}"
    using used_parts(3)[OF L(4), of "x_l s"] used_elem_in[of ?u sz ?U] L(3) by fastforce
  then have "load16 m' (used_idx_at ?U) = load16 (x_m s) (used_idx_at ?U)"
    by (rule c16.ld_agree[OF e(2)])
  moreover have "t_used ?l = ?U" by simp
  ultimately show ?thesis using that by blast
qed

text \<open>The thread looks at the available index, or publishes the used index.\<close>

lemma thread_check:
  assumes inv: "tx_inv sz s" and pc: "x_pc s = TxCheck"
  shows "tx_thread fuel s = Inr (s\<lparr>x_pc := (if tx_pend s = [] then TxPublish else TxEntry)\<rparr>)"
    "tx_inv sz (s\<lparr>x_pc := (if tx_pend s = [] then TxPublish else TxEntry)\<rparr>)"
proof -
  let ?n = "length (x_got s)" and ?p = "length (tx_pend s)"
  from inv have L: "tx_layout sz s" and front: "tx_front sz s" and n: "?n \<le> length (x_sub s)"
    and la: "last_avail_idx (vq (x_b s) ! 1) = x_base s + of_nat ?n"
    and r: "length (x_sub s) \<le> ?n + sz" by (auto simp: tx_inv_def tx_back_def)
  have p: "length (x_sub s) = ?n + ?p" "?p < 65536"
    using n r tx_layoutD(4)[OF L] by (simp_all add: tx_pend_def)
  have "load16 (x_m s) (avail_idx_at (t_avail (x_l s))) = Inr ((x_base s + of_nat ?n) + of_nat ?p)"
    using front p(1) by (simp add: tx_front_def ac_simps)
  moreover have "(x_base s + of_nat ?n = (x_base s + of_nat ?n) + of_nat ?p) = (tx_pend s = [])"
    using pending_differs[OF _ p(2), of "x_base s + of_nat ?n"] by (cases "tx_pend s = []") simp_all
  ultimately show "tx_thread fuel s = Inr (s\<lparr>x_pc := (if tx_pend s = [] then TxPublish else TxEntry)\<rparr>)"
    using pc la tx_layoutD(5)[OF L] unfolding tx_thread_def by simp
  have "tx_pend s \<noteq> [] \<Longrightarrow> ?n < length (x_sub s)" by (simp add: tx_pend_def)
  with inv show "tx_inv sz (s\<lparr>x_pc := (if tx_pend s = [] then TxPublish else TxEntry)\<rparr>)"
    by (simp add: tx_inv_def)
qed

lemma thread_publish:
  assumes inv: "tx_inv sz s" and pc: "x_pc s = TxPublish"
  obtains m' where "\<And>fuel. tx_thread fuel s = Inr (s\<lparr>x_pc := TxCheck, x_m := m'\<rparr>)"
    "tx_inv sz (s\<lparr>x_pc := TxCheck, x_m := m'\<rparr>)"
    "load16 m' (used_idx_at (t_used (x_l s))) = Inr (x_base s + of_nat (length (x_got s)))"
proof -
  let ?U = "t_used (x_l s)" and ?i = "x_base s + of_nat (length (x_got s))"
  from inv have lay: "tx_layout sz s" and front: "tx_front sz s" and bkd: "tx_back sz s"
    and lu: "last_used_idx (vq (x_b s) ! 1) = ?i" by (simp_all add: tx_inv_def)
  note L = tx_layoutD[OF lay] and P = used_parts[where l = "x_l s" and sz = sz]
  obtain m' where m': "store16 (x_m s) (used_idx_at ?U) ?i = Inr m'"
    using c16.st_ok[of "used_idx_at ?U" "x_m s" ?i] P(1) L(7) by blast
  note ag = c16.st_agree[OF m']
  have "used_entry sz (s\<lparr>x_m := m'\<rparr>) j h = used_entry sz s j h" for j h
    by (rule used_entry_agree[OF ag P(3)[OF L(4)] L(3)])
  moreover have "length (x_sub s) \<le> length (x_got s) + sz" using bkd by (auto simp: tx_back_def)
  ultimately have "tx_back sz (s\<lparr>x_m := m'\<rparr>)"
    using bkd c16.ld_st[OF m'] by (auto simp: tx_back_def)
  moreover have "tx_front sz (s\<lparr>x_m := m'\<rparr>)" by (rule tx_front_agree[OF lay front ag P(1)])
  moreover have "tx_layout sz (s\<lparr>x_m := m'\<rparr>)" by (rule tx_layout_mem[OF lay c16.st_dom[OF m']])
  moreover have "s\<lparr>x_pc := TxCheck, x_m := m'\<rparr> = s\<lparr>x_m := m'\<rparr>\<lparr>x_pc := TxCheck\<rparr>" by simp
  ultimately have "tx_inv sz (s\<lparr>x_pc := TxCheck, x_m := m'\<rparr>)"
    using inv by (simp only: tx_inv_def ghost_simps) simp
  moreover have "tx_thread fuel s = Inr (s\<lparr>x_pc := TxCheck, x_m := m'\<rparr>)" for fuel
    using pc L(5) lu m' unfolding tx_thread_def by simp
  ultimately show ?thesis using that c16.ld_st[OF m'] by blast
qed

section \<open>The abstract queue\<close>

text \<open>Chains wait, are held by the device once their frame was taken, and go back in order. At most
  \<open>sz\<close> of them are out at any time.\<close>

record txq =
  q_wait :: "(u16 \<times> u8 list) list"
  q_held :: "u16 list"
  q_got :: "u8 list list"
  q_back :: "u16 list"

definition txq_empty :: txq where
  "txq_empty = \<lparr>q_wait = [], q_held = [], q_got = [], q_back = []\<rparr>"

inductive txq_step :: "nat \<Rightarrow> txq \<Rightarrow> txq \<Rightarrow> bool" for sz :: nat where
  q_submit: "length (q_wait q) + length (q_held q) < sz \<Longrightarrow>
     txq_step sz q (q\<lparr>q_wait := q_wait q @ [p]\<rparr>)"
| q_take: "q_wait q = (h, fr) # w \<Longrightarrow>
     txq_step sz q (q\<lparr>q_wait := w, q_held := q_held q @ [h], q_got := q_got q @ [fr]\<rparr>)"
| q_return: "txq_step sz q (q\<lparr>q_held := [], q_back := q_back q @ q_held q\<rparr>)"

inductive txq_reach :: "nat \<Rightarrow> txq \<Rightarrow> bool" for sz :: nat where
  q_start: "txq_reach sz txq_empty"
| q_more: "txq_reach sz q \<Longrightarrow> txq_step sz q q' \<Longrightarrow> txq_reach sz q'"

text \<open>What the two sides can observe of the queue in the shared memory.\<close>

definition tx_shows :: "nat \<Rightarrow> tx_sys \<Rightarrow> txq \<Rightarrow> bool" where
  "tx_shows sz s q \<longleftrightarrow>
     x_got s = q_got q \<and> tx_pend s = q_wait q \<and>
     map snd (x_sub s) = q_got q @ map snd (q_wait q) \<and>
     map fst (x_sub s) = q_back q @ q_held q @ map fst (q_wait q) \<and>
     load16 (x_m s) (avail_idx_at (t_avail (x_l s))) =
       Inr (x_base s + of_nat (length (q_got q) + length (q_wait q))) \<and>
     load16 (x_m s) (used_idx_at (t_used (x_l s))) = Inr (x_base s + of_nat (length (q_back q))) \<and>
     (\<forall>j < length (q_back q). length (q_back q) + length (q_held q) \<le> j + sz \<longrightarrow>
        used_entry sz s j (q_back q ! j))"

definition tx_sim :: "nat \<Rightarrow> tx_sys \<Rightarrow> txq \<Rightarrow> bool" where
  "tx_sim sz s q \<longleftrightarrow> tx_inv sz s \<and> q_got q = x_got s \<and> q_wait q = tx_pend s \<and>
     q_back q @ q_held q = map fst (take (length (x_got s)) (x_sub s)) \<and>
     length (x_sub s) \<le> length (q_back q) + sz \<and>
     load16 (x_m s) (used_idx_at (t_used (x_l s))) = Inr (x_base s + of_nat (length (q_back q)))"

lemma tx_sim_shows:
  assumes "tx_sim sz s q"
  shows "tx_shows sz s q"
proof -
  let ?n = "length (x_got s)"
  from assms have inv: "tx_inv sz s" and q: "q_got q = x_got s" "q_wait q = tx_pend s"
    "q_back q @ q_held q = map fst (take ?n (x_sub s))"
    "load16 (x_m s) (used_idx_at (t_used (x_l s))) = Inr (x_base s + of_nat (length (q_back q)))"
    by (simp_all add: tx_sim_def)
  have n: "?n \<le> length (x_sub s)" using inv by (simp add: tx_inv_def)
  have cat: "map fst (x_sub s) = q_back q @ q_held q @ map fst (tx_pend s)"
    unfolding append_assoc[symmetric] q(3) tx_pend_def by (simp flip: map_append)
  have lens: "length (q_back q) + length (q_held q) = ?n" "length (x_sub s) = ?n + length (tx_pend s)"
    using arg_cong[OF q(3), of length] n by (simp_all add: tx_pend_def)
  have "fst (x_sub s ! j) = q_back q ! j" if "j < length (q_back q)" for j
    using that arg_cong[OF cat, of "\<lambda>xs. xs ! j"] lens by (simp add: nth_append)
  moreover have "\<forall>j < ?n. ?n \<le> j + sz \<longrightarrow> used_entry sz s j (fst (x_sub s ! j))"
    using inv by (simp add: tx_inv_def tx_back_def)
  ultimately have "\<forall>j < length (q_back q). ?n \<le> j + sz \<longrightarrow> used_entry sz s j (q_back q ! j)"
    using lens(1) by (metis trans_less_add1)
  moreover have "load16 (x_m s) (avail_idx_at (t_avail (x_l s))) =
      Inr (x_base s + of_nat (?n + length (tx_pend s)))"
    using inv lens by (simp add: tx_inv_def tx_front_def)
  moreover have "x_got s = map snd (take ?n (x_sub s))" using inv by (simp add: tx_inv_def)
  then have "map snd (x_sub s) = x_got s @ map snd (tx_pend s)"
    by (metis append_take_drop_id map_append tx_pend_def)
  ultimately show ?thesis unfolding tx_shows_def q(1,2) lens(1) using cat q(4) by blast
qed

section \<open>Simulation\<close>

lemma sim_thread:
  assumes sim: "tx_sim sz s q" and st: "tx_thread fuel s = Inr s'"
  shows "\<exists>q'. (q' = q \<or> txq_step sz q q') \<and> tx_sim sz s' q'"
proof -
  from sim have inv: "tx_inv sz s" and q: "q_got q = x_got s" "q_wait q = tx_pend s"
    "q_back q @ q_held q = map fst (take (length (x_got s)) (x_sub s))" by (simp_all add: tx_sim_def)
  show ?thesis
  proof (cases "x_pc s")
    case TxCheck
    from thread_check[OF inv TxCheck] st obtain pc where s': "s' = s\<lparr>x_pc := pc\<rparr>" and inv': "tx_inv sz s'"
      by auto
    have "tx_sim sz s' q" using sim inv' unfolding s' by (simp add: tx_sim_def tx_pend_def)
    then show ?thesis by blast
  next
    case TxEntry
    let ?n = "length (x_got s)"
    let ?p = "x_sub s ! ?n"
    obtain l' m' f0 where e: "\<And>fuel. f0 \<le> fuel \<Longrightarrow> tx_thread fuel s =
        Inr (s\<lparr>x_pc := TxCheck, x_l := l', x_b := tx_advance 1 (x_b s), x_m := m', x_got := x_got s @ [snd ?p]\<rparr>)"
      and e': "tx_inv sz (s\<lparr>x_pc := TxCheck, x_l := l', x_b := tx_advance 1 (x_b s), x_m := m',
        x_got := x_got s @ [snd ?p]\<rparr>)" "t_used l' = t_used (x_l s)"
        "load16 m' (used_idx_at (t_used (x_l s))) = load16 (x_m s) (used_idx_at (t_used (x_l s)))"
      by (rule thread_entry[OF inv TxEntry]) blast
    have "tx_thread (max f0 fuel) s = Inr s'"
      by (rule le_resD[OF tx_thread_mono st]) simp
    with e[of "max f0 fuel"] have s': "s' = s\<lparr>x_pc := TxCheck, x_l := l', x_b := tx_advance 1 (x_b s),
        x_m := m', x_got := x_got s @ [snd ?p]\<rparr>" by simp
    have n: "?n < length (x_sub s)" using inv TxEntry by (simp add: tx_inv_def)
    then have w: "tx_pend s = (fst ?p, snd ?p) # drop (Suc ?n) (x_sub s)"
      unfolding tx_pend_def prod.collapse by (rule Cons_nth_drop_Suc[symmetric])
    let ?q = "q\<lparr>q_wait := drop (Suc ?n) (x_sub s), q_held := q_held q @ [fst ?p], q_got := q_got q @ [snd ?p]\<rparr>"
    have "txq_step sz q ?q" by (rule q_take) (use q(2) w in simp)
    moreover have "tx_sim sz s' ?q"
      using sim e' n q unfolding s'
      by (simp add: tx_sim_def tx_pend_def take_Suc_conv_app_nth flip: append_assoc)
    ultimately show ?thesis by blast
  next
    case TxPublish
    obtain m' where e: "\<And>fuel. tx_thread fuel s = Inr (s\<lparr>x_pc := TxCheck, x_m := m'\<rparr>)"
      "tx_inv sz (s\<lparr>x_pc := TxCheck, x_m := m'\<rparr>)"
      "load16 m' (used_idx_at (t_used (x_l s))) = Inr (x_base s + of_nat (length (x_got s)))"
      by (rule thread_publish[OF inv TxPublish]) (rule that)
    have s': "s' = s\<lparr>x_pc := TxCheck, x_m := m'\<rparr>" using e(1) st by simp
    let ?q = "q\<lparr>q_held := [], q_back := q_back q @ q_held q\<rparr>"
    have len: "length (q_back q @ q_held q) = length (x_got s)"
      using q(3) inv by (simp add: tx_inv_def)
    have "length (x_sub s) \<le> length (x_got s) + sz"
      using inv by (auto simp: tx_inv_def tx_back_def)
    then have "tx_sim sz s' ?q"
      using sim e(2,3) len q unfolding s' by (simp add: tx_sim_def tx_pend_def)
    then show ?thesis using q_return by blast
  qed
qed

lemma sim_step:
  assumes "tx_step sz s s'" "tx_sim sz s q"
  shows "\<exists>q'. (q' = q \<or> txq_step sz q q') \<and> tx_sim sz s' q'"
  using assms
proof (induction rule: tx_step.cases)
  case (thread fuel s s')
  then show ?case using sim_thread by blast
next
  case (guest_write G s m')
  then have inv: "tx_inv sz s" by (simp add: tx_sim_def)
  have "span (used_idx_at (t_used (x_l s))) 2 \<inter> G = {}"
    using guest_write used_parts(1)[where l = "x_l s" and sz = sz] unfolding guest_keeps_def by blast
  from c16.ld_agree[OF guest_write(3) this] inv_guest_write[OF inv guest_write(3,4)]
  have "tx_sim sz s' q" using guest_write by (simp add: tx_sim_def tx_pend_def)
  then show ?case by blast
next
  case (guest_publish s i u h fr m')
  then have inv: "tx_inv sz s" and q: "q_wait q = tx_pend s" "q_got q = x_got s"
    "q_back q @ q_held q = map fst (take (length (x_got s)) (x_sub s))"
    "length (x_sub s) \<le> length (q_back q) + sz" and u: "u = x_base s + of_nat (length (q_back q))"
    and i: "i = x_base s + of_nat (length (x_sub s))"
    by (simp_all add: tx_sim_def tx_inv_def tx_front_def)
  have n: "length (x_got s) \<le> length (x_sub s)" and lay: "tx_layout sz s"
    using inv by (simp_all add: tx_inv_def)
  have len: "length (q_back q) + length (q_held q) = length (x_got s)"
    using arg_cong[OF q(3), of length] n by simp
  with n have le: "length (q_back q) \<le> length (x_sub s)" by simp
  have room: "length (x_sub s) < length (q_back q) + sz"
    using guest_publish(5) le unfolding u i room_in_ring[OF le q(4) tx_layoutD(4)[OF lay]] by simp
  let ?q = "q\<lparr>q_wait := q_wait q @ [(h, fr)]\<rparr>"
  have "txq_step sz q ?q"
    by (rule q_submit) (use room len n q(1) in \<open>simp add: tx_pend_def\<close>)
  moreover have "load16 m' (used_idx_at (t_used (x_l s))) = load16 (x_m s) (used_idx_at (t_used (x_l s)))"
    by (rule c16.ld_agree[OF c16.st_agree[OF guest_publish(8)]])
       (use tx_layoutD(8)[OF lay] used_parts(1)[where l = "x_l s" and sz = sz] in blast)
  then have "tx_sim sz s' ?q"
    using inv_guest_publish[OF inv guest_publish(3-8)] guest_publish q room n
    by (simp add: tx_sim_def tx_pend_def)
  ultimately show ?case by blast
qed

section \<open>Reachable states\<close>

text \<open>The thread starts with empty rings: both indices of each ring have the value \<open>x_base\<close>.\<close>

definition tx_init :: "nat \<Rightarrow> tx_sys \<Rightarrow> bool" where
  "tx_init sz s \<longleftrightarrow>
     tx_layout sz s \<and> x_pc s = TxCheck \<and> x_sub s = [] \<and> x_got s = [] \<and>
     last_avail_idx (vq (x_b s) ! 1) = x_base s \<and> last_used_idx (vq (x_b s) ! 1) = x_base s \<and>
     load16 (x_m s) (avail_idx_at (t_avail (x_l s))) = Inr (x_base s) \<and>
     load16 (x_m s) (used_idx_at (t_used (x_l s))) = Inr (x_base s)"

lemma tx_init_sim: "tx_init sz s \<Longrightarrow> tx_sim sz s txq_empty"
  by (simp add: tx_init_def tx_sim_def tx_inv_def tx_front_def tx_back_def tx_pend_def txq_empty_def)

lemma tx_reach_sim:
  "tx_reach sz s s' \<Longrightarrow> tx_init sz s \<Longrightarrow> \<exists>q. txq_reach sz q \<and> tx_sim sz s' q"
proof (induction rule: tx_reach.induct)
  case reach_refl
  then show ?case using tx_init_sim q_start by blast
next
  case (reach_step s' s'')
  then show ?case using sim_step q_more by blast
qed

lemma tx_reach_inv: "tx_reach sz s s' \<Longrightarrow> tx_init sz s \<Longrightarrow> tx_inv sz s'"
  using tx_reach_sim unfolding tx_sim_def by blast

lemma tx_inv_sim:
  assumes "tx_inv sz s"
  obtains q where "tx_sim sz s q"
proof -
  let ?n = "length (x_got s)"
  from assms obtain r where r: "r \<le> ?n" "length (x_sub s) \<le> r + sz"
    "load16 (x_m s) (used_idx_at (t_used (x_l s))) = Inr (x_base s + of_nat r)"
    by (auto simp: tx_inv_def tx_back_def)
  have "?n \<le> length (x_sub s)" using assms by (simp add: tx_inv_def)
  moreover have "map fst (take r (take ?n (x_sub s))) @ map fst (drop r (take ?n (x_sub s))) =
      map fst (take ?n (x_sub s))" by (simp only: map_append[symmetric] append_take_drop_id)
  ultimately have "tx_sim sz s \<lparr>q_wait = tx_pend s, q_held = map fst (drop r (take ?n (x_sub s))),
      q_got = x_got s, q_back = map fst (take r (take ?n (x_sub s)))\<rparr>"
    unfolding tx_sim_def using r assms by (simp add: min_absorb1)
  then show ?thesis by (rule that)
qed

lemma tx_step_inv: "tx_step sz s s' \<Longrightarrow> tx_inv sz s \<Longrightarrow> tx_inv sz s'"
  by (rule tx_inv_sim, assumption) (use sim_step in \<open>auto simp: tx_sim_def\<close>)

lemma thread_total:
  assumes "tx_inv sz s"
  shows "\<exists>f0 s'. \<forall>fuel \<ge> f0. tx_thread fuel s = Inr s'"
proof (cases "x_pc s")
  case TxCheck
  then show ?thesis using thread_check[OF assms] by blast
next
  case TxEntry
  show ?thesis by (rule thread_entry[OF assms TxEntry]) blast
next
  case TxPublish
  show ?thesis by (rule thread_publish[OF assms TxPublish]) blast
qed

text \<open>Left alone, the thread empties the ring.\<close>

lemma drain_from_check:
  assumes "tx_inv sz s" "x_pc s = TxCheck"
  shows "\<exists>f0 s'. (\<forall>fuel \<ge> f0. tx_run (2 * length (tx_pend s) + 2) fuel s = Inr s') \<and>
    x_got s' = map snd (x_sub s) \<and> x_sub s' = x_sub s \<and>
    load16 (x_m s') (used_idx_at (t_used (x_l s))) = Inr (x_base s + of_nat (length (x_sub s)))"
  using assms
proof (induction "length (tx_pend s)" arbitrary: s)
  case 0
  then have got: "length (x_got s) = length (x_sub s)" by (simp add: tx_pend_def tx_inv_def)
  let ?s = "s\<lparr>x_pc := TxPublish\<rparr>"
  have c: "tx_thread fuel s = Inr ?s" "tx_inv sz ?s" for fuel
    using thread_check[OF 0(2,3)] 0(1) by auto
  obtain m' where m': "\<And>fuel. tx_thread fuel ?s = Inr (?s\<lparr>x_pc := TxCheck, x_m := m'\<rparr>)"
    "load16 m' (used_idx_at (t_used (x_l s))) = Inr (x_base s + of_nat (length (x_got s)))"
    using thread_publish[OF c(2)] by auto
  have "x_got s = map snd (x_sub s)" using 0(2) got by (simp add: tx_inv_def)
  with 0(1) c(1) m' got show ?case
    by (intro exI[of _ 0] exI[of _ "s\<lparr>x_pc := TxCheck, x_m := m'\<rparr>"]) (simp add: numeral_2_eq_2)
next
  case (Suc k)
  let ?s = "s\<lparr>x_pc := TxEntry\<rparr>" and ?n = "length (x_got s)"
  have c: "tx_thread fuel s = Inr ?s" "tx_inv sz ?s" for fuel
    using thread_check[OF Suc(3,4)] Suc(2) by (cases "tx_pend s", simp, simp)+
  obtain l' m' f1 where e: "\<And>fuel. f1 \<le> fuel \<Longrightarrow> tx_thread fuel ?s =
      Inr (?s\<lparr>x_pc := TxCheck, x_l := l', x_b := tx_advance 1 (x_b s), x_m := m', x_got := x_got s @ [snd (x_sub s ! ?n)]\<rparr>)"
    and e': "tx_inv sz (?s\<lparr>x_pc := TxCheck, x_l := l', x_b := tx_advance 1 (x_b s), x_m := m',
      x_got := x_got s @ [snd (x_sub s ! ?n)]\<rparr>)" "t_used l' = t_used (x_l s)"
    by (rule thread_entry[OF c(2)]) auto
  let ?t = "?s\<lparr>x_pc := TxCheck, x_l := l', x_b := tx_advance 1 (x_b s), x_m := m', x_got := x_got s @ [snd (x_sub s ! ?n)]\<rparr>"
  have k: "k = length (tx_pend ?t)" using Suc(2) by (simp add: tx_pend_def)
  obtain f2 s' where ih: "\<And>fuel. f2 \<le> fuel \<Longrightarrow> tx_run (2 * length (tx_pend ?t) + 2) fuel ?t = Inr s'"
    "x_got s' = map snd (x_sub s)" "x_sub s' = x_sub s"
    "load16 (x_m s') (used_idx_at (t_used (x_l s))) = Inr (x_base s + of_nat (length (x_sub s)))"
    using Suc(1)[OF k e'(1)] e'(2) by auto
  have "tx_run (2 * length (tx_pend s) + 2) fuel s = Inr s'" if "max f1 f2 \<le> fuel" for fuel
    using that e[of fuel] ih(1)[of fuel] c(1) Suc(2)[symmetric] k[symmetric] by simp
  with ih(2-4) show ?case by blast
qed

lemma thread_keeps:
  "tx_thread fuel s = Inr s' \<Longrightarrow>
   x_sub s' = x_sub s \<and> x_base s' = x_base s \<and> t_used (x_l s') = t_used (x_l s) \<and>
   (x_pc s \<noteq> TxCheck \<longrightarrow> x_pc s' = TxCheck \<and> length (x_got s) \<le> length (x_got s'))"
  by (auto simp: tx_thread_def deq_entry_def bindE_eq_Inr_iff split: tx_pc.splits if_splits)

lemma drain_any:
  assumes inv: "tx_inv sz s"
  shows "\<exists>k f0 s'. k \<le> 2 * length (tx_pend s) + 3 \<and> (\<forall>fuel \<ge> f0. tx_run k fuel s = Inr s') \<and>
    x_got s' = map snd (x_sub s) \<and> x_sub s' = x_sub s \<and>
    load16 (x_m s') (used_idx_at (t_used (x_l s))) = Inr (x_base s + of_nat (length (x_sub s)))"
proof (cases "x_pc s = TxCheck")
  case True
  have "2 * length (tx_pend s) + 2 \<le> 2 * length (tx_pend s) + 3" by simp
  with drain_from_check[OF inv True] show ?thesis by blast
next
  case False
  obtain f1 s1 where s1: "\<And>fuel. f1 \<le> fuel \<Longrightarrow> tx_thread fuel s = Inr s1"
    using thread_total[OF inv] by blast
  note K = thread_keeps[OF s1[OF order_refl]]
  have inv1: "tx_inv sz s1" by (rule tx_step_inv[OF thread[OF s1[OF order_refl]] inv])
  have pc: "x_pc s1 = TxCheck" using K False by blast
  have p: "length (tx_pend s1) \<le> length (tx_pend s)" using K False by (auto simp: tx_pend_def)
  obtain f2 s' where d: "\<And>fuel. f2 \<le> fuel \<Longrightarrow> tx_run (2 * length (tx_pend s1) + 2) fuel s1 = Inr s'"
    "x_got s' = map snd (x_sub s)" "x_sub s' = x_sub s"
    "load16 (x_m s') (used_idx_at (t_used (x_l s))) = Inr (x_base s + of_nat (length (x_sub s)))"
    using drain_from_check[OF inv1 pc] K by auto
  have "tx_run (Suc (2 * length (tx_pend s1) + 2)) fuel s = Inr s'" if "max f1 f2 \<le> fuel" for fuel
    unfolding tx_run.simps(2) using that s1[of fuel] d(1)[of fuel] by simp
  moreover have "Suc (2 * length (tx_pend s1) + 2) \<le> 2 * length (tx_pend s) + 3" using p by simp
  ultimately show ?thesis using d(2-4) by blast
qed

section \<open>Why an entry is one step\<close>

text \<open>The work on one entry takes many accesses to the shared memory. It reads the ring slot and the chain,
  which the driver has handed over, and writes an element of the used ring, which the driver does
  not read before \<^verbatim>\<open>used->idx\<close> covers it. Whatever the driver writes elsewhere in the meantime could
  as well have been written before or after: the thread computes the same, and the two memories
  differ at most where the driver wrote.\<close>

definition entry_cells :: "nat \<Rightarrow> tx_sys \<Rightarrow> u64 set" where
  "entry_cells sz s =
     dev_area sz (x_l s) \<union> span (tx_slot sz s (length (x_got s))) 2 \<union>
     {a. \<exists>fr F. frame_of (x_b s) (x_m s) (t_desc (x_l s)) (ucast (fst (x_sub s ! length (x_got s)))) fr F \<and> a \<in> F}"

lemma load32_bytes:
  assumes "load32 m a = Inr v" "load32 m' a = Inr v" "x \<in> span a 4"
  shows "m' x = m x"
proof -
  from assms(1,2) obtain bs cs where b: "load m a 4 = Inr bs" "load m' a 4 = Inr cs"
    "le_word bs = v" "le_word cs = v" by (auto simp: load32_def bindE_eq_Inr_iff)
  have len: "length bs = 4" "length cs = 4" using load_length b(1,2) by blast+
  then have "bs = cs"
    using le_bytes_le_word[of bs, where 'a = 32] le_bytes_le_word[of cs, where 'a = 32] b(3,4) by simp
  moreover obtain i where "i < 4" "x = a + of_nat i" using assms(3) by (auto simp: span_def)
  ultimately show ?thesis using load_bytes[OF b(1)] load_bytes[OF b(2)] by simp
qed

lemma used_elem_split: "span (used_id_at u k) 8 = span (used_id_at u k) 4 \<union> span (used_len_at u k) 4"
proof -
  have "used_len_at u k = used_id_at u k + of_nat 4" by (simp add: used_id_at_def used_len_at_def)
  moreover have "{..<8::nat} = {..<4} \<union> (\<lambda>i. 4 + i) ` {..<4}"
    using image_add_atLeastLessThan[of 4 0 "4 :: nat"] by (auto simp: lessThan_atLeast0)
  ultimately show ?thesis by (auto simp: span_def image_Un image_image ac_simps)
qed

lemma entry_commutes:
  assumes inv: "tx_inv sz s" and pc: "x_pc s = TxEntry"
    and ag: "agree_off G (x_m s) m1" and G: "G \<inter> entry_cells sz s = {}"
  shows "\<exists>f0 l' b' m' m1' es. \<forall>fuel \<ge> f0.
    deq_entry fuel (x_l s) (x_b s) (x_m s) = Inr (l', b', m', es) \<and>
    deq_entry fuel (x_l s) (x_b s) m1 = Inr (l', b', m1', es) \<and> agree_off G m' m1'"
proof -
  let ?n = "length (x_got s)" and ?U = "t_used (x_l s)"
  let ?h = "fst (x_sub s ! ?n)" and ?fr = "snd (x_sub s ! ?n)"
  let ?u = "unat (last_used_idx (vq (x_b s) ! 1)) mod sz" and ?a = "unat (last_avail_idx (vq (x_b s) ! 1)) mod sz"
  from inv have lay: "tx_layout sz s" and front: "tx_front sz s" and n: "?n < length (x_sub s)"
    and la: "last_avail_idx (vq (x_b s) ! 1) = x_base s + of_nat ?n"
    using pc by (simp_all add: tx_inv_def)
  note L = tx_layoutD[OF lay]
  have w: "length (t_buf (x_l s)) = TX_BUF_SIZE" "t_size (x_l s) = of_nat sz"
    using L(1) by (simp_all add: tx_wf_def)
  have slots: "ring_slot i (t_size (x_l s)) = Inr (unat i mod sz)" for i
    using ring_slot_of_nat[OF L(3,4)] w(2) by simp
  from front n have ld: "load16 (x_m s) (tx_slot sz s ?n) = Inr ?h"
    and "tx_chain sz (x_l s) (x_b s) (x_m s) (x_sub s ! ?n)" by (simp_all add: tx_front_def)
  then obtain F where F: "frame_of (x_b s) (x_m s) (t_desc (x_l s)) (ucast ?h) ?fr F"
    and fr: "?fr \<noteq> []" "length ?fr < 10240" by (auto simp: tx_chain_def MAX_LEN_def)
  have off: "F \<inter> G = {}" "span (tx_slot sz s ?n) 2 \<inter> G = {}" "dev_area sz (x_l s) \<inter> G = {}"
    using G F unfolding entry_cells_def by blast+
  have slot: "avail_ring_at (vq_avail (vq (x_b s) ! 1)) ?a = tx_slot sz s ?n"
    unfolding la tx_slot_def L(6) ..
  have el: "span (used_id_at ?U ?u) 8 \<subseteq> dev_area sz (x_l s)"
    using used_elem_in[of ?u sz ?U] used_parts(2)[where l = "x_l s" and sz = sz] L(3) by auto
  have dom: "span (used_id_at ?U ?u) 8 \<subseteq> dom (x_m s)" "span (used_id_at ?U ?u) 8 \<subseteq> dom m1"
    using el L(7) ag by (auto simp: agree_off_def)
  let ?l = "(x_l s)\<lparr>t_buf := ?fr @ drop (length ?fr) (t_buf (x_l s))\<rparr>"
  obtain m' f1 where e: "\<And>fuel. f1 \<le> fuel \<Longrightarrow> deq_entry fuel (x_l s) (x_b s) (x_m s) =
       Inr (?l, tx_advance 1 (x_b s), m', [Log ''Packet received''])"
    "agree_off (span (used_id_at ?U ?u) 8) (x_m s) m'"
    "load32 m' (used_id_at ?U ?u) = Inr (ucast ?h)" "load32 m' (used_len_at ?U ?u) = Inr 1"
    by (rule deq_entry_ok[OF L(5) w(1) slots ld[folded slot] slots F fr dom(1)]) (rule that, assumption+)
  have ld1: "load16 m1 (tx_slot sz s ?n) = Inr ?h" using c16.ld_agree[OF ag off(2)] ld by simp
  obtain m1' f2 where e1: "\<And>fuel. f2 \<le> fuel \<Longrightarrow> deq_entry fuel (x_l s) (x_b s) m1 =
       Inr (?l, tx_advance 1 (x_b s), m1', [Log ''Packet received''])"
    "agree_off (span (used_id_at ?U ?u) 8) m1 m1'"
    "load32 m1' (used_id_at ?U ?u) = Inr (ucast ?h)" "load32 m1' (used_len_at ?U ?u) = Inr 1"
    by (rule deq_entry_ok[OF L(5) w(1) slots ld1[folded slot] slots frame_of_agree[OF F ag off(1)] fr dom(2)])
       (rule that, assumption+)
  have "m1' x = m' x" if "x \<notin> G" for x
  proof (cases "x \<in> span (used_id_at ?U ?u) 8")
    case True
    then show ?thesis unfolding used_elem_split
      using load32_bytes[OF e(3) e1(3)] load32_bytes[OF e(4) e1(4)] by blast
  next
    case False
    with e(2) e1(2) ag that show ?thesis by (simp add: agree_off_def)
  qed
  then have "agree_off G m' m1'" using e(2) e1(2) ag by (simp add: agree_off_def)
  then show ?thesis using e(1) e1(1) by (intro exI[of _ "max f1 f2"]) auto
qed

section \<open>Properties\<close>

text \<open>C2: The transmit thread of \<^verbatim>\<open>dequeue\<close> and a guest driver that keeps to the virtio protocol,
  running in any interleaving from empty rings, implement a bounded FIFO queue: in every state
  they can reach the shared memory shows a reachable state of the abstract queue. The frames
  the thread has copied are the first ones submitted, in order and each once; the indices in
  the rings are the lengths of the queue's lists; the heads go back in the order of
  submission, and the used ring holds them.\<close>

theorem tx_ring_refines_queue:
  assumes "tx_init sz s0" "tx_reach sz s0 s"
  shows "\<exists>q. txq_reach sz q \<and> tx_shows sz s q"
  using tx_reach_sim[OF assms(2,1)] tx_sim_shows by blast

text \<open>C3: Whatever such a driver does and however its steps interleave with those of the transmit
  thread, the thread never faults, exits or hangs: in every state that can be reached its next
  step ends with a result.\<close>

theorem tx_thread_never_fails:
  assumes "tx_init sz s0" "tx_reach sz s0 s"
  shows "\<exists>f0 s'. \<forall>fuel \<ge> f0. tx_thread fuel s = Inr s'"
  by (rule thread_total[OF tx_reach_inv[OF assms(2,1)]])

text \<open>C4: From every state that the thread and the driver can reach, the thread, once the driver
  pauses, copies every frame still waiting and hands every head back, in a number of steps
  linear in the number of frames that wait.\<close>

theorem tx_ring_drains:
  assumes "tx_init sz s0" "tx_reach sz s0 s"
  shows "\<exists>k f0 s'. k \<le> 2 * length (tx_pend s) + 3 \<and> (\<forall>fuel \<ge> f0. tx_run k fuel s = Inr s') \<and>
    x_got s' = map snd (x_sub s) \<and> x_sub s' = x_sub s \<and>
    load16 (x_m s') (used_idx_at (t_used (x_l s))) = Inr (x_base s + of_nat (length (x_sub s)))"
  by (rule drain_any[OF tx_reach_inv[OF assms(2,1)]])

section \<open>A concrete run\<close>

text \<open>The guest of the previous theory, before and after it publishes its chain of two descriptors.\<close>

definition tx_run_mem :: mem where
  "tx_run_mem = tx_demo_mem(65666 \<mapsto> 0)"

definition tx_run_s0 :: tx_sys where
  "tx_run_s0 = \<lparr>x_pc = TxCheck, x_l = tx_demo_l, x_b = tx_demo_b, x_m = tx_run_mem, x_base = 0,
     x_sub = [], x_got = []\<rparr>"

definition tx_run_s1 :: tx_sys where
  "tx_run_s1 = tx_run_s0\<lparr>x_m := tx_run_mem(65666 \<mapsto> 1, 65667 \<mapsto> 0), x_sub := [(0, [170, 187, 204])]\<rparr>"

lemma tx_run_areas:
  "dev_area 2 tx_demo_l = span 65730 18" "span (avail_idx_at (t_avail tx_demo_l)) 2 = span 65666 2"
proof -
  have "span 65730 (2 + 16) = span 65730 2 \<union> span (65730 + of_nat 2) 16"
    by (auto simp: mem_simps span_Suc)
  then show "dev_area 2 tx_demo_l = span 65730 18"
    by (simp add: dev_area_def tx_demo_l_def used_idx_at_def used_area_def used_id_at_def)
qed (simp add: tx_demo_l_def avail_idx_at_def)

lemma tx_run_init: "tx_init 2 tx_run_s0"
proof -
  have "span 65730 18 \<subseteq> dom tx_run_mem" "used_area 65728 2 \<subseteq> dom tx_run_mem"
    by (simp_all add: mem_simps span_Suc tx_run_mem_def tx_demo_mem_def dom_def used_area_def used_id_at_def)
  moreover have "span 65666 6 \<inter> span 65730 18 = {}" by (rule span_apart_abs) simp_all
  ultimately have "tx_layout 2 tx_run_s0"
    using tx_run_areas
    by (simp add: tx_layout_def tx_wf_def tx_run_s0_def tx_demo_b_def zero_vq_def avail_idx_at_def)
       (simp add: tx_demo_l_def)
  moreover have "load16 tx_run_mem 65666 = Inr 0" "load16 tx_run_mem 65730 = Inr 0"
    by (simp_all add: tx_run_mem_def tx_demo_load)
  ultimately show ?thesis
    by (simp add: tx_init_def tx_run_s0_def tx_demo_b_def zero_vq_def)
       (simp add: tx_demo_l_def avail_idx_at_def used_idx_at_def)
qed

lemma tx_run_chain: "tx_chain 2 tx_demo_l tx_demo_b tx_run_mem (0, [170, 187, 204])"
proof -
  have ag: "agree_off {65666} tx_demo_mem tx_run_mem"
    by (auto simp: agree_off_def tx_run_mem_def tx_demo_mem_def)
  have off: "(span 65536 16 \<union> span 65792 2 \<union> (span 65552 16 \<union> span 65808 1)) \<inter>
      (span 65730 18 \<union> span 65666 2) = {}"
    by (simp add: span_apart_abs Int_Un_distrib Int_Un_distrib2)
  then have "frame_of tx_demo_b tx_run_mem 65536 0 ([170, 187] @ [204])
      (span 65536 16 \<union> span 65792 2 \<union> (span 65552 16 \<union> span 65808 1))"
    by (intro frame_of_agree[OF tx_demo_frame ag]) (auto simp: mem_simps)
  with off show ?thesis
    unfolding tx_chain_def tx_run_areas by (auto simp: MAX_LEN_def tx_demo_l_def)
qed

lemma tx_run_step: "tx_step 2 tx_run_s0 tx_run_s1"
proof -
  have "store16 tx_run_mem 65666 (0 + 1) = Inr (tx_run_mem(65666 \<mapsto> 1, 65667 \<mapsto> 0))"
    by (simp add: store16_def tx_run_mem_def tx_demo_mem_def le_bytes_unfold)
  moreover have "load16 tx_run_mem 65666 = Inr 0" "load16 tx_run_mem 65730 = Inr 0" "load16 tx_run_mem 65668 = Inr 0"
    by (simp_all add: tx_run_mem_def tx_demo_load)
  ultimately have "tx_step 2 tx_run_s0
      (tx_run_s0\<lparr>x_m := tx_run_mem(65666 \<mapsto> 1, 65667 \<mapsto> 0), x_sub := x_sub tx_run_s0 @ [(0, [170, 187, 204])]\<rparr>)"
    using tx_run_chain
    by (intro guest_publish[where i = 0 and u = 0])
       (simp_all add: tx_run_s0_def, simp_all add: tx_demo_l_def avail_idx_at_def used_idx_at_def avail_ring_at_def)
  then show ?thesis by (simp add: tx_run_s1_def tx_run_s0_def)
qed

lemma tx_run_reach: "tx_reach 2 tx_run_s0 tx_run_s1"
  by (rule reach_step[OF reach_refl tx_run_step])

theorem tx_ring_refines_queue_witness:
  "\<exists>q. txq_reach 2 q \<and> tx_shows 2 tx_run_s1 q \<and> q_got q = [] \<and> q_wait q = [(0, [170, 187, 204])]"
proof -
  obtain q where q: "txq_reach 2 q" "tx_shows 2 tx_run_s1 q"
    using tx_ring_refines_queue[OF tx_run_init tx_run_reach] by blast
  have "x_got tx_run_s1 = []" "tx_pend tx_run_s1 = [(0, [170, 187, 204])]"
    by (simp_all add: tx_run_s1_def tx_run_s0_def tx_pend_def)
  with q show ?thesis unfolding tx_shows_def by metis
qed

theorem tx_thread_never_fails_witness: "\<exists>f0 s'. \<forall>fuel \<ge> f0. tx_thread fuel tx_run_s1 = Inr s'"
  by (rule tx_thread_never_fails[OF tx_run_init tx_run_reach])

theorem tx_ring_drains_witness:
  "\<exists>k f0 s'. k \<le> 5 \<and> (\<forall>fuel \<ge> f0. tx_run k fuel tx_run_s1 = Inr s') \<and> x_got s' = [[170, 187, 204]] \<and>
     load16 (x_m s') 65730 = Inr 1"
  using tx_ring_drains[OF tx_run_init tx_run_reach]
  by (simp add: tx_run_s1_def tx_run_s0_def tx_pend_def tx_demo_l_def used_idx_at_def) blast

end
