(* ===== verification/Session.thy ===== *)
theory Session
  imports VhostProps TxRing
begin

text \<open>
  From the control socket to the frames: how the messages that \<^verbatim>\<open>process_vhost_msg\<close> dispatches
  (src/code_dump/bkend/bkend.c) prepare the rings on which the transmit thread then runs.
  \<open>serve\<close> handles a sequence of messages, \<open>tx_boot\<close> is the state of the thread when
  \<^verbatim>\<open>VHOST_USER_SET_VRING_ENABLE\<close> creates it. A message that does not concern memory or ring
  addresses leaves the rings as they are (\<open>same_rings\<close>), so what SET_VRING_ADDR established is
  still true when the thread starts.
\<close>

section \<open>Definitions\<close>

fun serve :: "int \<Rightarrow> (os_answers \<times> vh_msg) list \<Rightarrow> proc \<Rightarrow> proc res" where
  "serve fd [] p = Inr p"
| "serve fd ((os, v) # ms) p = bindE (dispatch os fd v p) (serve fd ms)"

definition tx_boot :: "u8 list \<Rightarrow> proc \<Rightarrow> tx_sys res" where
  "tx_boot garbage p =
     bindE (deq_start garbage (bk (svr p))) (\<lambda>l.
       Inr \<lparr>x_pc = TxCheck, x_l = l, x_b = bk (svr p), x_m = memory p,
            x_base = last_used_idx (vq (bk (svr p)) ! 1), x_sub = [], x_got = []\<rparr>)"

text \<open>Messages that change neither the region table nor the addresses, sizes and indices of a ring.\<close>

definition ring_msg :: "vh_msg \<Rightarrow> bool" where
  "ring_msg v \<longleftrightarrow> vhost_req_of (request v) \<in>
     Some ` {VHOST_USER_SET_MEM_TABLE, VHOST_USER_SET_VRING_NUM, VHOST_USER_SET_VRING_ADDR,
             VHOST_USER_SET_VRING_BASE}"

definition ring_eq :: "vh_virtqueue \<Rightarrow> vh_virtqueue \<Rightarrow> bool" where
  "ring_eq q q' \<longleftrightarrow> vq_desc q' = vq_desc q \<and> vq_avail q' = vq_avail q \<and> vq_used q' = vq_used q \<and>
     vq_size q' = vq_size q \<and> last_avail_idx q' = last_avail_idx q \<and> last_used_idx q' = last_used_idx q"

definition flag_cells :: "backend \<Rightarrow> u64 set" where
  "flag_cells b = (\<Union>q \<in> set (vq b). span (avail_flags_at (vq_avail q)) 2)"

definition same_rings :: "proc \<Rightarrow> proc \<Rightarrow> bool" where
  "same_rings p p' \<longleftrightarrow>
     nregions (bk (svr p')) = nregions (bk (svr p)) \<and> regions (bk (svr p')) = regions (bk (svr p)) \<and>
     list_all2 ring_eq (vq (bk (svr p))) (vq (bk (svr p'))) \<and>
     agree_off (flag_cells (bk (svr p))) (memory p) (memory p')"

section \<open>Messages that keep the rings\<close>

lemma ring_eq_refl [simp]: "ring_eq q q"
  by (simp add: ring_eq_def)

lemma ring_eq_trans: "ring_eq q r \<Longrightarrow> ring_eq r s \<Longrightarrow> ring_eq q s"
  by (simp add: ring_eq_def)

lemma ring_eq_upd [simp]:
  "ring_eq q (q\<lparr>vq_enable := e\<rparr>)" "ring_eq q (q\<lparr>kick_fd := f\<rparr>)" "ring_eq q (q\<lparr>call_fd := f\<rparr>)"
  "ring_eq q (q\<lparr>call_fd := f, kick_fd := g\<rparr>)"
  by (simp_all add: ring_eq_def)

lemma flag_cells_eq: "list_all2 ring_eq qs rs \<Longrightarrow>
   (\<Union>q \<in> set rs. span (avail_flags_at (vq_avail q)) 2) = (\<Union>q \<in> set qs. span (avail_flags_at (vq_avail q)) 2)"
  by (induction rule: list_all2_induct) (auto simp: ring_eq_def)

lemma same_rings_refl [simp, intro]: "same_rings p p"
  by (simp add: same_rings_def list.rel_refl)

lemma same_rings_trans [trans]:
  assumes "same_rings p q" "same_rings q r"
  shows "same_rings p r"
proof -
  have "list_all2 ring_eq (vq (bk (svr p))) (vq (bk (svr r)))"
    using assms unfolding same_rings_def by (blast intro: list_all2_trans ring_eq_trans)
  moreover have "flag_cells (bk (svr q)) = flag_cells (bk (svr p))"
    using assms(1) by (auto simp: same_rings_def flag_cells_def dest!: flag_cells_eq)
  ultimately show ?thesis
    using assms unfolding same_rings_def by (auto intro: agree_off_step)
qed

lemma same_rings_emit [simp]: "same_rings p (emit es q) = same_rings p q"
  "same_rings (emit es p) q = same_rings p q"
  by (simp_all add: same_rings_def)

lemma same_rings_set_vq:
  assumes "set_vq i q' p = Inr p'" "get_vq i p = Inr q" "ring_eq q q'"
  shows "same_rings p p'" "q' \<in> set (vq (bk (svr p')))"
  using assms
  by (auto simp: set_vq_def get_vq_def same_rings_def bindE_eq_Inr_iff arr_get_eq_Inr arr_set_eq_Inr
      list_all2_conv_all_nth nth_list_update set_update_memI)

lemma same_rings_send: "send_vhost t ws fd v p = Inr p' \<Longrightarrow> same_rings p p'"
  by (auto simp: send_vhost_def bindE_eq_Inr_iff Let_def split: if_splits)

lemma same_rings_enable: "handle_set_vring_enable ws fd v p = Inr p' \<Longrightarrow> same_rings p p'"
proof -
  have c: "count_enable i e q = Inr q' \<Longrightarrow> same_rings q q'" for i e q q'
    by (auto simp: count_enable_def Let_def bindE_eq_Inr_iff same_rings_def list.rel_refl flag_cells_def
        split: if_splits)
  assume "handle_set_vring_enable ws fd v p = Inr p'"
  then show ?thesis
    unfolding handle_set_vring_enable_def Let_def send_defs
    by (elim bindE_InrE)
       (blast intro: same_rings_trans[OF same_rings_trans[OF same_rings_set_vq(1)]]
          same_rings_send c ring_eq_upd(1))
qed

lemma same_rings_kick:
  assumes "handle_set_vring_kick v p = Inr p'"
  shows "same_rings p p'"
proof -
  let ?i = "unat (payload_u64 (payload v) AND VHOST_USER_VRING_IDX_MASK)"
  from assms obtain q fd p1 fl m where s: "get_vq ?i p = Inr q" "set_vq ?i (q\<lparr>kick_fd := fd\<rparr>) p = Inr p1"
    "store16 (memory p1) (avail_flags_at (vq_avail q)) (fl OR VRING_AVAIL_F_NO_INTERRUPT) = Inr m"
    "p' = p1\<lparr>memory := m\<rparr>"
    unfolding handle_set_vring_kick_def Let_def by (auto simp: bindE_eq_Inr_iff)
  note r = same_rings_set_vq[OF s(2,1), simplified]
  have "span (avail_flags_at (vq_avail q)) 2 \<subseteq> flag_cells (bk (svr p1))"
    using UN_upper[OF r(2), of "\<lambda>q. span (avail_flags_at (vq_avail q)) 2"] by (simp add: flag_cells_def)
  then have "same_rings p1 p'"
    using c16.st_agree_in[OF s(3)] s(4) by (simp add: same_rings_def list.rel_refl)
  with r(1) show ?thesis by (rule same_rings_trans)
qed

lemma same_rings_get_base: "handle_get_vring_base ws fd v p = Inr p' \<Longrightarrow> same_rings p p'"
  by (auto simp: handle_get_vring_base_def send_defs Let_def bindE_eq_Inr_iff get_vq_def
      dest!: same_rings_send same_rings_set_vq(1) intro: same_rings_trans)

lemma same_rings_dispatch:
  assumes "dispatch os fd v p = Inr p'" "\<not> ring_msg v"
  shows "same_rings p p'"
proof (cases "vhost_req_of (request v)")
  case None
  with assms show ?thesis by (auto simp: dispatch_def)
next
  case (Some r)
  have f: "same_rings p (upd_bk (\<lambda>b. b\<lparr>hdrlen := h\<rparr>) (upd_bk (\<lambda>b. b\<lparr>features := n\<rparr>) p))" for n h
    by (simp add: same_rings_def list.rel_refl)
  from Some assms show ?thesis
    by (cases r)
       (auto simp: dispatch_def handle_get_features_def handle_get_protocol_features_def send_defs
          handle_set_features_def handle_set_vring_call_def handle_set_vring_err_def Let_def
          bindE_eq_Inr_iff f ring_msg_def
        dest!: same_rings_send same_rings_set_vq(1) same_rings_enable same_rings_get_base same_rings_kick
        split: if_splits)
qed

lemma same_rings_serve:
  "serve fd ms p = Inr p' \<Longrightarrow> \<forall>m \<in> set ms. \<not> ring_msg (snd m) \<Longrightarrow> same_rings p p'"
proof (induction ms arbitrary: p)
  case (Cons a ms)
  obtain os v where a: "a = (os, v)" by (cases a)
  with Cons.prems(1) obtain p1 where p1: "dispatch os fd v p = Inr p1" "serve fd ms p1 = Inr p'"
    by (auto simp: bindE_eq_Inr_iff)
  have "same_rings p p1" by (rule same_rings_dispatch[OF p1(1)]) (use Cons.prems(2) a in auto)
  also have "same_rings p1 p'" by (rule Cons.IH[OF p1(2)]) (use Cons.prems(2) in auto)
  finally show ?case .
qed simp

section \<open>The state in which the thread starts\<close>

text \<open>\<open>tx_rings sz p u\<close>: queue 1 has its rings in place and empty, with both indices at \<open>u\<close>.\<close>

definition tx_rings :: "nat \<Rightarrow> proc \<Rightarrow> u16 \<Rightarrow> bool" where
  "tx_rings sz p u \<longleftrightarrow>
     (let b = bk (svr p); q = vq b ! 1;
          area = span (used_idx_at (vq_used q)) 2 \<union> used_area (vq_used q) sz in
      length (vq b) = 2 \<and> 0 < sz \<and> sz \<le> 32768 \<and> sz dvd 65536 \<and>
      vq_size (vq b ! 0) = of_nat sz \<and> last_avail_idx q = u \<and> last_used_idx q = u \<and>
      load16 (memory p) (avail_idx_at (vq_avail q)) = Inr u \<and>
      load16 (memory p) (used_idx_at (vq_used q)) = Inr u \<and>
      area \<subseteq> dom (memory p) \<and> span (avail_idx_at (vq_avail q)) (2 + 2 * sz) \<inter> area = {} \<and>
      flag_cells b \<inter> (span (avail_idx_at (vq_avail q)) 2 \<union> area) = {})"

lemma tx_rings_boot:
  assumes "tx_rings sz p u" "length garbage = TX_BUF_SIZE"
  obtains s where "tx_boot garbage p = Inr s" "tx_init sz s" "x_b s = bk (svr p)" "x_m s = memory p"
    "x_base s = u"
  using assms
  by (auto simp: tx_rings_def Let_def tx_boot_def deq_start_def tx_init_def tx_layout_def tx_wf_def
      dev_area_def)

lemma tx_rings_same:
  assumes "tx_rings sz p u" "same_rings p p'"
  shows "tx_rings sz p' u"
proof -
  let ?q = "vq (bk (svr p)) ! 1" and ?q' = "vq (bk (svr p')) ! 1"
  let ?area = "span (used_idx_at (vq_used ?q)) 2 \<union> used_area (vq_used ?q) sz"
  have ag: "agree_off (flag_cells (bk (svr p))) (memory p) (memory p')"
    using assms(2) by (simp add: same_rings_def)
  have off: "span (avail_idx_at (vq_avail ?q)) 2 \<inter> flag_cells (bk (svr p)) = {}"
    "span (used_idx_at (vq_used ?q)) 2 \<inter> flag_cells (bk (svr p)) = {}"
    using assms(1) unfolding tx_rings_def Let_def by blast+
  have "length (vq (bk (svr p))) = 2" using assms(1) by (simp add: tx_rings_def Let_def)
  with assms(2) have q: "ring_eq ?q ?q'" "ring_eq (vq (bk (svr p)) ! 0) (vq (bk (svr p')) ! 0)"
    "length (vq (bk (svr p'))) = 2"
    by (auto simp: same_rings_def list_all2_conv_all_nth)
  have "flag_cells (bk (svr p')) = flag_cells (bk (svr p))"
    using assms(2) by (auto simp: same_rings_def flag_cells_def dest!: flag_cells_eq)
  moreover have "dom (memory p') = dom (memory p)" using ag by (simp add: agree_off_def)
  ultimately show ?thesis
    using assms(1) q c16.ld_agree[OF ag off(1)] c16.ld_agree[OF ag off(2)]
    unfolding tx_rings_def Let_def ring_eq_def by metis
qed

lemma avail_flags_apart:
  "span (avail_flags_at a) 2 \<inter> span (avail_idx_at a) 2 = {}"
  "span (avail_flags_at a) 2 \<subseteq> span a (4 + 2 * sz)"
  "span (avail_idx_at a) (2 + 2 * sz) \<subseteq> span a (4 + 2 * sz)"
  using span_apart[of 0 2 2 2 a] span_mono[of 2 "4 + 2 * sz" a] span_shift[of 2 "2 + 2 * sz" "4 + 2 * sz" a]
  by (simp_all add: avail_flags_at_def avail_idx_at_def)

text \<open>SET_VRING_ADDR puts the rings of queue 1 in place.\<close>

lemma addr_dispatch:
  assumes "wf_backend (bk (svr p))"
    and "vhost_req_of (request v) = Some VHOST_USER_SET_VRING_ADDR" "a = payload_addr (payload v)" "va_index a = 1"
    and "qva_to_va (desc_user_addr a) (bk (svr p)) = Inr desc"
      "qva_to_va (used_user_addr a) (bk (svr p)) = Inr used"
      "qva_to_va (avail_user_addr a) (bk (svr p)) = Inr avail"
    and "load16 (memory p) (used_idx_at used) = Inr u"
  shows "dispatch os fd v p = Inr (upd_bk (\<lambda>b. b\<lparr>vq := (vq b)[1 := (vq b ! 1)\<lparr>vq_desc := desc,
    vq_used := used, vq_avail := avail, last_used_idx := u, last_avail_idx := u\<rparr>]\<rparr>) p)"
  using assms
  by (auto simp: dispatch_def handle_set_vring_addr_def Let_def get_vq_def set_vq_def upd_bk_def wf_backend_def)

lemma vring_addr_rings:
  assumes wf: "wf_backend (bk (svr p))" and sz: "0 < sz" "sz \<le> 32768" "sz dvd 65536"
    and size: "vq_size (vq (bk (svr p)) ! 0) = of_nat sz"
    and v: "vhost_req_of (request v) = Some VHOST_USER_SET_VRING_ADDR"
      "a = payload_addr (payload v)" "va_index a = 1"
    and tr: "qva_to_va (desc_user_addr a) (bk (svr p)) = Inr desc"
      "qva_to_va (used_user_addr a) (bk (svr p)) = Inr used"
      "qva_to_va (avail_user_addr a) (bk (svr p)) = Inr avail"
    and idx: "load16 (memory p) (used_idx_at used) = Inr u" "load16 (memory p) (avail_idx_at avail) = Inr u"
    and area: "area = span (used_idx_at used) 2 \<union> used_area used sz" "area \<subseteq> dom (memory p)"
      "span avail (4 + 2 * sz) \<inter> area = {}"
      "span (avail_flags_at (vq_avail (vq (bk (svr p)) ! 0))) 2 \<inter> (span avail (4 + 2 * sz) \<union> area) = {}"
  obtains p' where "dispatch os fd v p = Inr p'" "tx_rings sz p' u"
proof -
  let ?p = "upd_bk (\<lambda>b. b\<lparr>vq := (vq b)[1 := (vq b ! 1)\<lparr>vq_desc := desc, vq_used := used, vq_avail := avail,
      last_used_idx := u, last_avail_idx := u\<rparr>]\<rparr>) p"
  have len: "length (vq (bk (svr p))) = 2" using wf by (simp add: wf_backend_def)
  have "dispatch os fd v p = Inr ?p" by (rule addr_dispatch[OF wf v tr idx(1)])
  moreover have fc: "flag_cells (bk (svr ?p)) =
      span (avail_flags_at (vq_avail (vq (bk (svr p)) ! 0))) 2 \<union> span (avail_flags_at avail) 2"
    using len by (cases "vq (bk (svr p))"; cases "tl (vq (bk (svr p)))") (auto simp: flag_cells_def)
  have "tx_rings sz ?p u"
    unfolding tx_rings_def Let_def fc
    using len sz size idx area avail_flags_apart(1)[of avail] avail_flags_apart(2,3)[of avail sz]
      avail_cells(1)[of avail sz] by auto
  ultimately show ?thesis using that by blast
qed

section \<open>Properties\<close>

text \<open>C1: From the control socket to the frames. SET_VRING_ADDR for queue 1 is handled with both
  queues of the same power-of-two size, its addresses in the region table, empty rings of the
  guest that are mapped and do not overlap; then any messages follow that do not set memory or
  ring addresses (features, call and kick descriptors, enabling a queue and so on). If the
  transmit thread is created then, it starts in a state from which it and the guest driver
  implement the FIFO queue of frames.\<close>

theorem session_delivers:
  assumes "wf_backend (bk (svr p))" "0 < sz" "sz \<le> 32768" "sz dvd 65536"
    and "vq_size (vq (bk (svr p)) ! 0) = of_nat sz"
    and "vhost_req_of (request v) = Some VHOST_USER_SET_VRING_ADDR"
      "a = payload_addr (payload v)" "va_index a = 1"
    and "qva_to_va (desc_user_addr a) (bk (svr p)) = Inr desc"
      "qva_to_va (used_user_addr a) (bk (svr p)) = Inr used"
      "qva_to_va (avail_user_addr a) (bk (svr p)) = Inr avail"
    and "load16 (memory p) (used_idx_at used) = Inr u" "load16 (memory p) (avail_idx_at avail) = Inr u"
    and "area = span (used_idx_at used) 2 \<union> used_area used sz" "area \<subseteq> dom (memory p)"
      "span avail (4 + 2 * sz) \<inter> area = {}"
      "span (avail_flags_at (vq_avail (vq (bk (svr p)) ! 0))) 2 \<inter> (span avail (4 + 2 * sz) \<union> area) = {}"
    and "serve fd ((os, v) # ms) p = Inr p'" "\<forall>m \<in> set ms. \<not> ring_msg (snd m)"
    and "length garbage = TX_BUF_SIZE"
  shows "\<exists>s0. tx_boot garbage p' = Inr s0 \<and> x_m s0 = memory p' \<and>
    (\<forall>s. tx_reach sz s0 s \<longrightarrow> (\<exists>q. txq_reach sz q \<and> tx_shows sz s q))"
proof -
  obtain p1 where p1: "dispatch os fd v p = Inr p1" "tx_rings sz p1 u"
    by (rule vring_addr_rings[OF assms(1-17)])
  with assms(18) have "serve fd ms p1 = Inr p'" by simp
  then have "tx_rings sz p' u"
    using tx_rings_same[OF p1(2) same_rings_serve] assms(19) by blast
  then obtain s0 where s0: "tx_boot garbage p' = Inr s0" "tx_init sz s0" "x_m s0 = memory p'"
    by (rule tx_rings_boot[OF _ assms(20)])
  then show ?thesis using tx_reach_sim[OF _ s0(2)] tx_sim_shows by blast
qed

text \<open>One region, queue 0 of size 2, the rings at offsets 0, 0x200 and 0x400 of the region; queue 1
  is then enabled twice.\<close>

definition boot_proc :: proc where
  "boot_proc = demo_proc\<lparr>svr := (svr demo_proc)\<lparr>bk := (bk (svr demo_proc))\<lparr>vq := [zero_vq\<lparr>vq_size := 2\<rparr>, zero_vq]\<rparr>\<rparr>\<rparr>"

definition addr_msg :: vh_msg where
  "addr_msg = zero_msg\<lparr>request := 9, payload := le_bytes 4 (1::u32) @ le_bytes 4 (0::u32) @
     le_bytes 8 (0x7000::u64) @ le_bytes 8 (0x7200::u64) @ le_bytes 8 (0x7400::u64) @ replicate 232 0\<rparr>"

definition enable_msg :: vh_msg where
  "enable_msg = zero_msg\<lparr>request := 18, payload := le_bytes 4 (1::u32) @ le_bytes 4 (1::u32) @ replicate 256 0\<rparr>"

lemma boot_proc_sel:
  "wf_backend (bk (svr boot_proc))" "vq (bk (svr boot_proc)) ! 0 = zero_vq\<lparr>vq_size := 2\<rparr>"
  "en2 (bk (svr boot_proc)) = [0, 0]" "length (vq (bk (svr boot_proc))) = 2"
  "memory boot_proc = (\<lambda>x. if x - 0x100000 < 0x1000 then Some 0 else None)"
  "qva_to_va x (bk (svr boot_proc)) = qva_to_va x (bk (svr demo_proc))"
  by (simp_all add: boot_proc_def demo_proc_def wf_backend_def zero_backend_def
      VHOST_MEMORY_MAX_NREGIONS_def qva_to_va_def)

lemma boot_qva: "0x7000 \<le> x \<Longrightarrow> x < 0x8000 \<Longrightarrow> qva_to_va x (bk (svr boot_proc)) = Inr (x - 0x7000 + 0x100000)"
  unfolding boot_proc_sel by (simp add: qva_to_va_def region_loop.simps demo_proc_def demo_region_def)

lemma boot_addr:
  "vhost_req_of (request addr_msg) = Some VHOST_USER_SET_VRING_ADDR"
  "va_index (payload_addr (payload addr_msg)) = 1"
  "qva_to_va (desc_user_addr (payload_addr (payload addr_msg))) (bk (svr boot_proc)) = Inr 0x100000"
  "qva_to_va (used_user_addr (payload_addr (payload addr_msg))) (bk (svr boot_proc)) = Inr 0x100200"
  "qva_to_va (avail_user_addr (payload_addr (payload addr_msg))) (bk (svr boot_proc)) = Inr 0x100400"
  "load16 (memory boot_proc) (used_idx_at 0x100200) = Inr 0"
  "load16 (memory boot_proc) (avail_idx_at 0x100400) = Inr 0"
  by (simp_all add: addr_msg_def vhost_req_of_def vhost_reqs_def payload_addr_def boot_qva)
     (simp_all add: boot_proc_sel load16_def mem_simps used_idx_at_def avail_idx_at_def)

lemma boot_session:
  "\<exists>p'. serve 5 [(demo_os, addr_msg), (demo_os, enable_msg), (demo_os, enable_msg)] boot_proc = Inr p' \<and>
     ThreadStart Tx_dequeue \<in> set (outp p')"
proof -
  have en: "dispatch demo_os 5 enable_msg q = handle_set_vring_enable [WOk 20] 5 enable_msg q" for q
    by (simp add: dispatch_def enable_msg_def vhost_req_of_def vhost_reqs_def demo_os_def)
  have wf: "wf_msg enable_msg" "vs_index (payload_state (payload enable_msg)) = 1"
    "vs_num (payload_state (payload enable_msg)) \<noteq> 0"
    by (simp_all add: enable_msg_def wf_msg_def payload_size_def zero_msg_def payload_state_def)
  obtain p1 where p1: "dispatch demo_os 5 addr_msg boot_proc = Inr p1" "wf_backend (bk (svr p1))"
    "en2 (bk (svr p1)) ! 1 = of_nat 0"
    using addr_dispatch[OF boot_proc_sel(1) boot_addr(1) refl boot_addr(2-6), of demo_os 5]
      boot_proc_sel(1,3) by (simp add: wf_backend_def)
  obtain p2 where p2: "handle_set_vring_enable [WOk 20] 5 enable_msg p1 = Inr p2"
    "wf_backend (bk (svr p2))" "en2 (bk (svr p2)) ! 1 = of_nat (Suc 0)"
    using enable_step[OF wf(1) p1(2) _ wf(2,3) p1(3), of 20 5] by auto
  obtain p3 where p3: "handle_set_vring_enable [WOk 20] 5 enable_msg p2 = Inr p3"
    "count_list (outp p3) (ThreadStart Tx_dequeue) = count_list (outp p2) (ThreadStart Tx_dequeue) + 1"
    using enable_step[OF wf(1) p2(2) _ wf(2,3) p2(3), of 20 5] by auto
  have "ThreadStart Tx_dequeue \<in> set (outp p3)" using p3(2) by (metis add_is_0 count_notin one_neq_zero)
  with p1(1) p2(1) p3(1) show ?thesis by (simp add: en)
qed

lemma boot_areas:
  "span (used_idx_at 0x100200) 2 \<union> used_area 0x100200 2 \<subseteq> dom (memory boot_proc)"
  "span 0x100400 (4 + 2 * 2) \<inter> (span (used_idx_at 0x100200) 2 \<union> used_area 0x100200 2) = {}"
  "span (avail_flags_at (vq_avail (vq (bk (svr boot_proc)) ! 0))) 2 \<inter>
     (span 0x100400 (4 + 2 * 2) \<union> (span (used_idx_at 0x100200) 2 \<union> used_area 0x100200 2)) = {}"
proof -
  note d = used_area_def used_id_at_def used_idx_at_def avail_flags_at_def boot_proc_sel
  show "span (used_idx_at 0x100200) 2 \<union> used_area 0x100200 2 \<subseteq> dom (memory boot_proc)"
    by (simp add: d mem_simps span_Suc dom_def)
  show "span 0x100400 (4 + 2 * 2) \<inter> (span (used_idx_at 0x100200) 2 \<union> used_area 0x100200 2) = {}"
    by (simp add: d span_apart_abs Int_Un_distrib)
  show "span (avail_flags_at (vq_avail (vq (bk (svr boot_proc)) ! 0))) 2 \<inter>
     (span 0x100400 (4 + 2 * 2) \<union> (span (used_idx_at 0x100200) 2 \<union> used_area 0x100200 2)) = {}"
    by (simp add: d span_apart_abs Int_Un_distrib zero_vq_def)
qed

theorem session_delivers_witness:
  "\<exists>p' s0. serve 5 [(demo_os, addr_msg), (demo_os, enable_msg), (demo_os, enable_msg)] boot_proc = Inr p' \<and>
     ThreadStart Tx_dequeue \<in> set (outp p') \<and> tx_boot (replicate TX_BUF_SIZE 0) p' = Inr s0 \<and>
     (\<exists>q. txq_reach 2 q \<and> tx_shows 2 s0 q)"
proof -
  obtain p' where p': "serve 5 [(demo_os, addr_msg), (demo_os, enable_msg), (demo_os, enable_msg)] boot_proc = Inr p'"
    "ThreadStart Tx_dequeue \<in> set (outp p')" using boot_session by blast
  have quiet: "\<forall>m \<in> set [(demo_os, enable_msg), (demo_os, enable_msg)]. \<not> ring_msg (snd m)"
    by (auto simp: ring_msg_def enable_msg_def vhost_req_of_def vhost_reqs_def)
  have c: "0 < (2::nat)" "(2::nat) \<le> 32768" "(2::nat) dvd 65536" "vq_size (vq (bk (svr boot_proc)) ! 0) = of_nat 2"
    by (simp_all add: boot_proc_sel)
  from session_delivers[OF boot_proc_sel(1) c boot_addr(1) refl boot_addr(2-7) refl boot_areas p'(1) quiet]
  obtain s0 where "tx_boot (replicate TX_BUF_SIZE 0) p' = Inr s0"
    "\<forall>s. tx_reach 2 s0 s \<longrightarrow> (\<exists>q. txq_reach 2 q \<and> tx_shows 2 s q)"
    by (metis length_replicate)
  with p' reach_refl show ?thesis by blast
qed

end
