(* ===== verification/Loopback.thy ===== *)
theory Loopback
  imports Prelude "HOL-Library.Multiset" "HOL-Library.Sublist"
begin

text \<open>
  The DPDK loopback, src/code_dump/dpdk_lbk_b2b/loopback/main.c, and its back-to-back variants: a
  producer core takes packets from the guest and puts them into a ring, a consumer core takes them
  from the ring and gives them back to the guest, and the callbacks of the vhost library set and
  clear the device while both run.

  The vhost library, the ring and the buffer pool are DPDK, not part of the repository. The packet
  that a burst call delivers and the number of packets that the guest accepts are arguments of the
  step that makes the call. The ring is a value of a type parameter with its two operations in a
  record, and what the program relies on (a ring is a FIFO queue) is the hypothesis \<open>fifo_ring\<close>.
  Buffers are known by their handles: \<open>rx_log\<close> records the buffers and packets taken from the guest,
  \<open>freed\<close> the calls of \<^verbatim>\<open>rte_pktmbuf_free\<close>, and \<open>tx_log\<close> the packets that the guest accepted.

  The two cores and the callbacks run concurrently, so the program is a step relation: a loop
  iteration is split where it reads shared state or makes a call, and the steps of the three parts
  interleave freely. The progress messages on the standard output are left out.
\<close>

section \<open>State\<close>

definition BURST_SIZE :: nat where "BURST_SIZE = 32"
definition RING_SIZE :: nat where "RING_SIZE = 2048"
definition NUM_MBUFS :: nat where "NUM_MBUFS = 8191"

text \<open>A buffer handle, and a buffer with the packet that it holds.\<close>

type_synonym mbuf = nat
type_synonym pkt = "mbuf \<times> u8 list"

text \<open>The two calls of \<^verbatim>\<open>rte_ring\<close> that the program makes: the number of packets stored and the packets
  removed, with the ring afterwards.\<close>

record 'r ring_ops =
  enqueue_burst :: "'r \<Rightarrow> pkt list \<Rightarrow> nat \<times> 'r"
  dequeue_burst :: "'r \<Rightarrow> nat \<Rightarrow> pkt list \<times> 'r"

text \<open>The documented behaviour: the first packets of the array are stored, as many as there is room for,
  and at most the requested number of the oldest packets is removed.\<close>

definition fifo_ring :: "'r ring_ops \<Rightarrow> ('r \<Rightarrow> pkt list) \<Rightarrow> bool" where
  "fifo_ring R contents \<longleftrightarrow>
     (\<forall>r ps. fst (enqueue_burst R r ps) \<le> length ps \<and>
        contents (snd (enqueue_burst R r ps)) = contents r @ take (fst (enqueue_burst R r ps)) ps) \<and>
     (\<forall>r n. length (fst (dequeue_burst R r n)) \<le> n \<and>
        contents r = fst (dequeue_burst R r n) @ contents (snd (dequeue_burst R r n)))"

text \<open>\<open>p_bufs\<close> and \<open>c_bufs\<close> are the local arrays of the two loops, empty outside the part of an iteration
  that works on them; \<open>p_vid\<close> and \<open>c_vid\<close> are the local copies of \<^verbatim>\<open>g_vid\<close>, \<open>-1\<close> for none.\<close>

record 'r loopback =
  g_vid :: int
  ready :: bool
  ring :: 'r
  p_vid :: int
  p_bufs :: "pkt list"
  p_cntr :: cint
  c_vid :: int
  c_bufs :: "pkt list"
  c_cntr :: cint
  rx_log :: "pkt list"
  tx_log :: "u8 list list"
  freed :: "mbuf list"

definition lb_init :: "'r \<Rightarrow> 'r loopback" where
  "lb_init r = \<lparr>g_vid = -1, ready = False, ring = r, p_vid = -1, p_bufs = [], p_cntr = 0,
     c_vid = -1, c_bufs = [], c_cntr = 0, rx_log = [], tx_log = [], freed = []\<rparr>"

section \<open>Operations\<close>

definition new_device :: "int \<Rightarrow> 'r loopback \<Rightarrow> 'r loopback" where
  "new_device vid s = s\<lparr>g_vid := vid, ready := True\<rparr>"

definition destroy_device :: "int \<Rightarrow> 'r loopback \<Rightarrow> 'r loopback" where
  "destroy_device vid s = s\<lparr>g_vid := -1\<rparr>"

text \<open>An iteration of \<^verbatim>\<open>producer_loop\<close> waits for \<^verbatim>\<open>ready\<close> and reads the device.\<close>

definition producer_read :: "'r loopback \<Rightarrow> 'r loopback" where
  "producer_read s = (if ready s then s\<lparr>p_vid := g_vid s\<rparr> else s)"

text \<open>Without a device it starts again; otherwise it makes the burst call for one packet, and \<open>got\<close> is
  what the call delivers. With nothing delivered the iteration is over.\<close>

definition producer_receive :: "pkt option \<Rightarrow> 'r loopback \<Rightarrow> 'r loopback" where
  "producer_receive got s =
     (if p_vid s = -1 then s
      else case got of
        None \<Rightarrow> s\<lparr>p_vid := -1\<rparr>
      | Some p \<Rightarrow> s\<lparr>p_vid := -1, p_bufs := [p], p_cntr := p_cntr s + 1, rx_log := rx_log s @ [p]\<rparr>)"

text \<open>The received packets go into the ring, and those for which there is no room are freed.\<close>

definition producer_forward :: "'r ring_ops \<Rightarrow> 'r loopback \<Rightarrow> 'r loopback" where
  "producer_forward R s =
     (let (sent, r) = enqueue_burst R (ring s) (p_bufs s) in
      s\<lparr>ring := r, freed := freed s @ map fst (drop sent (p_bufs s)), p_bufs := []\<rparr>)"

text \<open>An iteration of \<^verbatim>\<open>consumer_loop\<close> reads the device and then takes a burst from the ring.\<close>

definition consumer_read :: "'r loopback \<Rightarrow> 'r loopback" where
  "consumer_read s = s\<lparr>c_vid := g_vid s\<rparr>"

definition consumer_take :: "'r ring_ops \<Rightarrow> 'r loopback \<Rightarrow> 'r loopback" where
  "consumer_take R s =
     (let (ps, r) = dequeue_burst R (ring s) BURST_SIZE in s\<lparr>ring := r, c_bufs := ps\<rparr>)"

text \<open>The burst is given to the guest, which accepts \<open>n\<close> packets of it, or to nobody when the device is
  gone; all buffers are freed in both cases.\<close>

definition consumer_send :: "nat \<Rightarrow> 'r loopback \<Rightarrow> 'r loopback" where
  "consumer_send n s =
     (if c_bufs s = [] then s
      else if c_vid s \<noteq> -1 then
        s\<lparr>tx_log := tx_log s @ map snd (take n (c_bufs s)), c_cntr := c_cntr s + 1,
          freed := freed s @ map fst (c_bufs s), c_bufs := []\<rparr>
      else s\<lparr>freed := freed s @ map fst (c_bufs s), c_bufs := []\<rparr>)"

text \<open>All interleavings. A core reads the device again only when it has worked off its array.\<close>

inductive lb_step :: "'r ring_ops \<Rightarrow> 'r loopback \<Rightarrow> 'r loopback \<Rightarrow> bool" for R where
  step_new: "lb_step R s (new_device vid s)"
| step_destroy: "lb_step R s (destroy_device vid s)"
| step_pread: "p_bufs s = [] \<Longrightarrow> lb_step R s (producer_read s)"
| step_receive: "p_bufs s = [] \<Longrightarrow> lb_step R s (producer_receive got s)"
| step_forward: "p_bufs s \<noteq> [] \<Longrightarrow> lb_step R s (producer_forward R s)"
| step_cread: "c_bufs s = [] \<Longrightarrow> lb_step R s (consumer_read s)"
| step_take: "c_bufs s = [] \<Longrightarrow> lb_step R s (consumer_take R s)"
| step_send: "c_bufs s \<noteq> [] \<Longrightarrow> lb_step R s (consumer_send n s)"

inductive lb_reach :: "'r ring_ops \<Rightarrow> 'r \<Rightarrow> 'r loopback \<Rightarrow> bool" for R r\<^sub>0 where
  reach_init: "lb_reach R r\<^sub>0 (lb_init r\<^sub>0)"
| reach_step: "lb_reach R r\<^sub>0 s \<Longrightarrow> lb_step R s t \<Longrightarrow> lb_reach R r\<^sub>0 t"

inductive_cases lb_stepE: "lb_step R s t"

section \<open>Start-up\<close>

text \<open>Answers of the DPDK calls of \<^verbatim>\<open>main\<close>, and what it registers.\<close>

record dpdk_answers =
  eal_init :: int
  pool_ok :: bool
  ring_ok :: bool
  register :: "string \<Rightarrow> int"
  callback_register :: "string \<Rightarrow> int"
  driver_start :: "string \<Rightarrow> int"

datatype dpdk_event =
    UnlinkSock string
  | Registered string bool
  | Started string
  | Launched string

text \<open>One socket: register (as client or server of the socket), install the callbacks, start.\<close>

definition start_socket :: "dpdk_answers \<Rightarrow> string \<Rightarrow> bool \<Rightarrow> dpdk_event list res" where
  "start_socket d path client =
     (if register d path < 0 then Inl (Exit 1)
      else if callback_register d path < 0 then Inl (Exit 1)
      else if driver_start d path < 0 then Inl (Exit 1)
      else Inr [Registered path client, Started path])"

definition init_dpdk :: "dpdk_answers \<Rightarrow> unit res" where
  "init_dpdk d =
     (if eal_init d < 0 then Inl (Exit 1)
      else if \<not> pool_ok d then Inl (Exit 1)
      else if \<not> ring_ok d then Inl (Exit 1)
      else Inr ())"

definition launch :: "dpdk_event list" where
  "launch = [Launched ''producer_loop'', Launched ''consumer_loop'']"

definition SOCKET_PATH :: string where "SOCKET_PATH = ''/tmp/vhost-user0''"
definition SOCKET_PATH_1 :: string where "SOCKET_PATH_1 = ''/tmp/vhost-user1''"

definition loopback_main :: "dpdk_answers \<Rightarrow> dpdk_event list res" where
  "loopback_main d =
     bindE (init_dpdk d) (\<lambda>_.
     bindE (start_socket d SOCKET_PATH True) (\<lambda>es. Inr (es @ launch)))"

definition b2b_client_main :: "dpdk_answers \<Rightarrow> dpdk_event list res" where
  "b2b_client_main d =
     bindE (init_dpdk d) (\<lambda>_.
     bindE (start_socket d SOCKET_PATH False) (\<lambda>es. Inr (UnlinkSock SOCKET_PATH # es @ launch)))"

definition b2b_server_main :: "dpdk_answers \<Rightarrow> dpdk_event list res" where
  "b2b_server_main d =
     bindE (init_dpdk d) (\<lambda>_.
     bindE (start_socket d SOCKET_PATH True) (\<lambda>es0.
     bindE (start_socket d SOCKET_PATH_1 True) (\<lambda>es1. Inr (es0 @ es1 @ launch))))"

section \<open>Invariant\<close>

text \<open>Every buffer received is freed or in exactly one place, and the packets on their way, in the order
  of their age, form a subsequence of the packets received.\<close>

definition lb_inv :: "('r \<Rightarrow> pkt list) \<Rightarrow> 'r loopback \<Rightarrow> bool" where
  "lb_inv contents s \<longleftrightarrow>
     mset (map fst (rx_log s)) =
       mset (freed s) + mset (map fst (c_bufs s)) + mset (map fst (contents (ring s))) + mset (map fst (p_bufs s)) \<and>
     length (p_bufs s) \<le> 1 \<and> length (c_bufs s) \<le> BURST_SIZE \<and>
     subseq (tx_log s @ map snd (c_bufs s @ contents (ring s) @ p_bufs s)) (map snd (rx_log s))"

lemma lb_inv_init: "contents r = [] \<Longrightarrow> lb_inv contents (lb_init r)"
  by (simp add: lb_inv_def lb_init_def)

lemma subseq_app: "subseq b c \<Longrightarrow> subseq (a @ b) (a @ c)"
  by (rule list_emb_append_mono) auto

lemma subseq_drop_mid: "subseq (a @ b @ c) xs \<Longrightarrow> subseq (a @ c) xs"
proof (rule subseq_order.order_trans)
  have "subseq c (b @ c)" by (rule list_emb_append2) simp
  then show "subseq (a @ c) (a @ b @ c)" by (rule subseq_app)
qed

lemma fifo_enqueue:
  assumes "fifo_ring R contents" "enqueue_burst R r ps = (sent, r')"
  shows "contents r' = contents r @ take sent ps"
  using conjunct1[OF assms(1)[unfolded fifo_ring_def], rule_format, of r ps] assms(2) by simp

lemma fifo_dequeue:
  assumes "fifo_ring R contents" "dequeue_burst R r n = (ps, r')"
  shows "contents r = ps @ contents r'" "length ps \<le> n"
  using conjunct2[OF assms(1)[unfolded fifo_ring_def], rule_format, of r n] assms(2) by simp_all

lemma lb_inv_receive:
  assumes "lb_inv contents s" "p_bufs s = []"
  shows "lb_inv contents (producer_receive got s)"
proof (cases "p_vid s \<noteq> -1 \<and> got \<noteq> None")
  case True
  then obtain p where p: "got = Some p" by auto
  have "subseq ((tx_log s @ map snd (c_bufs s @ contents (ring s))) @ [snd p]) (map snd (rx_log s) @ [snd p])"
    using assms by (intro list_emb_append_mono) (auto simp: lb_inv_def)
  then show ?thesis using assms True p by (simp add: lb_inv_def producer_receive_def)
next
  case False
  then show ?thesis using assms by (cases got) (auto simp: producer_receive_def lb_inv_def)
qed

lemma lb_inv_forward:
  assumes ok: "fifo_ring R contents" and inv: "lb_inv contents s"
  shows "lb_inv contents (producer_forward R s)"
proof -
  obtain sent r where e: "enqueue_burst R (ring s) (p_bufs s) = (sent, r)" by (cases "enqueue_burst R (ring s) (p_bufs s)")
  have c: "contents r = contents (ring s) @ take sent (p_bufs s)" by (rule fifo_enqueue[OF ok e])
  have "mset (map fst (p_bufs s)) = mset (map fst (take sent (p_bufs s))) + mset (map fst (drop sent (p_bufs s)))"
    by (metis append_take_drop_id map_append mset_append)
  moreover have "subseq (tx_log s @ map snd (c_bufs s @ contents (ring s) @ take sent (p_bufs s))) (map snd (rx_log s))"
  proof (rule subseq_order.order_trans)
    have "subseq (map snd (take sent (p_bufs s))) (map snd (p_bufs s))"
      by (intro subseq_map prefix_imp_subseq take_is_prefix)
    then show "subseq (tx_log s @ map snd (c_bufs s @ contents (ring s) @ take sent (p_bufs s)))
        (tx_log s @ map snd (c_bufs s @ contents (ring s) @ p_bufs s))" by (simp add: subseq_app)
  qed (use inv in \<open>simp add: lb_inv_def\<close>)
  ultimately show ?thesis using inv by (simp add: lb_inv_def producer_forward_def e c ac_simps)
qed

lemma lb_inv_take:
  assumes ok: "fifo_ring R contents" and inv: "lb_inv contents s" "c_bufs s = []"
  shows "lb_inv contents (consumer_take R s)"
proof -
  obtain ps r where d: "dequeue_burst R (ring s) BURST_SIZE = (ps, r)" by (cases "dequeue_burst R (ring s) BURST_SIZE")
  from fifo_dequeue[OF ok d] inv show ?thesis by (simp add: lb_inv_def consumer_take_def d ac_simps)
qed

lemma lb_inv_send:
  assumes inv: "lb_inv contents s"
  shows "lb_inv contents (consumer_send n s)"
proof -
  let ?rest = "map snd (contents (ring s) @ p_bufs s)"
  have all: "subseq (tx_log s @ map snd (c_bufs s) @ ?rest) (map snd (rx_log s))"
    using inv by (simp add: lb_inv_def)
  have "subseq (tx_log s @ map snd (take n (c_bufs s)) @ ?rest) (map snd (rx_log s))"
  proof (rule subseq_order.order_trans[OF _ all])
    have "subseq (map snd (take n (c_bufs s))) (map snd (c_bufs s))"
      by (intro subseq_map prefix_imp_subseq take_is_prefix)
    then show "subseq (tx_log s @ map snd (take n (c_bufs s)) @ ?rest)
        (tx_log s @ map snd (c_bufs s) @ ?rest)"
      by (intro list_emb_append_mono) auto
  qed
  then show ?thesis using inv subseq_drop_mid[OF all]
    by (auto simp: lb_inv_def consumer_send_def ac_simps)
qed

lemma lb_inv_device:
  assumes "lb_inv contents s"
  shows "lb_inv contents (new_device vid s)" "lb_inv contents (destroy_device vid s)"
    "lb_inv contents (producer_read s)" "lb_inv contents (consumer_read s)"
  using assms by (simp_all add: new_device_def destroy_device_def producer_read_def consumer_read_def lb_inv_def)

lemma lb_inv_step: "lb_step R s t \<Longrightarrow> fifo_ring R contents \<Longrightarrow> lb_inv contents s \<Longrightarrow> lb_inv contents t"
  by (erule lb_stepE)
     (simp_all add: lb_inv_device lb_inv_receive lb_inv_forward lb_inv_take lb_inv_send)

lemma lb_reach_inv:
  assumes "fifo_ring R contents" "contents r\<^sub>0 = []" "lb_reach R r\<^sub>0 s"
  shows "lb_inv contents s"
  using assms(3) by (induction rule: lb_reach.induct) (auto intro: assms lb_inv_init lb_inv_step)

section \<open>Properties\<close>

text \<open>C19: With a ring that is a FIFO queue, no interleaving of the producer core, the consumer core and the
  device callbacks leaks a buffer or frees one twice: in every reachable state the buffers received
  are together exactly the buffers freed and those in the ring and in the two local arrays, each
  as often as it was received (also when the ring is full or the guest disconnects with packets
  in the ring).\<close>

theorem loopback_conserves_buffers:
  assumes "fifo_ring R contents" "contents r\<^sub>0 = []" "lb_reach R r\<^sub>0 s"
  shows "mset (map fst (rx_log s)) =
    mset (freed s) + mset (map fst (c_bufs s)) + mset (map fst (contents (ring s))) + mset (map fst (p_bufs s))"
  using lb_reach_inv[OF assms] by (simp add: lb_inv_def)

text \<open>C20: With a ring that is a FIFO queue, the loopback never reorders or invents packets: in every
  reachable state the packets already given to the guest, followed by those in the consumer's array,
  in the ring and in the producer's array, form a subsequence of the packets received from the guest.\<close>

theorem loopback_fifo:
  assumes "fifo_ring R contents" "contents r\<^sub>0 = []" "lb_reach R r\<^sub>0 s"
  shows "subseq (tx_log s @ map snd (c_bufs s) @ map snd (contents (ring s)) @ map snd (p_bufs s)) (map snd (rx_log s))"
  using lb_reach_inv[OF assms] by (simp add: lb_inv_def)

text \<open>A ring for the examples: a list of at most \<open>RING_SIZE - 1\<close> packets.\<close>

definition list_ring :: "pkt list ring_ops" where
  "list_ring = \<lparr>
     enqueue_burst = (\<lambda>r ps. let n = min (length ps) (RING_SIZE - 1 - length r) in (n, r @ take n ps)),
     dequeue_burst = (\<lambda>r n. (take n r, drop n r))\<rparr>"

lemma list_ring_fifo: "fifo_ring list_ring id"
  by (simp add: fifo_ring_def list_ring_def Let_def)

text \<open>A reachable state: one packet has gone around, another one is in the ring, and the guest is gone.\<close>

definition lb_demo :: "pkt list loopback" where
  "lb_demo = destroy_device 0 (producer_forward list_ring (producer_receive (Some (4, [3])) (producer_read
     (consumer_send 1 (consumer_take list_ring (consumer_read (producer_forward list_ring
     (producer_receive (Some (7, [1, 2])) (producer_read (new_device 0 (lb_init [])))))))))))"

lemmas lb_ops = destroy_device_def producer_forward_def producer_receive_def producer_read_def consumer_send_def
  consumer_take_def consumer_read_def new_device_def lb_init_def list_ring_def RING_SIZE_def BURST_SIZE_def Let_def

lemma lb_demo_values:
  "tx_log lb_demo = [[1, 2]]" "rx_log lb_demo = [(7, [1, 2]), (4, [3])]" "freed lb_demo = [7]"
  "ring lb_demo = [(4, [3])]" "c_bufs lb_demo = []" "p_bufs lb_demo = []"
  by (simp_all add: lb_demo_def lb_ops)

lemma lb_demo_reach: "lb_reach list_ring [] lb_demo"
  unfolding lb_demo_def
  by (rule reach_step[OF _ step_destroy] reach_step[OF _ step_forward] reach_step[OF _ step_receive]
      reach_step[OF _ step_pread] reach_step[OF _ step_send] reach_step[OF _ step_take] reach_step[OF _ step_cread]
      reach_step[OF _ step_new] reach_init)+
     (simp_all add: lb_ops)

theorem loopback_conserves_buffers_witness:
  "mset (map fst (rx_log lb_demo)) = mset [7] + mset (map fst (ring lb_demo)) \<and> ring lb_demo = [(4, [3])]"
  using loopback_conserves_buffers[OF list_ring_fifo _ lb_demo_reach] lb_demo_values by simp

theorem loopback_fifo_witness:
  "tx_log lb_demo = [[1, 2]] \<and> subseq (tx_log lb_demo @ map snd (ring lb_demo)) (map snd (rx_log lb_demo))"
  using loopback_fifo[OF list_ring_fifo _ lb_demo_reach] lb_demo_values by simp

end
