(* ===== verification/TapDevice.thy ===== *)
theory TapDevice
  imports Fmt Loopback
begin

text \<open>
  The DPDK experiments with virtual devices: the TAP echo src/code_dump/dpdkTapDevice/tap.cpp, the TCP
  back-pressure experiment backpressure.cpp beside it, and the vhost-user backend and frontend of
  src/code_dump/dpdkVirtioDevice and src/code_dump/dpdk/dpdkVirtioDevice.

  DPDK is a parameter: what a burst call delivers, how many packets it accepts, the clone of a buffer
  and the checksum functions are arguments. A buffer is known by its handle. The calls that hand a
  buffer over are recorded as events.
\<close>

section \<open>Bytes of a packet\<close>

definition get_bytes :: "u8 list \<Rightarrow> nat \<Rightarrow> nat \<Rightarrow> u8 list" where
  "get_bytes d off n = take n (drop off d)"

definition set_bytes :: "u8 list \<Rightarrow> nat \<Rightarrow> u8 list \<Rightarrow> u8 list" where
  "set_bytes d off bs = take off d @ bs @ drop (off + length bs) d"

section \<open>Window updates\<close>

text \<open>The checks at the beginning of \<^verbatim>\<open>send_tcp_window_update\<close>, and the place of the TCP header.\<close>

definition ether_type_of :: "u8 list \<Rightarrow> u16" where
  "ether_type_of d = be_word (get_bytes d 12 2)"

definition is_ipv4_tcp :: "u8 list \<Rightarrow> bool" where
  "is_ipv4_tcp d \<longleftrightarrow> ether_type_of d = 0x0800 \<and> d ! 23 = 6"

definition tcp_off :: "u8 list \<Rightarrow> nat" where
  "tcp_off d = 14 + unat (d ! 14 AND 0x0f) * 4"

definition swap_bytes :: "nat \<Rightarrow> nat \<Rightarrow> nat \<Rightarrow> u8 list \<Rightarrow> u8 list" where
  "swap_bytes a b n d = (let tmp = get_bytes d a n in set_bytes (set_bytes d a (get_bytes d b n)) b tmp)"

text \<open>\<open>ip_cksum\<close> and \<open>tcp_cksum\<close> stand for \<^verbatim>\<open>rte_ipv4_cksum\<close> and \<^verbatim>\<open>rte_ipv4_udptcp_cksum\<close>, applied to the
  packet with the place of its TCP header.\<close>

definition window_update ::
  "(u8 list \<Rightarrow> u16) \<Rightarrow> (u8 list \<Rightarrow> nat \<Rightarrow> u16) \<Rightarrow> u16 \<Rightarrow> u8 list \<Rightarrow> u8 list" where
  "window_update ip_cksum tcp_cksum window_val d =
     (let t = tcp_off d;
          d = swap_bytes 6 0 6 d;
          d = swap_bytes 26 30 4 d;
          d = swap_bytes t (t + 2) 2 d;
          sent_seq = (be_word (get_bytes d (t + 4) 4) :: u32);
          d = set_bytes d (t + 8) (be_bytes 4 (sent_seq + 1));
          d = set_bytes d (t + 13) [0x10];
          d = set_bytes d (t + 14) (be_bytes 2 window_val);
          d = set_bytes d 24 [0, 0];
          d = set_bytes d 24 (le_bytes 2 (ip_cksum d));
          d = set_bytes d (t + 16) [0, 0] in
      set_bytes d (t + 16) (le_bytes 2 (tcp_cksum d t)))"

section \<open>The back-pressure experiment\<close>

datatype mbuf_event = Tx mbuf | Clone mbuf mbuf | Free mbuf

text \<open>\<open>data_of\<close> gives the data that a buffer points to (a clone points to the data of its original), \<open>dat\<close>
  the bytes there; \<open>bp_sent\<close> holds the frames given to the driver. The time is in seconds.\<close>

record bp_state =
  keep_running :: bool
  pkt_count :: int
  throttled :: bool
  start_time :: int
  saved_mbuf :: "mbuf option"
  data_of :: "mbuf \<Rightarrow> nat"
  dat :: "nat \<Rightarrow> u8 list"
  bp_sent :: "u8 list list"
  mb_events :: "mbuf_event list"
  bp_out :: string

definition bp_init :: "int \<Rightarrow> bp_state" where
  "bp_init now = \<lparr>keep_running = True, pkt_count = 0, throttled = False, start_time = now, saved_mbuf = None,
     data_of = (\<lambda>h. h), dat = (\<lambda>a. []), bp_sent = [], mb_events = [], bp_out = []\<rparr>"

definition bp_signal :: "bp_state \<Rightarrow> bp_state" where
  "bp_signal s = s\<lparr>keep_running := False,
     bp_out := bp_out s @ [CHR 0x0A] @ ''[SIGNAL] Cleaning up and exiting...'' @ [CHR 0x0A]\<rparr>"

type_synonym cksums = "(u8 list \<Rightarrow> u16) \<times> (u8 list \<Rightarrow> nat \<Rightarrow> u16)"

text \<open>\<^verbatim>\<open>send_tcp_window_update\<close>: a packet that is not TCP over IPv4 is left alone; a null buffer is a crash.\<close>

definition send_tcp_window_update :: "cksums \<Rightarrow> mbuf option \<Rightarrow> u16 \<Rightarrow> bp_state \<Rightarrow> bp_state res" where
  "send_tcp_window_update ck m window_val s =
     (case m of
        None \<Rightarrow> Inl (SegFault 0)
      | Some h \<Rightarrow>
          let a = data_of s h; d = dat s a in
          if ether_type_of d \<noteq> 0x0800 then Inr s
          else if d ! 23 \<noteq> 6 then Inr s
          else let d = window_update (fst ck) (snd ck) window_val d in
               Inr (s\<lparr>dat := (dat s)(a := d), bp_sent := bp_sent s @ [d], mb_events := mb_events s @ [Tx h]\<rparr>))"

definition print_bp :: "string \<Rightarrow> bp_state \<Rightarrow> bp_state" where
  "print_bp line s = s\<lparr>bp_out := bp_out s @ line @ [CHR 0x0A]\<rparr>"

definition free_mbuf :: "mbuf option \<Rightarrow> bp_state \<Rightarrow> bp_state" where
  "free_mbuf m s = (case m of None \<Rightarrow> s | Some h \<Rightarrow> s\<lparr>mb_events := mb_events s @ [Free h]\<rparr>)"

text \<open>One received buffer \<open>h\<close> at time \<open>now\<close>; \<open>clone\<close> is the answer of \<^verbatim>\<open>rte_pktmbuf_clone\<close>.\<close>

definition bp_packet :: "cksums \<Rightarrow> int \<Rightarrow> mbuf option \<Rightarrow> mbuf \<Rightarrow> bp_state \<Rightarrow> bp_state res" where
  "bp_packet ck now clone h s =
     (if throttled s then Inr (free_mbuf (Some h) s)
      else let n = pkt_count s + 1;
               s = print_bp (''Captured Packet #'' @ fmt_d n) (s\<lparr>pkt_count := n\<rparr>) in
        if n \<ge> 5 then
          bindE (send_tcp_window_update ck (Some h) 0 (print_bp ''>>> BACKPRESSURE: Sending Window Zero ACK'' s)) (\<lambda>s.
            let s = (case clone of
                       None \<Rightarrow> s\<lparr>saved_mbuf := None\<rparr>
                     | Some c \<Rightarrow> s\<lparr>saved_mbuf := Some c, data_of := (data_of s)(c := data_of s h),
                                   mb_events := mb_events s @ [Clone h c]\<rparr>) in
            Inr (free_mbuf (Some h) (s\<lparr>throttled := True, start_time := now\<rparr>)))
        else Inr (free_mbuf (Some h) s))"

text \<open>A burst: each buffer with its data and the answer to a clone of it.\<close>

fun bp_burst :: "cksums \<Rightarrow> int \<Rightarrow> (mbuf \<times> u8 list \<times> mbuf option) list \<Rightarrow> bp_state \<Rightarrow> bp_state res" where
  "bp_burst ck now [] s = Inr s"
| "bp_burst ck now ((h, d, clone) # bs) s =
     bindE (bp_packet ck now clone h (s\<lparr>data_of := (data_of s)(h := h), dat := (dat s)(h := d)\<rparr>)) (bp_burst ck now bs)"

definition bp_release :: "cksums \<Rightarrow> int \<Rightarrow> bp_state \<Rightarrow> bp_state res" where
  "bp_release ck now s =
     (if throttled s \<and> now - start_time s \<ge> 60 then
        bindE (send_tcp_window_update ck (saved_mbuf s) 16384 (print_bp ''<<< RESUMING: Restoring Window Size'' s)) (\<lambda>s.
          Inr ((free_mbuf (saved_mbuf s) s)\<lparr>throttled := False, pkt_count := 0\<rparr>))
      else Inr s)"

text \<open>An iteration of the main loop, and the loop over the answers of the receive calls, each with its time.\<close>

definition bp_iteration :: "cksums \<Rightarrow> int \<times> (mbuf \<times> u8 list \<times> mbuf option) list \<Rightarrow> bp_state \<Rightarrow> bp_state res" where
  "bp_iteration ck x s = bindE (bp_burst ck (fst x) (snd x) s) (bp_release ck (fst x))"

fun bp_loop :: "cksums \<Rightarrow> (int \<times> (mbuf \<times> u8 list \<times> mbuf option) list) list \<Rightarrow> bp_state \<Rightarrow> bp_state res" where
  "bp_loop ck [] s = Inr s"
| "bp_loop ck (x # xs) s = (if keep_running s then bindE (bp_iteration ck x s) (bp_loop ck xs) else Inr s)"

section \<open>Port set-up\<close>

text \<open>The answers of the calls that set up a port, and what becomes of the program: an error message, or the
  port that was started. \<^verbatim>\<open>tap.cpp\<close> looks only at the first two answers.\<close>

record port_answers =
  pa_eal :: int
  pa_hotplug :: int
  pa_port_by_name :: int
  pa_pool :: bool
  pa_configure :: "nat \<Rightarrow> int"
  pa_rx_queue :: "nat \<Rightarrow> int"
  pa_tx_queue :: "nat \<Rightarrow> int"
  pa_start :: int

definition bp_setup :: "port_answers \<Rightarrow> string + unit" where
  "bp_setup a =
     (if pa_eal a < 0 then Inl ''EAL init failed''
      else if pa_hotplug a < 0 then Inl (''Failed to create vdev. Run '' @ [CHR 0x27] @ ''sudo ip link delete tap0'' @ [CHR 0x27] @ '' first.'')
      else if pa_port_by_name a < 0 then Inl ''Port ID not found''
      else if pa_configure a 1 < 0 then Inl ''Config failed''
      else if pa_rx_queue a 0 < 0 then Inl ''RX Setup failed''
      else if pa_tx_queue a 0 < 0 then Inl ''TX Setup failed''
      else if pa_start a < 0 then Inl ''Start failed''
      else Inr ())"

definition tap_setup :: "port_answers \<Rightarrow> string + unit" where
  "tap_setup a =
     (if pa_eal a < 0 then Inl ''Error with EAL initialization''
      else if pa_hotplug a < 0 then Inl ''Failed to create virtio-user vdev''
      else Inr ())"

text \<open>The frontend configures \<open>n\<close> queues in each direction, 3 in one copy and 1 in the other.\<close>

fun queue_setup :: "port_answers \<Rightarrow> nat list \<Rightarrow> string + unit" where
  "queue_setup a [] = Inr ()"
| "queue_setup a (q # qs) =
     (if pa_rx_queue a q < 0 then Inl ''Failed to setup RX queue''
      else if pa_tx_queue a q < 0 then Inl ''Failed to setup TX queue''
      else queue_setup a qs)"

definition setup_port :: "nat \<Rightarrow> port_answers \<Rightarrow> string + unit" where
  "setup_port n a =
     (if pa_configure a n < 0 then Inl ''Failed to configure port''
      else bindE (queue_setup a [0..<n]) (\<lambda>_.
        if pa_start a < 0 then Inl ''Failed to start port'' else Inr ()))"

definition frontend_construct :: "nat \<Rightarrow> port_answers \<Rightarrow> string + unit" where
  "frontend_construct n a =
     (if pa_eal a < 0 then Inl ''EAL Init Failed''
      else if \<not> pa_pool a then Inl ''Mbuf Pool Allocation Failed''
      else setup_port n a)"

section \<open>The TAP echo\<close>

record io_state =
  io_events :: "mbuf_event list"
  io_out :: string

text \<open>One iteration: the burst \<open>bufs\<close> is given to the driver, which accepts \<open>nb_tx\<close> packets; the rest is
  freed.\<close>

definition tap_iteration :: "mbuf list \<Rightarrow> nat \<Rightarrow> io_state \<Rightarrow> io_state" where
  "tap_iteration bufs nb_tx s =
     (if length bufs > 0 then
        s\<lparr>io_out := io_out s @ ''Received '' @ fmt_u (length bufs) @ '' packets from kernel.'' @ [CHR 0x0A],
          io_events := io_events s @ map Tx (take nb_tx bufs) @ (if nb_tx < length bufs then map Free (drop nb_tx bufs) else [])\<rparr>
      else s)"

section \<open>The frontend\<close>

definition PRIV_DATA_SIZE :: nat where "PRIV_DATA_SIZE = 48"

text \<open>The packet written into the data room \<open>old\<close>, with the two random addresses.\<close>

definition fill_packet :: "u8 list \<Rightarrow> u8 list \<Rightarrow> u8 list \<Rightarrow> u8 list" where
  "fill_packet src dst old =
     (let d = set_bytes old 0 (replicate PRIV_DATA_SIZE 0xAA);
          d = set_bytes d (PRIV_DATA_SIZE + 6) src;
          d = set_bytes d PRIV_DATA_SIZE dst;
          d = set_bytes d (PRIV_DATA_SIZE + 12) (be_bytes 2 (0x0800 :: u16)) in
      take (PRIV_DATA_SIZE + 14 + 46) d)"

text \<open>\<^verbatim>\<open>send_burst\<close> for the answers of the 32 allocations (each a buffer, its data room and two addresses) and the
  number of packets that the driver accepts. A failed allocation leaves a null pointer in the array,
  which the program hands to the driver with the others.\<close>

type_synonym alloc = "(mbuf \<times> u8 list \<times> u8 list \<times> u8 list) option"

definition burst_array :: "alloc list \<Rightarrow> (mbuf \<times> u8 list) option list" where
  "burst_array as = map (map_option (\<lambda>(h, room, src, dst). (h, fill_packet src dst room))) as"

definition send_burst :: "alloc list \<Rightarrow> nat \<Rightarrow> io_state \<Rightarrow> (u8 list list \<times> io_state) res" where
  "send_burst as n_sent s =
     (if None \<in> set (burst_array as) then Inl (SegFault 0)
      else let pkts = map the (burst_array as);
               s = (if n_sent > 0 then s\<lparr>io_out := io_out s @ ''[FRONTEND] Sent '' @ fmt_u n_sent @ '' packets.'' @ [CHR 0x0A]\<rparr> else s) in
        Inr (map snd (take n_sent pkts),
          s\<lparr>io_events := io_events s @ map (\<lambda>p. Tx (fst p)) (take n_sent pkts) @
              (if n_sent < BURST_SIZE then map (\<lambda>p. Free (fst p)) (drop n_sent pkts) else [])\<rparr>))"

definition receive_burst :: "mbuf list \<Rightarrow> io_state \<Rightarrow> io_state" where
  "receive_burst bufs s =
     (if length bufs > 0 then
        s\<lparr>io_out := io_out s @ ''[FRONTEND] Received '' @ fmt_u (length bufs) @ '' packets back from loopback.'' @ [CHR 0x0A],
          io_events := io_events s @ map Free bufs\<rparr>
      else s)"

section \<open>The backend\<close>

definition MEMPOOL_SIZE :: nat where "MEMPOOL_SIZE = 16383"

text \<open>\<open>be_rx\<close>, \<open>be_tx\<close> and \<open>be_freed\<close> record the buffers received from the guest, those whose data the guest
  accepted, and those freed.\<close>

record robust_backend =
  active_vid :: int
  vring_ready :: bool
  force_quit :: bool
  total_pkts :: u64
  last_print :: u64
  be_rx :: "mbuf list"
  be_tx :: "mbuf list"
  be_freed :: "mbuf list"
  be_out :: string

definition backend_init :: "u64 \<Rightarrow> robust_backend" where
  "backend_init now = \<lparr>active_vid = -1, vring_ready = False, force_quit = False, total_pkts = 0, last_print = now,
     be_rx = [], be_tx = [], be_freed = [], be_out = []\<rparr>"

definition be_new_device :: "string \<Rightarrow> int \<Rightarrow> robust_backend \<Rightarrow> robust_backend" where
  "be_new_device ifname vid s =
     s\<lparr>active_vid := vid, be_out := be_out s @ [CHR 0x0A] @ ''[CALLBACK] Device Connected: '' @ ifname @ '' (vid: '' @
       fmt_d vid @ '')'' @ [CHR 0x0A]\<rparr>"

definition be_destroy_device :: "int \<Rightarrow> robust_backend \<Rightarrow> robust_backend" where
  "be_destroy_device vid s =
     s\<lparr>active_vid := -1, vring_ready := False,
       be_out := be_out s @ [CHR 0x0A] @ ''[CALLBACK] Device Disconnected (vid: '' @ fmt_d vid @ '')'' @ [CHR 0x0A]\<rparr>"

definition be_vring_state_changed :: "u16 \<Rightarrow> int \<Rightarrow> robust_backend \<Rightarrow> robust_backend" where
  "be_vring_state_changed queue_id enable s =
     (if queue_id = 0 then
        s\<lparr>vring_ready := (enable = 1),
          be_out := be_out s @ ''[CALLBACK] Vring 0 state: '' @ (if enable \<noteq> 0 then ''READY'' else ''NOT READY'') @ [CHR 0x0A]\<rparr>
      else s)"

definition be_signal :: "robust_backend \<Rightarrow> robust_backend" where
  "be_signal s = s\<lparr>force_quit := True\<rparr>"

text \<open>The statistics at the end of an iteration, with the timer and its frequency.\<close>

definition print_stats :: "u64 \<Rightarrow> u64 \<Rightarrow> robust_backend \<Rightarrow> robust_backend" where
  "print_stats now hz s =
     (if now - last_print s > hz then
        (if total_pkts s > 0 then
           s\<lparr>be_out := be_out s @ [CHR 0x0D] @ ''[BACKEND] Throughput: '' @ fmt_u (unat (total_pkts s)) @ '' pkts/sec'',
             total_pkts := 0, last_print := now\<rparr>
         else s\<lparr>last_print := now\<rparr>)
      else s)"

text \<open>An iteration of \<^verbatim>\<open>worker_loop\<close>: \<open>pkts\<close> is the burst received, of which the guest accepts \<open>n_tx\<close>.\<close>

definition worker_iteration :: "mbuf list \<Rightarrow> nat \<Rightarrow> u64 \<Rightarrow> u64 \<Rightarrow> robust_backend \<Rightarrow> robust_backend" where
  "worker_iteration pkts n_tx now hz s =
     (if force_quit s then s
      else if active_vid s < 0 \<or> \<not> vring_ready s then s
      else print_stats now hz
        (if length pkts > 0 then
           s\<lparr>be_rx := be_rx s @ pkts, be_tx := be_tx s @ take n_tx pkts, total_pkts := total_pkts s + of_nat n_tx,
             be_freed := be_freed s @ (if n_tx < length pkts then drop n_tx pkts else [])\<rparr>
         else s))"

text \<open>Construction, \<^verbatim>\<open>run\<close> and the destructor, with the answers of DPDK; \<open>work\<close> stands for the worker loop.\<close>

datatype be_call = Unlink string | BeRegister string | BeCallbacks string | BeStart string | BeWork | BeUnregister string | BeCleanup

record be_answers =
  ba_eal :: int
  ba_pool :: bool
  ba_register :: int
  ba_start :: int

definition be_socket_path :: string where "be_socket_path = ''/tmp/vhost-user.sock''"

definition be_run :: "be_answers \<Rightarrow> string option \<times> be_call list" where
  "be_run a =
     (if ba_register a < 0 then (Some ''Registration Failed'', [Unlink be_socket_path, BeRegister be_socket_path])
      else let cs = [Unlink be_socket_path, BeRegister be_socket_path, BeCallbacks be_socket_path, BeStart be_socket_path] in
      if ba_start a < 0 then (Some ''Driver Start Failed'', cs) else (None, cs @ [BeWork]))"

definition backend_main :: "be_answers \<Rightarrow> int \<times> string \<times> be_call list" where
  "backend_main a =
     (let fatal = (\<lambda>e. ''FATAL: '' @ e @ [CHR 0x0A]) in
      if ba_eal a < 0 then (1, fatal ''EAL Init Failed'', [])
      else if \<not> ba_pool a then (1, fatal ''Mbuf Pool Failed'', [])
      else case be_run a of (err, cs) \<Rightarrow>
        let cs = cs @ [BeUnregister be_socket_path, Unlink be_socket_path, BeCleanup] in
        (case err of Some e \<Rightarrow> (1, fatal e, cs) | None \<Rightarrow> (0, [], cs)))"

section \<open>Lemmas on the bytes of a packet\<close>

lemma length_get_bytes [simp]: "off + n \<le> length d \<Longrightarrow> length (get_bytes d off n) = n"
  by (simp add: get_bytes_def)

lemma nth_get_bytes: "off + n \<le> length d \<Longrightarrow> i < n \<Longrightarrow> get_bytes d off n ! i = d ! (off + i)"
  by (simp add: get_bytes_def)

lemma length_set_bytes [simp]: "off + length bs \<le> length d \<Longrightarrow> length (set_bytes d off bs) = length d"
  by (simp add: set_bytes_def)

lemma nth_set_bytes:
  assumes "off + length bs \<le> length d" "i < length d"
  shows "set_bytes d off bs ! i = (if off \<le> i \<and> i < off + length bs then bs ! (i - off) else d ! i)"
  using assms by (auto simp: set_bytes_def nth_append min_def)

lemma length_swap_bytes [simp]: "a + n \<le> length d \<Longrightarrow> b + n \<le> length d \<Longrightarrow> length (swap_bytes a b n d) = length d"
  by (simp add: swap_bytes_def Let_def)

lemma nth_swap_bytes:
  assumes "a + n \<le> length d" "b + n \<le> length d" "a + n \<le> b \<or> b + n \<le> a" "i < length d"
  shows "swap_bytes a b n d ! i = (if a \<le> i \<and> i < a + n then d ! (b + (i - a))
    else if b \<le> i \<and> i < b + n then d ! (a + (i - b)) else d ! i)"
  using assms by (auto simp: swap_bytes_def Let_def nth_set_bytes nth_get_bytes)

lemma get_bytes_split: "get_bytes x a (n + m) = get_bytes x a n @ get_bytes x (a + n) m"
  unfolding get_bytes_def take_add drop_drop by (simp add: add.commute)

lemma get_bytes_eqI:
  assumes "off + n \<le> length d" "off' + n \<le> length d'" "\<And>i. i < n \<Longrightarrow> d ! (off + i) = d' ! (off' + i)"
  shows "get_bytes d off n = get_bytes d' off' n"
  by (rule nth_equalityI) (use assms in \<open>simp_all add: nth_get_bytes\<close>)

section \<open>What a window update sends\<close>

text \<open>The packet before the checksums are written, byte by byte.\<close>

definition reply_byte :: "u16 \<Rightarrow> u8 list \<Rightarrow> nat \<Rightarrow> u8" where
  "reply_byte w d i =
     (let t = tcp_off d in
      if i < 6 then d ! (i + 6) else if i < 12 then d ! (i - 6)
      else if 26 \<le> i \<and> i < 30 then d ! (i + 4) else if 30 \<le> i \<and> i < 34 then d ! (i - 4)
      else if t \<le> i \<and> i < t + 2 then d ! (i + 2) else if t + 2 \<le> i \<and> i < t + 4 then d ! (i - 2)
      else if t + 8 \<le> i \<and> i < t + 12 then be_bytes 4 (be_word (get_bytes d (t + 4) 4) + 1 :: u32) ! (i - (t + 8))
      else if i = t + 13 then 0x10
      else if t + 14 \<le> i \<and> i < t + 16 then be_bytes 2 w ! (i - (t + 14))
      else d ! i)"

text \<open>A packet whose IP header has at least its regular length, in a data room with space for the headers.\<close>

definition room_ok :: "u8 list \<Rightarrow> bool" where
  "room_ok d \<longleftrightarrow> 34 \<le> tcp_off d \<and> tcp_off d + 20 \<le> length d"

definition swapped :: "nat \<Rightarrow> u8 list \<Rightarrow> u8 list" where
  "swapped t d = swap_bytes t (t + 2) 2 (swap_bytes 26 30 4 (swap_bytes 6 0 6 d))"

lemma length_swapped [simp]: "34 \<le> t \<Longrightarrow> t + 20 \<le> length d \<Longrightarrow> length (swapped t d) = length d"
  by (simp add: swapped_def)

lemma nth_swapped:
  assumes "34 \<le> t" "t + 20 \<le> length d" "i < length d"
  shows "swapped t d ! i =
     (if i < 6 then d ! (i + 6) else if i < 12 then d ! (i - 6)
      else if 26 \<le> i \<and> i < 30 then d ! (i + 4) else if 30 \<le> i \<and> i < 34 then d ! (i - 4)
      else if t \<le> i \<and> i < t + 2 then d ! (i + 2) else if t + 2 \<le> i \<and> i < t + 4 then d ! (i - 2) else d ! i)"
proof -
  let ?a = "swap_bytes 6 0 6 d" and ?b = "swap_bytes 26 30 4 (swap_bytes 6 0 6 d)"
  have len: "length ?a = length d" "length ?b = length d" using assms by simp_all
  have a: "?a ! j = (if j < 6 then d ! (j + 6) else if j < 12 then d ! (j - 6) else d ! j)" if "j < length d" for j
    using assms that by (subst nth_swap_bytes) (auto simp: add.commute)
  have b: "?b ! j = (if 26 \<le> j \<and> j < 30 then ?a ! (j + 4) else if 30 \<le> j \<and> j < 34 then ?a ! (j - 4) else ?a ! j)"
    if "j < length d" for j
    using assms that len by (subst nth_swap_bytes) (auto simp: add.commute)
  have c: "swapped t d ! i = (if t \<le> i \<and> i < t + 2 then ?b ! (i + 2) else if t + 2 \<le> i \<and> i < t + 4 then ?b ! (i - 2) else ?b ! i)"
    using assms len unfolding swapped_def by (subst nth_swap_bytes) (auto simp: add.commute)
  show ?thesis unfolding c using assms by (auto simp: b a)
qed

lemma window_update_swapped:
  "window_update ip tcp w d =
     (let t = tcp_off d; e = swapped t d;
          f = set_bytes (set_bytes (set_bytes e (t + 8) (be_bytes 4 (be_word (get_bytes e (t + 4) 4) + 1 :: u32)))
                (t + 13) [0x10]) (t + 14) (be_bytes 2 w);
          g = set_bytes (set_bytes f 24 [0, 0]) 24 (le_bytes 2 (ip (set_bytes f 24 [0, 0])));
          h = set_bytes g (t + 16) [0, 0] in
      set_bytes h (t + 16) (le_bytes 2 (tcp h t)))"
  by (simp add: window_update_def swapped_def Let_def)

lemma window_update_nth:
  assumes "room_ok d"
  shows "length (window_update ip tcp w d) = length d"
    and "i < length d \<Longrightarrow> i \<notin> {24, 25, tcp_off d + 16, tcp_off d + 17} \<Longrightarrow> window_update ip tcp w d ! i = reply_byte w d i"
proof -
  define t where "t = tcp_off d"
  define e where "e = swapped t d"
  have t: "34 \<le> t" "t + 20 \<le> length d" using assms by (simp_all add: room_ok_def t_def)
  have le: "length e = length d" using t by (simp add: e_def)
  have "get_bytes e (t + 4) 4 = get_bytes d (t + 4) 4"
    using t le by (intro get_bytes_eqI) (simp_all add: e_def nth_swapped)
  then have seq: "be_word (get_bytes e (t + 4) 4) = (be_word (get_bytes d (t + 4) 4) :: u32)" by simp
  note defs = window_update_swapped Let_def t_def[symmetric] e_def[symmetric]
  show "length (window_update ip tcp w d) = length d"
    unfolding defs using t le by simp
  assume i: "i < length d" "i \<notin> {24, 25, tcp_off d + 16, tcp_off d + 17}"
  have r: "reply_byte w d i = (if t + 8 \<le> i \<and> i < t + 12 then be_bytes 4 (be_word (get_bytes e (t + 4) 4) + 1 :: u32) ! (i - (t + 8))
      else if i = t + 13 then 0x10 else if t + 14 \<le> i \<and> i < t + 16 then be_bytes 2 w ! (i - (t + 14)) else e ! i)"
    unfolding seq using t i by (auto simp: reply_byte_def Let_def t_def[symmetric] e_def nth_swapped)
  have ne: "i \<noteq> 24" "i \<noteq> 25" "i \<noteq> t + 16" "i \<noteq> t + 17" using i(2) by (simp_all add: t_def)
  then have out: "\<not> (24 \<le> i \<and> i < 26)" "\<not> (t + 16 \<le> i \<and> i < t + 18)" by linarith+
  show "window_update ip tcp w d ! i = reply_byte w d i"
    unfolding r defs using t le i(1) out by (auto simp: nth_set_bytes)
qed

text \<open>Two updates of the same packet turn its addresses round twice.\<close>

lemma tcp_off_update: "room_ok d \<Longrightarrow> tcp_off (window_update ip tcp w d) = tcp_off d"
  using window_update_nth(2)[of d 14 ip tcp w] by (simp add: room_ok_def tcp_off_def reply_byte_def Let_def)

lemma room_ok_update: "room_ok d \<Longrightarrow> room_ok (window_update ip tcp w d)"
  by (simp add: room_ok_def tcp_off_update window_update_nth(1))

lemma is_ipv4_tcp_update:
  assumes "room_ok d" "is_ipv4_tcp d"
  shows "is_ipv4_tcp (window_update ip tcp w d)"
proof -
  have "get_bytes (window_update ip tcp w d) 12 2 = get_bytes d 12 2"
    using assms(1) window_update_nth[OF assms(1)]
    by (intro get_bytes_eqI) (auto simp: room_ok_def reply_byte_def Let_def)
  moreover have "window_update ip tcp w d ! 23 = d ! 23"
    using assms(1) window_update_nth[OF assms(1)] by (auto simp: room_ok_def reply_byte_def Let_def)
  ultimately show ?thesis using assms(2) by (simp add: is_ipv4_tcp_def ether_type_of_def)
qed

text \<open>The fields of the update, in terms of those of the packet.\<close>

lemma window_update_fields:
  fixes ip tcp w d
  assumes "room_ok d"
  defines "r \<equiv> window_update ip tcp w d" and "t \<equiv> tcp_off d"
  shows "get_bytes r 0 6 = get_bytes d 6 6" "get_bytes r 6 6 = get_bytes d 0 6"
    "get_bytes r 26 4 = get_bytes d 30 4" "get_bytes r 30 4 = get_bytes d 26 4"
    "get_bytes r t 2 = get_bytes d (t + 2) 2" "get_bytes r (t + 2) 2 = get_bytes d t 2"
    "get_bytes r (t + 4) 4 = get_bytes d (t + 4) 4"
    "get_bytes r (t + 8) 4 = be_bytes 4 (be_word (get_bytes d (t + 4) 4) + 1 :: u32)"
    "r ! (t + 13) = 0x10" "get_bytes r (t + 14) 2 = be_bytes 2 w"
proof -
  have len: "length r = length d" unfolding r_def by (rule window_update_nth(1)[OF assms(1)])
  have t: "34 \<le> t" "t + 20 \<le> length d" using assms(1) by (simp_all add: room_ok_def t_def)
  have byte: "r ! i = reply_byte w d i" if "i < length d" "i \<notin> {24, 25, t + 16, t + 17}" for i
    unfolding r_def using window_update_nth(2)[OF assms(1)] that by (simp add: t_def)
  note simps = reply_byte_def Let_def t_def[symmetric] add.commute
  show "get_bytes r 0 6 = get_bytes d 6 6" "get_bytes r 6 6 = get_bytes d 0 6"
    "get_bytes r 26 4 = get_bytes d 30 4" "get_bytes r 30 4 = get_bytes d 26 4"
    "get_bytes r t 2 = get_bytes d (t + 2) 2" "get_bytes r (t + 2) 2 = get_bytes d t 2"
    "get_bytes r (t + 4) 4 = get_bytes d (t + 4) 4"
    using t len byte by (auto intro!: get_bytes_eqI simp: simps)
  show "r ! (t + 13) = 0x10" using t byte by (simp add: simps)
  show "get_bytes r (t + 8) 4 = be_bytes 4 (be_word (get_bytes d (t + 4) 4) + 1 :: u32)"
    "get_bytes r (t + 14) 2 = be_bytes 2 w"
    using t len byte by (auto intro!: nth_equalityI simp: nth_get_bytes simps)
qed

section \<open>Properties\<close>

text \<open>The checksum fields: each holds what the function of DPDK answers for the packet in which that field
  is zero; the checksum of the IP header is computed while the TCP checksum is still that of the packet.\<close>

lemma window_update_checksums:
  fixes ip tcp w d
  assumes "room_ok d"
  defines "r \<equiv> window_update ip tcp w d" and "t \<equiv> tcp_off d"
  shows "get_bytes r 24 2 = le_bytes 2 (ip (set_bytes (set_bytes r 24 [0, 0]) (t + 16) (get_bytes d (t + 16) 2)))"
    "get_bytes r (t + 16) 2 = le_bytes 2 (tcp (set_bytes r (t + 16) [0, 0]) t)"
proof -
  have t: "34 \<le> t" "t + 20 \<le> length d" using assms(1) by (simp_all add: room_ok_def t_def)
  define e where "e = swapped t d"
  define f where "f = set_bytes (set_bytes (set_bytes e (t + 8) (be_bytes 4 (be_word (get_bytes e (t + 4) 4) + 1 :: u32)))
      (t + 13) [0x10]) (t + 14) (be_bytes 2 w)"
  define g0 where "g0 = set_bytes f 24 [0, 0]"
  define g where "g = set_bytes g0 24 (le_bytes 2 (ip g0))"
  define h where "h = set_bytes g (t + 16) [0, 0]"
  have r: "r = set_bytes h (t + 16) (le_bytes 2 (tcp h t))"
    unfolding r_def window_update_swapped Let_def t_def[symmetric] e_def[symmetric] f_def[symmetric]
      g0_def[symmetric] g_def[symmetric] h_def[symmetric] ..
  have len: "length e = length d" "length f = length d" "length g0 = length d" "length g = length d" "length h = length d"
    "length r = length d"
    using t by (simp_all add: e_def f_def g0_def g_def h_def r)
  have nth: "f ! i = (if t + 8 \<le> i \<and> i < t + 12 then be_bytes 4 (be_word (get_bytes e (t + 4) 4) + 1 :: u32) ! (i - (t + 8))
      else if i = t + 13 then 0x10 else if t + 14 \<le> i \<and> i < t + 16 then be_bytes 2 w ! (i - (t + 14)) else e ! i)"
    "g0 ! i = (if 24 \<le> i \<and> i < 26 then [0, 0] ! (i - 24) else f ! i)"
    "g ! i = (if 24 \<le> i \<and> i < 26 then le_bytes 2 (ip g0) ! (i - 24) else g0 ! i)"
    "h ! i = (if t + 16 \<le> i \<and> i < t + 18 then [0, 0] ! (i - (t + 16)) else g ! i)"
    "r ! i = (if t + 16 \<le> i \<and> i < t + 18 then le_bytes 2 (tcp h t) ! (i - (t + 16)) else h ! i)"
    if "i < length d" for i
    using that t len by (auto simp: f_def g0_def g_def h_def r nth_set_bytes)
  have "set_bytes r (t + 16) [0, 0] = h"
    by (rule nth_equalityI) (use t len nth in \<open>auto simp: nth_set_bytes\<close>)
  then show "get_bytes r (t + 16) 2 = le_bytes 2 (tcp (set_bytes r (t + 16) [0, 0]) t)"
    using t len nth by (auto intro!: nth_equalityI simp: nth_get_bytes)
  have "f ! i = d ! i" if "t + 16 \<le> i" "i < t + 18" for i
    using that t len nth by (simp add: e_def nth_swapped)
  then have "set_bytes (set_bytes r 24 [0, 0]) (t + 16) (get_bytes d (t + 16) 2) = g0"
    using t len nth by (intro nth_equalityI) (auto simp: nth_set_bytes nth_get_bytes)
  then show "get_bytes r 24 2 = le_bytes 2 (ip (set_bytes (set_bytes r 24 [0, 0]) (t + 16) (get_bytes d (t + 16) 2)))"
    using t len nth by (auto intro!: nth_equalityI simp: nth_get_bytes)
qed

text \<open>C26: A window update answers the sender. For a packet with a regular IP header and room for the TCP header
  behind it, the frame sent has source and destination MAC address, IP address and port exchanged, acknowledges
  the byte after the sequence number (modulo \<open>2\<^sup>3\<^sup>2\<close>), has exactly the ACK flag set and announces the window.
  Its two checksums are what the functions of DPDK compute for this very frame with the checksum in question
  set to zero. Every other byte is that of the packet, and so is the length.\<close>

theorem window_update_answers:
  assumes "room_ok d"
  shows "get_bytes (window_update ip tcp w d) 0 12 = get_bytes d 6 6 @ get_bytes d 0 6 \<and>
    get_bytes (window_update ip tcp w d) 26 8 = get_bytes d 30 4 @ get_bytes d 26 4 \<and>
    get_bytes (window_update ip tcp w d) (tcp_off d) 4 = get_bytes d (tcp_off d + 2) 2 @ get_bytes d (tcp_off d) 2 \<and>
    get_bytes (window_update ip tcp w d) (tcp_off d + 8) 4 = be_bytes 4 (be_word (get_bytes d (tcp_off d + 4) 4) + 1 :: u32) \<and>
    window_update ip tcp w d ! (tcp_off d + 13) = 0x10 \<and>
    get_bytes (window_update ip tcp w d) (tcp_off d + 14) 2 = be_bytes 2 w \<and>
    get_bytes (window_update ip tcp w d) 24 2 =
      le_bytes 2 (ip (set_bytes (set_bytes (window_update ip tcp w d) 24 [0, 0]) (tcp_off d + 16) (get_bytes d (tcp_off d + 16) 2))) \<and>
    get_bytes (window_update ip tcp w d) (tcp_off d + 16) 2 =
      le_bytes 2 (tcp (set_bytes (window_update ip tcp w d) (tcp_off d + 16) [0, 0]) (tcp_off d)) \<and>
    length (window_update ip tcp w d) = length d \<and>
    (\<forall>i < length d. i \<notin> {0..<12} \<union> {24..<34} \<union> {tcp_off d..<tcp_off d + 4} \<union> {tcp_off d + 8..<tcp_off d + 12} \<union>
       {tcp_off d + 13..<tcp_off d + 18} \<longrightarrow> window_update ip tcp w d ! i = d ! i)"
proof -
  let ?r = "window_update ip tcp w d" and ?t = "tcp_off d"
  note f = window_update_fields[OF assms, of ip tcp w]
  have "get_bytes ?r 0 12 = get_bytes d 6 6 @ get_bytes d 0 6" "get_bytes ?r 26 8 = get_bytes d 30 4 @ get_bytes d 26 4"
    "get_bytes ?r ?t 4 = get_bytes d (?t + 2) 2 @ get_bytes d ?t 2"
    using get_bytes_split[of ?r 0 6 6] get_bytes_split[of ?r 26 4 4] get_bytes_split[of ?r ?t 2 2] f by simp_all
  moreover have "?r ! i = d ! i" if "i < length d" "i \<notin> {0..<12} \<union> {24..<34} \<union> {?t..<?t + 4} \<union> {?t + 8..<?t + 12} \<union>
      {?t + 13..<?t + 18}" for i
  proof -
    have "reply_byte w d i = d ! i" using that(2) by (auto simp: reply_byte_def Let_def)
    then show ?thesis using window_update_nth(2)[OF assms that(1), of ip tcp w] that(2) by auto
  qed
  ultimately show ?thesis
    using f(8-10) window_update_checksums[OF assms, of ip tcp w] window_update_nth(1)[OF assms] by blast
qed

text \<open>The update that should open the window again does not reach the sender. When the fifth packet is TCP
  over IPv4 and sixty seconds pass, the program sends two updates: the first, with window 0, answers the
  sender, but the second, with window 16384, is made from a clone that shares the already changed
  data, so that its addresses and ports are exchanged a second time and are those of the received
  packet itself. Moreover the program clones and frees the buffers after it has handed
  them to the driver.\<close>

theorem resume_update_misdirected:
  assumes "keep_running s" "\<not> throttled s" "pkt_count s = 4" "is_ipv4_tcp d" "room_ok d" "c \<noteq> h" "t1 + 60 \<le> t2"
  shows "\<exists>s' r1 r2. bp_loop ck [(t1, [(h, d, Some c)]), (t2, [])] s = Inr s' \<and> bp_sent s' = bp_sent s @ [r1, r2] \<and>
    get_bytes r1 0 12 = get_bytes d 6 6 @ get_bytes d 0 6 \<and> get_bytes r1 26 8 = get_bytes d 30 4 @ get_bytes d 26 4 \<and>
    get_bytes r2 0 12 = get_bytes d 0 12 \<and> get_bytes r2 26 8 = get_bytes d 26 8 \<and>
    get_bytes r2 (tcp_off d) 4 = get_bytes d (tcp_off d) 4 \<and> get_bytes r2 (tcp_off d + 14) 2 = be_bytes 2 (16384 :: u16) \<and>
    mb_events s' = mb_events s @ [Tx h, Clone h c, Free h, Tx c, Free c]"
proof -
  let ?u = "window_update (fst ck) (snd ck)"
  let ?r1 = "?u 0 d" and ?r2 = "?u 16384 (?u 0 d)"
  have ok: "room_ok ?r1" "is_ipv4_tcp ?r1" "tcp_off ?r1 = tcp_off d"
    using assms(4,5) by (simp_all add: room_ok_update is_ipv4_tcp_update tcp_off_update)
  note f = window_update_fields[OF assms(5), of "fst ck" "snd ck" 0]
    and g = window_update_fields[OF ok(1), of "fst ck" "snd ck" 16384, unfolded ok(3)]
  have r1: "get_bytes ?r1 0 12 = get_bytes d 6 6 @ get_bytes d 0 6" "get_bytes ?r1 26 8 = get_bytes d 30 4 @ get_bytes d 26 4"
    using get_bytes_split[of ?r1 0 6 6] get_bytes_split[of ?r1 26 4 4] f by simp_all
  have r2: "get_bytes ?r2 0 12 = get_bytes d 0 12" "get_bytes ?r2 26 8 = get_bytes d 26 8"
    "get_bytes ?r2 (tcp_off d) 4 = get_bytes d (tcp_off d) 4" "get_bytes ?r2 (tcp_off d + 14) 2 = be_bytes 2 (16384 :: u16)"
    using get_bytes_split[of ?r2 0 6 6] get_bytes_split[of ?r2 26 4 4] get_bytes_split[of ?r2 "tcp_off d" 2 2] get_bytes_split[of d 0 6 6] get_bytes_split[of d 26 4 4]
      get_bytes_split[of d "tcp_off d" 2 2] f g by simp_all
  have "\<exists>s'. bp_loop ck [(t1, [(h, d, Some c)]), (t2, [])] s = Inr s' \<and> bp_sent s' = bp_sent s @ [?r1, ?r2] \<and>
      mb_events s' = mb_events s @ [Tx h, Clone h c, Free h, Tx c, Free c]"
    using assms ok(2)
    by (simp add: bp_iteration_def bp_packet_def bp_release_def send_tcp_window_update_def print_bp_def free_mbuf_def
        is_ipv4_tcp_def Let_def)
  then show ?thesis using r1 r2 by blast
qed

text \<open>The loop counts to five and stops counting until it has resumed.\<close>

definition bp_inv :: "bp_state \<Rightarrow> bool" where
  "bp_inv s \<longleftrightarrow> 0 \<le> pkt_count s \<and> pkt_count s \<le> 5 \<and> (throttled s \<longleftrightarrow> pkt_count s = 5) \<and>
     (throttled s \<longrightarrow> saved_mbuf s \<noteq> None)"

lemma send_update_keeps:
  assumes "send_tcp_window_update ck m w s = Inr s'"
  shows "pkt_count s' = pkt_count s" "throttled s' = throttled s" "saved_mbuf s' = saved_mbuf s"
    "keep_running s' = keep_running s" "start_time s' = start_time s"
  using assms by (auto simp: send_tcp_window_update_def Let_def split: option.splits if_splits)

lemma send_update_total: "\<exists>s'. send_tcp_window_update ck (Some h) w s = Inr s'"
  by (simp add: send_tcp_window_update_def Let_def)

lemma bp_packet_inv:
  assumes "bp_inv s"
  shows "\<exists>s'. bp_packet ck now (Some c) h s = Inr s' \<and> bp_inv s' \<and> keep_running s' = keep_running s"
proof (cases "throttled s")
  case False
  define u where "u = print_bp ''>>> BACKPRESSURE: Sending Window Zero ACK''
    (print_bp (''Captured Packet #'' @ fmt_d (pkt_count s + 1)) (s\<lparr>pkt_count := pkt_count s + 1\<rparr>))"
  obtain s' where s': "send_tcp_window_update ck (Some h) 0 u = Inr s'" using send_update_total by blast
  have "pkt_count s' = pkt_count s + 1" "keep_running s' = keep_running s"
    using send_update_keeps[OF s'] by (simp_all add: u_def print_bp_def)
  then show ?thesis using assms False
    unfolding bp_packet_def Let_def u_def[symmetric] s' bindE_Inr
    by (auto simp: bp_inv_def free_mbuf_def print_bp_def)
qed (use assms in \<open>auto simp: bp_packet_def bp_inv_def free_mbuf_def\<close>)

lemma bp_burst_inv:
  assumes "bp_inv s" "\<forall>(h, d, clone) \<in> set bs. clone \<noteq> None"
  shows "\<exists>s'. bp_burst ck now bs s = Inr s' \<and> bp_inv s' \<and> keep_running s' = keep_running s"
  using assms
proof (induction bs arbitrary: s)
  case (Cons b bs)
  obtain h d c where b: "b = (h, d, Some c)" using Cons.prems(2) by (cases b) auto
  let ?s = "s\<lparr>data_of := (data_of s)(h := h), dat := (dat s)(h := d)\<rparr>"
  have "bp_inv ?s" using Cons.prems(1) by (simp add: bp_inv_def)
  then obtain s' where s': "bp_packet ck now (Some c) h ?s = Inr s'" "bp_inv s'" "keep_running s' = keep_running s"
    using bp_packet_inv[of ?s ck now c h] by auto
  with Cons.IH[OF s'(2)] Cons.prems(2) b show ?case by auto
qed simp

lemma bp_release_inv:
  assumes "bp_inv s"
  shows "\<exists>s'. bp_release ck now s = Inr s' \<and> bp_inv s' \<and> keep_running s' = keep_running s \<and>
    (throttled s' \<longrightarrow> now - start_time s' < 60)"
proof (cases "throttled s \<and> now - start_time s \<ge> 60")
  case True
  then obtain h where h: "saved_mbuf s = Some h" using assms by (auto simp: bp_inv_def)
  let ?u = "print_bp ''<<< RESUMING: Restoring Window Size'' s"
  obtain s' where s': "send_tcp_window_update ck (Some h) 16384 ?u = Inr s'" using send_update_total by blast
  have "keep_running s' = keep_running s" using send_update_keeps(4)[OF s'] by (simp add: print_bp_def)
  then show ?thesis using True h s' by (auto simp: bp_release_def bp_inv_def free_mbuf_def split: option.splits)
qed (use assms in \<open>auto simp: bp_release_def\<close>)

text \<open>The back-pressure loop never crashes as long as every clone succeeds, and it throttles as meant: after
  any number of iterations, at any times and with any packets, at most five packets have been counted, the
  program is throttled exactly when it has counted five, and it is never still throttled at the end
  of an iteration that began sixty seconds or more after the throttling.\<close>

theorem backpressure_throttles:
  assumes "\<forall>(now, bs) \<in> set xs. \<forall>(h, d, clone) \<in> set bs. clone \<noteq> None"
  shows "\<exists>s. bp_loop ck xs (bp_init t0) = Inr s \<and> 0 \<le> pkt_count s \<and> pkt_count s \<le> 5 \<and>
    (throttled s \<longleftrightarrow> pkt_count s = 5) \<and> (throttled s \<longrightarrow> (xs \<noteq> [] \<and> fst (last xs) - start_time s < 60))"
proof -
  have step: "\<exists>s'. bp_loop ck xs s = Inr s' \<and> bp_inv s' \<and>
      (throttled s' \<longrightarrow> (if xs = [] then throttled s else fst (last xs) - start_time s' < 60))"
    if "bp_inv s" "keep_running s" for s
    using that assms
  proof (induction xs arbitrary: s)
    case (Cons x xs)
    obtain now bs where x: "x = (now, bs)" by (cases x)
    obtain s1 where s1: "bp_burst ck now bs s = Inr s1" "bp_inv s1" "keep_running s1 = keep_running s"
      using bp_burst_inv[OF Cons.prems(1), of bs ck now] Cons.prems(3) x by auto
    obtain s2 where s2: "bp_release ck now s1 = Inr s2" "bp_inv s2" "keep_running s2 = keep_running s1"
      "throttled s2 \<longrightarrow> now - start_time s2 < 60"
      using bp_release_inv[OF s1(2), of ck now] by auto
    obtain s3 where s3: "bp_loop ck xs s2 = Inr s3" "bp_inv s3"
      "throttled s3 \<longrightarrow> (if xs = [] then throttled s2 else fst (last xs) - start_time s3 < 60)"
      using Cons.IH[OF s2(2)] Cons.prems(2,3) s1(3) s2(3) by auto
    then show ?case
      using Cons.prems(2) s1 s2 x by (cases xs) (auto simp: bp_iteration_def)
  qed simp
  have "bp_inv (bp_init t0)" "keep_running (bp_init t0)" "\<not> throttled (bp_init t0)" by (simp_all add: bp_inv_def bp_init_def)
  with step[of "bp_init t0"] show ?thesis by (auto simp: bp_inv_def split: if_splits)
qed

text \<open>Without a clone, resuming dereferences a null pointer.\<close>

lemma resume_without_clone_crashes:
  "throttled s \<Longrightarrow> saved_mbuf s = None \<Longrightarrow> 60 \<le> now - start_time s \<Longrightarrow> bp_release ck now s = Inl (SegFault 0)"
  by (simp add: bp_release_def send_tcp_window_update_def)

section \<open>The pool of the backend\<close>

text \<open>All interleavings of the worker with the callbacks and the signal handler. The library allocates the
  buffers that it delivers from the pool, so a burst is never larger than what is left there.\<close>

inductive be_step :: "robust_backend \<Rightarrow> robust_backend \<Rightarrow> bool" where
  be_new: "be_step s (be_new_device ifname vid s)"
| be_destroy: "be_step s (be_destroy_device vid s)"
| be_vring: "be_step s (be_vring_state_changed q e s)"
| be_sig: "be_step s (be_signal s)"
| be_work: "length pkts \<le> BURST_SIZE \<Longrightarrow> length (be_rx s) + length pkts \<le> length (be_freed s) + MEMPOOL_SIZE \<Longrightarrow>
    n_tx \<le> length pkts \<Longrightarrow> be_step s (worker_iteration pkts n_tx now hz s)"

inductive be_reach :: "robust_backend \<Rightarrow> bool" where
  be_reach_init: "be_reach (backend_init now)"
| be_reach_step: "be_reach s \<Longrightarrow> be_step s t \<Longrightarrow> be_reach t"

lemma print_stats_keeps:
  "be_rx (print_stats now hz s) = be_rx s" "be_tx (print_stats now hz s) = be_tx s"
  "be_freed (print_stats now hz s) = be_freed s"
  by (simp_all add: print_stats_def)

definition be_inv :: "robust_backend \<Rightarrow> bool" where
  "be_inv s \<longleftrightarrow> mset (be_rx s) = mset (be_freed s) + mset (be_tx s) \<and> length (be_rx s) \<le> length (be_freed s) + MEMPOOL_SIZE"

lemma be_inv_work:
  assumes "be_inv s" "length (be_rx s) + length pkts \<le> length (be_freed s) + MEMPOOL_SIZE"
  shows "be_inv (worker_iteration pkts n_tx now hz s)"
proof -
  have "mset pkts = mset (take n_tx pkts) + mset (drop n_tx pkts)" by (metis append_take_drop_id mset_append)
  then show ?thesis using assms by (auto simp: be_inv_def worker_iteration_def print_stats_keeps)
qed

lemma be_reach_inv: "be_reach s \<Longrightarrow> be_inv s"
proof (induction rule: be_reach.induct)
  case (be_reach_init now)
  then show ?case by (simp add: be_inv_def backend_init_def)
next
  case (be_reach_step s t)
  show ?case using be_reach_step.hyps(2)
  proof cases
    case (be_work pkts n_tx now hz)
    then show ?thesis using be_inv_work[OF be_reach_step.IH] by simp
  qed (use be_reach_step.IH in \<open>auto simp: be_inv_def be_new_device_def be_destroy_device_def be_vring_state_changed_def be_signal_def\<close>)
qed

text \<open>The backend leaks every buffer that it forwards. In every reachable state the buffers received are
  those freed and those whose data the guest accepted: the latter are never freed, although
  \<^verbatim>\<open>rte_vhost_enqueue_burst\<close> copies the data and leaves the buffers to the caller. Hence the
  backend can forward at most 16383 packets in its whole life, as many as its pool has buffers.\<close>

theorem backend_leaks_forwarded:
  assumes "be_reach s"
  shows "mset (be_rx s) = mset (be_freed s) + mset (be_tx s) \<and> length (be_tx s) \<le> MEMPOOL_SIZE"
proof -
  have inv: "be_inv s" by (rule be_reach_inv[OF assms])
  then have "length (be_rx s) = length (be_freed s) + length (be_tx s)"
    unfolding be_inv_def by (metis size_mset size_union)
  then show ?thesis using inv by (simp add: be_inv_def)
qed

section \<open>Echo and frontend\<close>

definition event_mbuf :: "mbuf_event \<Rightarrow> mbuf" where
  "event_mbuf e = (case e of Tx h \<Rightarrow> h | Clone h c \<Rightarrow> h | Free h \<Rightarrow> h)"

lemma event_mbuf_maps [simp]: "map event_mbuf (map Tx hs) = hs" "map event_mbuf (map Free hs) = hs"
  by (simp_all add: event_mbuf_def o_def)

text \<open>The TAP echo hands over every buffer once: whatever bursts arrive and however many packets of each the
  driver accepts, the buffers given to the driver or freed are, in order, exactly the buffers received.\<close>

theorem tap_hands_over_once:
  "map event_mbuf (io_events (fold (\<lambda>(bufs, nb_tx). tap_iteration bufs nb_tx) its \<lparr>io_events = [], io_out = []\<rparr>)) =
     concat (map fst its)"
proof -
  have step: "map event_mbuf (io_events (tap_iteration bufs n s)) = map event_mbuf (io_events s) @ bufs" for bufs n s
    by (auto simp: tap_iteration_def simp del: map_map)
  have "map event_mbuf (io_events (fold (\<lambda>(bufs, nb_tx). tap_iteration bufs nb_tx) its s)) =
      map event_mbuf (io_events s) @ concat (map fst its)" for s
    by (induction its arbitrary: s) (auto simp: step)
  then show ?thesis by simp
qed

text \<open>The frontend's packets: 108 bytes, with the metadata, the two addresses, the type of IPv4, and 46 bytes
  of payload that the program never writes: they are what the data room held before.\<close>

theorem frontend_packet:
  assumes "length src = 6" "length dst = 6" "108 \<le> length room"
  shows "fill_packet src dst room = replicate 48 0xAA @ dst @ src @ [0x08, 0x00] @ take 46 (drop 62 room)"
proof (rule nth_equalityI)
  have type: "be_bytes 2 (0x0800 :: u16) = [0x08, 0x00]" by code_simp
  note defs = fill_packet_def Let_def PRIV_DATA_SIZE_def type
  show len: "length (fill_packet src dst room) = length (replicate 48 0xAA @ dst @ src @ [0x08, 0x00] @ take 46 (drop 62 room))"
    using assms by (simp add: defs)
  fix i assume "i < length (fill_packet src dst room)"
  then have i: "i < 108" using assms by (simp add: defs)
  then show "fill_packet src dst room ! i = (replicate 48 0xAA @ dst @ src @ [0x08, 0x00] @ take 46 (drop 62 room)) ! i"
    using assms by (auto simp: defs nth_set_bytes nth_append nth_Cons')
qed

text \<open>When all allocations succeed, each buffer of a burst is given to the driver or freed, once.\<close>

lemma send_burst_hands_over:
  assumes "length as = BURST_SIZE" "None \<notin> set as" "n \<le> BURST_SIZE"
  shows "\<exists>fs s'. send_burst as n s = Inr (fs, s') \<and> length fs = n \<and>
    map event_mbuf (io_events s') = map event_mbuf (io_events s) @ map (fst \<circ> the) as"
proof -
  have none: "None \<notin> set (burst_array as)" using assms(2) by (auto simp: burst_array_def)
  have "the (map_option g x) = g (the x)" if "x \<in> set as" for x and g :: "mbuf \<times> u8 list \<times> u8 list \<times> u8 list \<Rightarrow> mbuf \<times> u8 list"
    using that assms(2) by (metis option.exhaust option.map_sel option.simps(3))
  then have fst: "map fst (map the (burst_array as)) = map (fst \<circ> the) as"
    by (auto simp: burst_array_def split: prod.splits)
  define ps where "ps = map the (burst_array as)"
  have len: "length ps = BURST_SIZE" using assms(1) by (simp add: ps_def burst_array_def)
  have ev: "map event_mbuf (map (\<lambda>p. Tx (fst p)) qs) = map fst qs" "map event_mbuf (map (\<lambda>p. Free (fst p)) qs) = map fst qs"
    for qs :: "(mbuf \<times> u8 list) list"
    by (simp_all add: event_mbuf_def o_def)
  have "map event_mbuf (map (\<lambda>p. Tx (fst p)) (take n ps)) @
      map event_mbuf (if n < BURST_SIZE then map (\<lambda>p. Free (fst p)) (drop n ps) else []) = map fst ps"
    using len by (cases "n < BURST_SIZE") (simp_all only: ev if_True if_False flip: map_append, simp_all)
  then show ?thesis using none assms(3) fst len
    by (simp add: send_burst_def Let_def ps_def[symmetric] del: map_map)
qed

section \<open>Examples\<close>

definition tcp_frame :: "u8 list" where
  "tcp_frame = [1, 2, 3, 4, 5, 6, 7, 8, 9, 10, 11, 12, 0x08, 0x00,
     0x45, 0, 0, 40, 0, 0, 0, 0, 64, 6, 0, 0, 192, 168, 10, 1, 192, 168, 10, 2,
     0, 80, 1, 187, 0, 0, 0, 9, 0, 0, 0, 0, 0x50, 2, 0x20, 0, 0, 0, 0, 0]"

definition no_cksums :: cksums where
  "no_cksums = ((\<lambda>d. 0), (\<lambda>d t. 0))"

lemma tcp_frame_ok: "room_ok tcp_frame" "is_ipv4_tcp tcp_frame" "tcp_off tcp_frame = 34"
  by code_simp+

theorem window_update_answers_witness:
  "get_bytes (window_update (\<lambda>d. 0) (\<lambda>d t. 0) 0 tcp_frame) 0 12 = [7, 8, 9, 10, 11, 12, 1, 2, 3, 4, 5, 6] \<and>
   get_bytes (window_update (\<lambda>d. 0) (\<lambda>d t. 0) 0 tcp_frame) 42 4 = be_bytes 4 (10 :: u32)"
proof -
  have "be_word (get_bytes tcp_frame 38 4) + 1 = (10 :: u32)" "get_bytes tcp_frame 6 6 @ get_bytes tcp_frame 0 6 = [7, 8, 9, 10, 11, 12, 1, 2, 3, 4, 5, 6]"
    by code_simp+
  then show ?thesis using window_update_answers[OF tcp_frame_ok(1), of "\<lambda>d. 0" "\<lambda>d t. 0" 0] tcp_frame_ok(3) by simp
qed

theorem resume_update_misdirected_witness:
  "\<exists>s' r1 r2. bp_loop no_cksums [(0, [(3, tcp_frame, Some 9)]), (61, [])] ((bp_init 0)\<lparr>pkt_count := 4\<rparr>) = Inr s' \<and>
     bp_sent s' = [r1, r2] \<and> get_bytes r1 0 12 = [7, 8, 9, 10, 11, 12, 1, 2, 3, 4, 5, 6] \<and>
     get_bytes r2 0 12 = [1, 2, 3, 4, 5, 6, 7, 8, 9, 10, 11, 12]"
proof -
  have "get_bytes tcp_frame 6 6 @ get_bytes tcp_frame 0 6 = [7, 8, 9, 10, 11, 12, 1, 2, 3, 4, 5, 6]"
    "get_bytes tcp_frame 0 12 = [1, 2, 3, 4, 5, 6, 7, 8, 9, 10, 11, 12]"
    by code_simp+
  then show ?thesis
    using resume_update_misdirected[of "(bp_init 0)\<lparr>pkt_count := 4\<rparr>" tcp_frame 9 3 0 61 no_cksums] tcp_frame_ok
    by (fastforce simp: bp_init_def simp del: bp_loop.simps)
qed

theorem backpressure_throttles_witness:
  "\<exists>s. bp_loop no_cksums [(0, [(3, tcp_frame, Some 9)]), (61, [])] (bp_init 0) = Inr s \<and> (throttled s \<longleftrightarrow> pkt_count s = 5)"
  using backpressure_throttles[of "[(0, [(3, tcp_frame, Some 9)]), (61, [])]" no_cksums 0] by auto

definition be_demo :: robust_backend where
  "be_demo = worker_iteration [5, 6] 1 10 100 (be_vring_state_changed 0 1 (be_new_device ''v'' 0 (backend_init 0)))"

lemma be_demo_reach: "be_reach be_demo"
  unfolding be_demo_def
  by (rule be_reach_step[OF _ be_work] be_reach_step[OF _ be_vring] be_reach_step[OF _ be_new] be_reach_init)+
     (simp_all add: BURST_SIZE_def MEMPOOL_SIZE_def be_vring_state_changed_def be_new_device_def backend_init_def)

lemma be_demo_values: "be_rx be_demo = [5, 6]" "be_tx be_demo = [5]" "be_freed be_demo = [6]"
  by (simp_all add: be_demo_def worker_iteration_def print_stats_def be_vring_state_changed_def be_new_device_def backend_init_def)

theorem backend_leaks_forwarded_witness:
  "mset (be_rx be_demo) = mset (be_freed be_demo) + mset (be_tx be_demo) \<and> be_tx be_demo = [5] \<and> be_freed be_demo = [6]"
  using backend_leaks_forwarded[OF be_demo_reach] be_demo_values by simp

theorem frontend_packet_witness:
  "length (fill_packet (replicate 6 1) (replicate 6 2) (replicate 128 7)) = 108"
  using frontend_packet[of "replicate 6 1" "replicate 6 2" "replicate 128 7"] by simp

end
