(* ===== verification/PmdTools.thy ===== *)
theory PmdTools
  imports TapDevice
begin

text \<open>
  The poll-mode programs: the drain loops src/code_dump/pmd/pmd.cpp and pmdtimer.cpp, the buffer dump
  src/code_dump/rte_mbuf/main.cpp, and the frontends src/code_dump/virtio-user-frontend/main.cpp and
  src/code_dump/old_frontend.cpp. DPDK is a parameter: the bursts received, the timer and the
  descriptions of the ports are arguments. The text of a number of millions with three decimals is
  the argument \<open>mpps\<close>.
\<close>

section \<open>Drain loops\<close>

definition pmd_setup :: "port_answers \<Rightarrow> string + unit" where
  "pmd_setup a =
     (if pa_eal a < 0 then Inl ''Error with EAL initialization''
      else if pa_port_by_name a < 0 then Inl ''Cannot find vhost port. Did you pass --vdev?''
      else if \<not> pa_pool a then Inl ''Cannot create mbuf pool''
      else if pa_configure a 1 < 0 then Inl ''Cannot configure device''
      else if pa_rx_queue a 0 < 0 then Inl ''RX queue setup failed''
      else if pa_tx_queue a 0 < 0 then Inl ''TX queue setup failed''
      else if pa_start a < 0 then Inl ''Device start failed''
      else Inr ())"

record drain =
  dr_total :: u64
  dr_freed :: "mbuf list"
  dr_out :: string

definition drain_init :: drain where
  "drain_init = \<lparr>dr_total = 0, dr_freed = [], dr_out = []\<rparr>"

definition drain_burst :: "mbuf list \<Rightarrow> drain \<Rightarrow> drain" where
  "drain_burst bufs s = s\<lparr>dr_total := dr_total s + of_nat (length bufs), dr_freed := dr_freed s @ bufs\<rparr>"

definition pmd_iteration :: "mbuf list \<Rightarrow> drain \<Rightarrow> drain" where
  "pmd_iteration bufs s =
     (if length bufs > 0 then
        let s = drain_burst bufs s in
        if dr_total s mod 1000000 = 0 then
          s\<lparr>dr_out := dr_out s @ ''Total packets drained: '' @ fmt_u (unat (dr_total s)) @ [CHR 0x0D]\<rparr>
        else s
      else s)"

text \<open>The variant with a timer also keeps the count and the time of the last report; \<open>reports\<close> records the
  numbers of packets reported.\<close>

record timed = drain +
  prev_pkts :: u64
  prev_tsc :: u64
  reports :: "u64 list"

definition timed_init :: "u64 \<Rightarrow> timed" where
  "timed_init now = \<lparr>dr_total = 0, dr_freed = [], dr_out = [], prev_pkts = 0, prev_tsc = now, reports = []\<rparr>"

definition timed_iteration :: "(u64 \<Rightarrow> string) \<Rightarrow> u64 \<Rightarrow> mbuf list \<times> u64 \<Rightarrow> timed \<Rightarrow> timed" where
  "timed_iteration mpps hz x s = (case x of (bufs, cur_tsc) \<Rightarrow>
     let s = (if length bufs > 0 then s\<lparr>dr_total := dr_total s + of_nat (length bufs), dr_freed := dr_freed s @ bufs\<rparr> else s) in
     if cur_tsc - prev_tsc s > hz then
       let diff_pkts = dr_total s - prev_pkts s in
       s\<lparr>dr_out := dr_out s @ ''Current Throughput: '' @ mpps diff_pkts @ '' Mpps | Total: '' @ fmt_u (unat (dr_total s)) @ [CHR 0x0D],
         reports := reports s @ [diff_pkts], prev_pkts := dr_total s, prev_tsc := cur_tsc\<rparr>
     else s)"

text \<open>How a program of this theory ends other than by returning 0: \<^verbatim>\<open>rte_exit\<close> with a message, an exception, or
  a null pointer that is dereferenced.\<close>

datatype prog_error = RteExit string | RuntimeErr string | NullPointer

text \<open>The programs, for the bursts received until the signal: the text printed and how they end.\<close>

definition pmd_main :: "port_answers \<Rightarrow> nat \<Rightarrow> mbuf list list \<Rightarrow> string \<times> prog_error option" where
  "pmd_main a socket_id bursts =
     (case pmd_setup a of
        Inl e \<Rightarrow> ([], Some (RteExit e))
      | Inr _ \<Rightarrow>
          let s = fold pmd_iteration bursts drain_init in
          (''Backend started. Polling net_vhost0 on socket: '' @ fmt_u socket_id @ [CHR 0x0A] @ dr_out s @
           [CHR 0x0A] @ ''Closing. Total packets processed: '' @ fmt_u (unat (dr_total s)) @ [CHR 0x0A], None))"

definition pmdtimer_main ::
  "port_answers \<Rightarrow> (u64 \<Rightarrow> string) \<Rightarrow> u64 \<Rightarrow> u64 \<Rightarrow> (mbuf list \<times> u64) list \<Rightarrow> string \<times> prog_error option" where
  "pmdtimer_main a mpps hz now bursts =
     (case pmd_setup a of
        Inl e \<Rightarrow> ([], Some (RteExit e))
      | Inr _ \<Rightarrow>
          let s = fold (timed_iteration mpps hz) bursts (timed_init now) in
          (''Backend started. Polling net_vhost0...'' @ [CHR 0x0A] @ dr_out s @
           [CHR 0x0A] @ ''Final Total: '' @ fmt_u (unat (dr_total s)) @ [CHR 0x0A], None))"

section \<open>The buffer dump\<close>

fun dump_loop :: "nat \<Rightarrow> u8 list \<Rightarrow> string" where
  "dump_loop i [] = []"
| "dump_loop i (b # bs) = fmt_02X b @ '' '' @ (if (i + 1) mod 16 = 0 then [CHR 0x0A] else []) @ dump_loop (i + 1) bs"

definition dump_mbuf_hex_only :: "u8 list \<Rightarrow> string" where
  "dump_mbuf_hex_only bs =
     ''Packet Hex ('' @ fmt_u (length bs) @ '' bytes):'' @ [CHR 0x0A] @ dump_loop 0 bs @ [CHR 0x0A]"

text \<open>\<^verbatim>\<open>main\<close>, for the numbers of the cores and the answers of DPDK; an allocation that fails is a null pointer
  that the next call dereferences.\<close>

definition mbuf_main :: "port_answers \<Rightarrow> nat \<Rightarrow> nat \<Rightarrow> nat \<Rightarrow> bool \<Rightarrow> int \<Rightarrow> string \<times> prog_error option" where
  "mbuf_main a main_core lcores current alloc_ok cleanup =
     (if pa_eal a < 0 then ([], Some (RteExit ''EAL init failed''))
      else
        let cores = ''Main Core ID: '' @ fmt_u main_core @ [CHR 0x0A] @ ''Total enabled lcores: '' @ fmt_u lcores @
              [CHR 0x0A] @ ''Current core ID: '' @ fmt_u current @ [CHR 0x0A] in
        if \<not> pa_pool a then (cores, Some (RuntimeErr ''Mbuf Pool Allocation Failed''))
        else if \<not> alloc_ok then (cores, Some NullPointer)
        else (cores @ dump_mbuf_hex_only (replicate 120 0xAA) @
                (if cleanup < 0 then ''EAL cleanup failed!'' @ [CHR 0x0A] else []), None))"

section \<open>The frontends\<close>

text \<open>What DPDK says of a port, and what the frontends do: calls to DPDK and lines printed.\<close>

record port_info =
  pi_name :: "string option"
  max_rx_queues :: nat
  max_tx_queues :: nat
  min_mtu :: nat
  max_mtu :: nat
  pi_answers :: port_answers

datatype port_call = Configure nat nat nat | RxQueue nat nat | TxQueue nat nat | StartPort nat | StopPort nat | ClosePort nat | Say string

text \<open>The queues of port \<open>p\<close> from number \<open>i\<close> on: a receive and a transmit queue each; the calls made and the
  exception, if any.\<close>

fun queue_calls :: "port_answers \<Rightarrow> nat \<Rightarrow> nat list \<Rightarrow> port_call list \<times> string option" where
  "queue_calls a p [] = ([], None)"
| "queue_calls a p (i # is) =
     (if pa_rx_queue a i < 0 then ([RxQueue p i], Some ''Failed to setup RX queue'')
      else if pa_tx_queue a i < 0 then ([RxQueue p i, TxQueue p i], Some ''Failed to setup TX queue'')
      else case queue_calls a p is of (cs, e) \<Rightarrow> (RxQueue p i # TxQueue p i # cs, e))"

text \<open>One port of virtio-user-frontend: as many queues of each kind as the port has receive queues.\<close>

definition device_line :: "string \<Rightarrow> port_info \<Rightarrow> string" where
  "device_line nm d =
     ''Found Device: '' @ nm @ '' TXQ:'' @ fmt_u (max_tx_queues d) @ '' RXQ:'' @ fmt_u (max_rx_queues d) @
     '' MinMTU:'' @ fmt_u (min_mtu d) @ '' MaxMTU:'' @ fmt_u (max_mtu d)"

definition setup_device :: "nat \<Rightarrow> port_info \<Rightarrow> port_call list \<times> string option" where
  "setup_device p d =
     (case pi_name d of
        None \<Rightarrow> ([], None)
      | Some nm \<Rightarrow>
         (let a = pi_answers d; conf = [Say (device_line nm d), Configure p (max_rx_queues d) (max_tx_queues d)] in
          if pa_configure a (max_rx_queues d) < 0 then (conf, Some ''Failed to configure port'')
          else case queue_calls a p [0..<max_rx_queues d] of
            (cs, Some e) \<Rightarrow> (conf @ cs, Some e)
          | (cs, None) \<Rightarrow>
              if pa_start a < 0 then (conf @ cs @ [StartPort p], Some ''Failed to start port'')
              else (conf @ cs @ [StartPort p], None)))"

fun setup_devices :: "nat \<Rightarrow> port_info list \<Rightarrow> port_call list \<times> string option" where
  "setup_devices p [] = ([], None)"
| "setup_devices p (d # ds) =
     (case setup_device p d of
        (cs, Some e) \<Rightarrow> (cs, Some e)
      | (cs, None) \<Rightarrow> (case setup_devices (p + 1) ds of (cs', e) \<Rightarrow> (cs @ cs', e)))"

definition stop_device :: "nat \<Rightarrow> port_call list" where
  "stop_device p = [Say (''Stopping Device: '' @ fmt_u p), StopPort p, Say (''Closing Device: '' @ fmt_u p), ClosePort p]"

definition stop_devices :: "nat \<Rightarrow> port_call list" where
  "stop_devices n = concat (map stop_device [0..<n])"

definition virtio_user_main :: "port_answers \<Rightarrow> port_info list \<Rightarrow> int \<Rightarrow> port_call list \<times> prog_error option" where
  "virtio_user_main a ds cleanup =
     (if pa_eal a < 0 then ([], Some (RteExit ''EAL init failed''))
      else if \<not> pa_pool a then ([], Some (RuntimeErr ''Mbuf Pool Allocation Failed''))
      else case setup_devices 0 ds of
        (cs, Some e) \<Rightarrow> (cs, Some (RuntimeErr e))
      | (cs, None) \<Rightarrow> (cs @ stop_devices (length ds) @ (if cleanup < 0 then [Say ''EAL cleanup failed!''] else []), None))"

text \<open>The port set-up of old_frontend.cpp asks for the same number of queues in both directions, and for none
  when the port gives no information (\<open>info_ok\<close>).\<close>

definition old_port_lines :: "nat \<Rightarrow> port_info \<Rightarrow> port_call list" where
  "old_port_lines p d =
     [Say (''Port '' @ fmt_u p @ '' has '' @ fmt_u (max_rx_queues d) @ '' RX queues.''),
      Say (''Port '' @ fmt_u p @ '' has '' @ fmt_u (max_tx_queues d) @ '' TX queues.'')]"

definition old_setup_port :: "nat \<Rightarrow> bool \<Rightarrow> port_info \<Rightarrow> port_call list \<times> string option" where
  "old_setup_port p info_ok d =
     (let a = pi_answers d; n = (if info_ok then max_rx_queues d else 0);
          conf = (if info_ok then old_port_lines p d else []) @ [Configure p n n] in
      if pa_configure a n < 0 then (conf, Some ''Failed to configure port'')
      else case queue_calls a p [0..<n] of
        (cs, Some e) \<Rightarrow> (conf @ cs, Some e)
      | (cs, None) \<Rightarrow>
          if pa_start a < 0 then (conf @ cs @ [StartPort p], Some ''Failed to start port'')
          else (conf @ cs @ [StartPort p, Say (''>>> Port '' @ fmt_u p @ '' initialized and started.'')], None))"

fun old_setup_ports :: "nat \<Rightarrow> (bool \<times> port_info) list \<Rightarrow> port_call list \<times> string option" where
  "old_setup_ports p [] = ([], None)"
| "old_setup_ports p ((ok, d) # ds) =
     (case old_setup_port p ok d of
        (cs, Some e) \<Rightarrow> (cs, Some e)
      | (cs, None) \<Rightarrow> (case old_setup_ports (p + 1) ds of (cs', e) \<Rightarrow> (cs @ cs', e)))"

text \<open>The constructor, and \<^verbatim>\<open>run\<close> until the signal; \<open>version\<close> is the text of \<^verbatim>\<open>rte_version()\<close>. Every exception is
  caught in \<^verbatim>\<open>main\<close> (\<open>old_frontend_main\<close>: what it did, the line on the error stream, the value returned).\<close>

definition old_frontend_new ::
  "string \<Rightarrow> port_answers \<Rightarrow> (bool \<times> port_info) list \<Rightarrow> port_call list \<times> string option" where
  "old_frontend_new version a ds =
     (if pa_eal a < 0 then ([], Some ''EAL Init Failed'')
      else
        let ports = Say (''Number or ports: '' @ fmt_u (length ds)) in
        if \<not> pa_pool a then ([ports], Some ''Mbuf Pool Allocation Failed'')
        else case old_setup_ports 0 ds of (cs, e) \<Rightarrow> (ports # Say (''DPDK Version: '' @ version) # cs, e))"

definition old_frontend_run :: "nat \<Rightarrow> port_call list" where
  "old_frontend_run n =
     Say ''>>> Traffic loop active. Sending 48-byte metadata + Ethernet frames.'' # stop_devices n"

definition old_frontend_main ::
  "string \<Rightarrow> port_answers \<Rightarrow> (bool \<times> port_info) list \<Rightarrow> port_call list \<times> string option \<times> int" where
  "old_frontend_main version a ds =
     (case old_frontend_new version a ds of
        (cs, Some e) \<Rightarrow> (cs, Some (''CRITICAL: '' @ e), 1)
      | (cs, None) \<Rightarrow> (cs @ old_frontend_run (length ds), None, 0))"

section \<open>Properties\<close>

text \<open>The drain loops keep no buffer and lose no count. Whatever bursts arrive, both loops free exactly the
  buffers received, in order, and their total is the number of buffers modulo \<open>2\<^sup>6\<^sup>4\<close>; and the numbers that
  the timed variant reports, together with what it has not yet reported, add up to its total.\<close>

theorem drain_accounts:
  "dr_freed (fold pmd_iteration bs drain_init) = concat bs \<and>
   dr_total (fold pmd_iteration bs drain_init) = of_nat (length (concat bs)) \<and>
   dr_freed (fold (timed_iteration mpps hz) xs (timed_init now)) = concat (map fst xs) \<and>
   dr_total (fold (timed_iteration mpps hz) xs (timed_init now)) = of_nat (length (concat (map fst xs))) \<and>
   sum_list (reports (fold (timed_iteration mpps hz) xs (timed_init now))) +
     (dr_total (fold (timed_iteration mpps hz) xs (timed_init now)) - prev_pkts (fold (timed_iteration mpps hz) xs (timed_init now))) =
     dr_total (fold (timed_iteration mpps hz) xs (timed_init now))"
proof -
  have "dr_freed (fold pmd_iteration bs s) = dr_freed s @ concat bs \<and>
      dr_total (fold pmd_iteration bs s) = dr_total s + of_nat (length (concat bs))" for s
    by (induction bs arbitrary: s) (simp_all add: pmd_iteration_def drain_burst_def Let_def ac_simps)
  moreover have "dr_freed (fold (timed_iteration mpps hz) xs s) = dr_freed s @ concat (map fst xs) \<and>
      dr_total (fold (timed_iteration mpps hz) xs s) = dr_total s + of_nat (length (concat (map fst xs))) \<and>
      (sum_list (reports s) = prev_pkts s \<longrightarrow>
       sum_list (reports (fold (timed_iteration mpps hz) xs s)) = prev_pkts (fold (timed_iteration mpps hz) xs s))"
    for s :: timed
  proof (induction xs arbitrary: s)
    case (Cons x xs)
    obtain bufs t where x: "x = (bufs, t)" by (cases x)
    have "dr_freed (timed_iteration mpps hz x s) = dr_freed s @ bufs"
      "dr_total (timed_iteration mpps hz x s) = dr_total s + of_nat (length bufs)"
      "sum_list (reports s) = prev_pkts s \<longrightarrow>
        sum_list (reports (timed_iteration mpps hz x s)) = prev_pkts (timed_iteration mpps hz x s)"
      by (auto simp: x timed_iteration_def Let_def)
    then show ?case using Cons.IH[of "timed_iteration mpps hz x s"] x by (simp add: ac_simps)
  qed simp
  ultimately show ?thesis by (simp add: drain_init_def timed_init_def)
qed

text \<open>The dump ends in as many line ends as the rows need, and reading the pairs of digits back gives the bytes.\<close>

definition hex_digits :: "string \<Rightarrow> string" where
  "hex_digits s = filter (\<lambda>c. c \<noteq> CHR '' '' \<and> c \<noteq> CHR 0x0A) s"

fun pairs_back :: "string \<Rightarrow> nat list" where
  "pairs_back (a # b # s) = (undigit a * 16 + undigit b) # pairs_back s"
| "pairs_back _ = []"

lemma digit_upper_visible:
  assumes "d < 16"
  shows "digit_upper d \<noteq> CHR '' '' \<and> digit_upper d \<noteq> CHR 0x0A"
proof -
  have "48 \<le> (of_char (digit_upper d) :: nat)" using assms by (simp add: digit_upper_def)
  moreover have "(of_char CHR '' '' :: nat) = 32" "(of_char CHR 0x0A :: nat) = 10" by simp_all
  ultimately have "digit_upper d = CHR '' '' \<Longrightarrow> False" "digit_upper d = CHR 0x0A \<Longrightarrow> False" by simp_all
  then show ?thesis by blast
qed

lemma dump_roundtrip: "pairs_back (hex_digits (dump_loop i bs)) = map unat bs"
proof (induction bs arbitrary: i)
  case (Cons b bs)
  have d: "unat b div 16 < 16" "unat b mod 16 < 16" using div16_lt[of b] by simp_all
  then have "hex_digits (fmt_02X b) = fmt_02X b"
    using digit_upper_visible by (simp add: hex_digits_def fmt_02X_digits)
  then have "hex_digits (dump_loop i (b # bs)) = fmt_02X b @ hex_digits (dump_loop (i + 1) bs)"
    by (simp add: hex_digits_def)
  then show ?case using Cons.IH[of "i + 1"] d by (simp add: fmt_02X_digits undigit_upper)
qed (simp add: hex_digits_def)

text \<open>The frontend sets up transmit queues by the number of receive queues: with more of the latter it asks for
  transmit queues that it has not configured.\<close>

lemma queue_calls_all:
  "(\<forall>i \<in> set is. 0 \<le> pa_rx_queue a i \<and> 0 \<le> pa_tx_queue a i) \<Longrightarrow>
   queue_calls a p is = (concat (map (\<lambda>i. [RxQueue p i, TxQueue p i]) is), None)"
  by (induction "is") auto

lemma unconfigured_tx_queue:
  assumes "pi_name d = Some nm" "max_tx_queues d < max_rx_queues d" "0 \<le> pa_configure (pi_answers d) (max_rx_queues d)"
    and "\<forall>i < max_rx_queues d. 0 \<le> pa_rx_queue (pi_answers d) i \<and> 0 \<le> pa_tx_queue (pi_answers d) i"
  shows "TxQueue p (max_tx_queues d) \<in> set (fst (setup_device p d))"
  using assms queue_calls_all[of "[0..<max_rx_queues d]" "pi_answers d" p]
  by (auto simp: setup_device_def Let_def)

text \<open>What a frontend did with port \<open>p\<close>, in order.\<close>

definition port_history :: "nat \<Rightarrow> port_call list \<Rightarrow> port_call list" where
  "port_history p cs = filter (\<lambda>c. c \<in> {StartPort p, StopPort p, ClosePort p}) cs"

lemma port_history_simps [simp]:
  "port_history p [] = []" "port_history p (cs @ ds) = port_history p cs @ port_history p ds"
  "port_history p (Say t # cs) = port_history p cs"
  by (simp_all add: port_history_def)

lemma port_history_queues: "queue_calls a p is = (cs, e) \<Longrightarrow> port_history q cs = []"
  by (induction "is" arbitrary: cs e) (auto simp: port_history_def split: if_splits prod.splits)

lemma port_history_setup:
  assumes "old_setup_port k ok d = (cs, None)"
  shows "port_history p cs = (if p = k then [StartPort p] else [])"
proof -
  obtain qs where "queue_calls (pi_answers d) k [0..<(if ok then max_rx_queues d else 0)] = (qs, None)"
    "cs = (if ok then old_port_lines k d else []) @
       [Configure k (if ok then max_rx_queues d else 0) (if ok then max_rx_queues d else 0)] @ qs @
       [StartPort k, Say (''>>> Port '' @ fmt_u k @ '' initialized and started.'')]"
    using assms by (auto simp: old_setup_port_def Let_def split: if_splits prod.splits option.splits)
  then show ?thesis
    using port_history_queues[of "pi_answers d" k _ qs None p]
    by (auto simp: old_port_lines_def port_history_def)
qed

lemma port_history_setups:
  "old_setup_ports k ds = (cs, None) \<Longrightarrow>
   port_history p cs = (if k \<le> p \<and> p < k + length ds then [StartPort p] else [])"
proof (induction ds arbitrary: k cs)
  case (Cons x ds)
  obtain ok d where x: "x = (ok, d)" by (cases x)
  with Cons.prems obtain c1 c2 where c: "old_setup_port k ok d = (c1, None)"
    "old_setup_ports (k + 1) ds = (c2, None)" "cs = c1 @ c2"
    by (auto split: prod.splits option.splits)
  show ?case using port_history_setup[OF c(1), of p] Cons.IH[OF c(2)] c(3) by auto
qed simp

lemma port_history_stop: "port_history p (stop_devices n) = (if p < n then [StopPort p, ClosePort p] else [])"
proof (induction n)
  case (Suc n)
  have "port_history p (stop_device n) = (if p = n then [StopPort p, ClosePort p] else [])"
    by (auto simp: stop_device_def port_history_def)
  with Suc show ?case by (auto simp: stop_devices_def)
qed (simp add: stop_devices_def)

text \<open>The life of a port under old_frontend.cpp: when the program returns 0, every port that DPDK reported was
  started once, then stopped once, then closed once, in this order; when an exception ends it, it
  says so on the error stream and returns 1.\<close>

theorem old_frontend_port_life:
  assumes "old_frontend_main version a ds = (cs, err, rc)"
  shows "(rc = 0 \<longrightarrow> (\<forall>p < length ds. port_history p cs = [StartPort p, StopPort p, ClosePort p])) \<and>
    (rc \<noteq> 0 \<longrightarrow> rc = 1 \<and> err \<noteq> None)"
proof (cases "old_frontend_new version a ds")
  case (Pair c e)
  show ?thesis
  proof (cases e)
    case None
    with Pair obtain c0 where c0: "old_setup_ports 0 ds = (c0, None)"
      "c = Say (''Number or ports: '' @ fmt_u (length ds)) # Say (''DPDK Version: '' @ version) # c0"
      by (auto simp: old_frontend_new_def Let_def split: if_splits prod.splits)
    with None Pair assms show ?thesis
      using port_history_setups[OF c0(1)] port_history_stop
      by (auto simp: old_frontend_main_def old_frontend_run_def)
  qed (use Pair assms in \<open>auto simp: old_frontend_main_def\<close>)
qed

text \<open>Two ports, the second without information.\<close>

definition ok_port :: port_info where
  "ok_port = \<lparr>pi_name = Some ''v'', max_rx_queues = 1, max_tx_queues = 1, min_mtu = 68, max_mtu = 1500,
     pi_answers = \<lparr>pa_eal = 0, pa_hotplug = 0, pa_port_by_name = 0, pa_pool = True, pa_configure = \<lambda>_. 0,
       pa_rx_queue = \<lambda>_. 0, pa_tx_queue = \<lambda>_. 0, pa_start = 0\<rparr>\<rparr>"

theorem old_frontend_port_life_witness:
  "\<exists>cs. old_frontend_main ''DPDK'' (pi_answers ok_port) [(True, ok_port), (False, ok_port)] = (cs, None, 0) \<and>
     port_history 1 cs = [StartPort 1, StopPort 1, ClosePort 1]"
proof -
  obtain cs where "old_frontend_main ''DPDK'' (pi_answers ok_port) [(True, ok_port), (False, ok_port)] = (cs, None, 0)"
    by (simp add: old_frontend_main_def old_frontend_new_def old_setup_port_def ok_port_def)
  with old_frontend_port_life[OF this] show ?thesis by simp
qed

end
