(* ===== verification/StartVm.thy ===== *)
theory StartVm
  imports Fmt
begin

text \<open>
  The launcher of the virtual load modules, src/code_dump/dpdk/lm/startvm.cpp: it reads its options,
  generates a table of 1024 MAC addresses, and for each load module builds a qemu command line and
  runs it (or prints it, with \<^verbatim>\<open>-dry\<close>).

  The results of \<^verbatim>\<open>getopt_long_only\<close> are the input of the model, one element for each time it
  returns; \<open>vm_out\<close> is the standard output and \<open>vm_system\<close> the commands given to \<^verbatim>\<open>system\<close>. An
  access behind the end of the table of addresses, which C++ leaves undefined, is \<open>OutOfBounds\<close>,
  and overflow of an \<^verbatim>\<open>int\<close> is \<open>SignedOverflow\<close>.
\<close>

section \<open>MAC addresses\<close>

definition MAX_U8_VAL :: u8 where "MAX_U8_VAL = 0xFF"

text \<open>\<^verbatim>\<open>incr_ip_mac_addr\<close> on the address and the two indices that it is given by reference.\<close>

definition incr_ip_mac_addr :: "u8 list \<times> nat \<times> nat \<Rightarrow> u8 list \<times> nat \<times> nat" where
  "incr_ip_mac_addr s = (case s of (addr, incr, parent) \<Rightarrow>
     if addr ! incr = MAX_U8_VAL then
       (let (addr, parent) = (if addr ! parent = MAX_U8_VAL then (addr[parent := 0], parent - 1) else (addr, parent));
            addr = addr[parent := addr ! parent + 1] in
        (addr[incr := 0], incr, parent))
     else (addr[incr := addr ! incr + 1], incr, parent))"

definition mac_text :: "u8 list \<Rightarrow> string" where
  "mac_text a = [CHR 0x22] @ fmt_02x (a ! 0) @ '':'' @ fmt_02x (a ! 1) @ '':'' @ fmt_02x (a ! 2) @ '':'' @
     fmt_02x (a ! 3) @ '':'' @ fmt_02x (a ! 4) @ '':'' @ fmt_02x (a ! 5) @ [CHR 0x22]"

fun mac_loop :: "nat \<Rightarrow> u8 list \<times> nat \<times> nat \<Rightarrow> string list \<Rightarrow> string list" where
  "mac_loop 0 s acc = acc"
| "mac_loop (Suc n) s acc = (let s = incr_ip_mac_addr s in mac_loop n s (acc @ [mac_text (fst s)]))"

definition pregenerate_mac_addresses :: "string list" where
  "pregenerate_mac_addresses = mac_loop 1024 ([0x00, 0x60, 0x2f, 0x00, 0x00, 0x00], 5, 4) []"

section \<open>Options\<close>

record vm_opts =
  dry :: bool
  num_lm :: int
  ports_per_lm :: int
  ports_lm_index :: string
  display :: int
  q_per_port :: int
  telnet_port :: int
  vnc_model :: string
  ixia_ctrl_path :: string
  qemu_path :: string
  disk_path :: string
  disk_template :: string
  ifup_path :: string
  vcpu_pin_start :: int
  lm_vcpu :: string
  bridge :: int
  bplane :: string
  qhelper :: string
  misc_args :: string
  idx_port :: u32

definition default_opts :: vm_opts where
  "default_opts = \<lparr>dry = False, num_lm = -1, ports_per_lm = -1, ports_lm_index = [], display = 1000, q_per_port = 2,
     telnet_port = 1000, vnc_model = ''std'', ixia_ctrl_path = [], qemu_path = [], disk_path = [], disk_template = [],
     ifup_path = [], vcpu_pin_start = -1, lm_vcpu = [], bridge = -1, bplane = [], qhelper = [], misc_args = [],
     idx_port = 0\<rparr>"

datatype vm_option =
    Opt_dry | Opt_help | Opt_num_lm string | Opt_ports_per_lm string | Opt_ports_lm_index string
  | Opt_ixia_ctrl_path string | Opt_qemu_path string | Opt_disk_path string | Opt_disk_template string
  | Opt_ifup_path string | Opt_vnc_model string | Opt_display string | Opt_telnet_port string
  | Opt_vcpu_pin_start string | Opt_bridge | Opt_bplane string | Opt_qhelper string | Opt_lm_vcpu string
  | Opt_q_per_port | Opt_misc_args string | Opt_unknown

text \<open>One round of the option loop; \<^const>\<open>None\<close> where it prints the usage and exits.\<close>

definition apply_option :: "vm_option \<Rightarrow> vm_opts \<Rightarrow> vm_opts option" where
  "apply_option x v = (case x of
       Opt_dry \<Rightarrow> Some (v\<lparr>dry := True\<rparr>)
     | Opt_num_lm a \<Rightarrow> Some (v\<lparr>num_lm := atoi a, idx_port := of_int (atoi a)\<rparr>)
     | Opt_ports_per_lm a \<Rightarrow> Some (v\<lparr>ports_per_lm := atoi a\<rparr>)
     | Opt_ports_lm_index a \<Rightarrow> Some (v\<lparr>ports_lm_index := a\<rparr>)
     | Opt_ixia_ctrl_path a \<Rightarrow> Some (v\<lparr>ixia_ctrl_path := a\<rparr>)
     | Opt_qemu_path a \<Rightarrow> Some (v\<lparr>qemu_path := a\<rparr>)
     | Opt_disk_path a \<Rightarrow> Some (v\<lparr>disk_path := a\<rparr>)
     | Opt_disk_template a \<Rightarrow> Some (v\<lparr>disk_template := a\<rparr>)
     | Opt_ifup_path a \<Rightarrow> Some (v\<lparr>ifup_path := a\<rparr>)
     | Opt_vnc_model a \<Rightarrow> Some (v\<lparr>vnc_model := a\<rparr>)
     | Opt_display a \<Rightarrow> Some (v\<lparr>display := atoi a\<rparr>)
     | Opt_telnet_port a \<Rightarrow> Some (v\<lparr>telnet_port := atoi a\<rparr>)
     | Opt_vcpu_pin_start a \<Rightarrow> Some (v\<lparr>vcpu_pin_start := atoi a\<rparr>)
     | Opt_bridge \<Rightarrow> Some (v\<lparr>bridge := 1\<rparr>)
     | Opt_bplane a \<Rightarrow> Some (v\<lparr>bplane := a\<rparr>)
     | Opt_qhelper a \<Rightarrow> Some (v\<lparr>qhelper := a\<rparr>)
     | Opt_lm_vcpu a \<Rightarrow> Some (v\<lparr>lm_vcpu := a\<rparr>)
     | Opt_misc_args a \<Rightarrow> Some (v\<lparr>misc_args := a\<rparr>)
     | Opt_q_per_port \<Rightarrow> Some (v\<lparr>q_per_port := 10\<rparr>)
     | Opt_help \<Rightarrow> None
     | Opt_unknown \<Rightarrow> None)"

fun option_loop :: "vm_option list \<Rightarrow> vm_opts \<Rightarrow> vm_opts option" where
  "option_loop [] v = Some v"
| "option_loop (x # xs) v = (case apply_option x v of None \<Rightarrow> None | Some v \<Rightarrow> option_loop xs v)"

text \<open>\<^verbatim>\<open>getline\<close> with a delimiter: the end of the text ends the last token, and there is no empty token
  behind a final delimiter.\<close>

function getline_tokens :: "char \<Rightarrow> string \<Rightarrow> string list" where
  "getline_tokens c s =
     (if s = [] then [] else takeWhile (\<lambda>x. x \<noteq> c) s # getline_tokens c (tl (dropWhile (\<lambda>x. x \<noteq> c) s)))"
  by pat_completeness auto
termination
proof (relation "measure (\<lambda>(c, s). length s)")
  fix c :: char and s :: string
  assume "s \<noteq> []"
  then have "length (tl (dropWhile (\<lambda>x. x \<noteq> c) s)) < length s"
    using length_dropWhile_le[of "\<lambda>x. x \<noteq> c" s] by (cases s) auto
  then show "((c, tl (dropWhile (\<lambda>x. x \<noteq> c) s)), c, s) \<in> measure (\<lambda>(c, s). length s)" by simp
qed simp

definition assign_port_indexing :: "int \<Rightarrow> int \<Rightarrow> string \<Rightarrow> bool \<Rightarrow> int list" where
  "assign_port_indexing n per_lm index index_priority =
     (if \<not> index_priority then replicate (nat n) per_lm else map atoi (getline_tokens CHR '','' index))"

section \<open>The command line of a load module\<close>

definition int_res :: "int \<Rightarrow> int res" where
  "int_res n = (if - (2 ^ 31) \<le> n \<and> n < 2 ^ 31 then Inr n else Inl SignedOverflow)"

text \<open>A backslash, the end of the line, and the indentation of the next line.\<close>

definition cont :: string where
  "cont = [CHR 0x5C, CHR 0x0A] @ replicate 12 CHR '' ''"

definition qemu_body :: "vm_opts \<Rightarrow> nat \<Rightarrow> int \<Rightarrow> string" where
  "qemu_body v i cores =
     ''-name cdn_avip_vlm_'' @ fmt_u i @ '',debug-threads=on '' @ cont @
     ''-enable-kvm -m 4096 '' @ cont @
     ''-object memory-backend-file,id=mem,size=4096M,mem-path=/dev/hugepages,share=on '' @ cont @
     ''-numa node,memdev=mem -mem-prealloc '' @ cont @
     ''-smp '' @ fmt_d cores @ '',sockets=1,cores='' @ fmt_d cores @ '',threads=1 -no-user-config '' @ cont @
     ''-nodefaults -rtc base=utc -boot strict=on '' @ cont @
     ''-device piix3-usb-uhci,id=usb,bus=pci.0,addr=0x1.0x2 '' @ cont @
     ''-drive file='' @ disk_path v @ ''/'' @ disk_template v @ fmt_u i @ ''.qcow2'' @
       '',if=none,id=drive-virtio-disk0,format=qcow2 '' @ cont @
     ''-device virtio-blk-pci,scsi=off,bus=pci.0,addr=0x5,drive=drive-virtio-disk0,id=virtio-disk0,bootindex=1 '' @ cont @
     ''-chardev pty,id=charserial0 -device isa-serial,chardev=charserial0,id=serial0 '' @ cont @
     ''-device virtio-balloon-pci,id=balloon0,bus=pci.0,addr=0x6 -msg timestamp=on -daemonize '' @ cont"

definition string1 :: "vm_opts \<Rightarrow> nat \<Rightarrow> int \<Rightarrow> int \<Rightarrow> string" where
  "string1 v i pin cores =
     (if pin = -1 then qemu_path v @ '' '' @ cont @ misc_args v @ '' '' @ cont @ qemu_body v i cores
      else ''taskset -c '' @ lm_vcpu v @ '' '' @ qemu_path v @ '' '' @
           (if vcpu_pin_start v \<noteq> -1 then ''-vcpu_pin_start '' else []) @ fmt_d pin @ '' '' @ cont @ qemu_body v i cores)"

definition string2 :: "vm_opts \<Rightarrow> int \<Rightarrow> int \<Rightarrow> string \<Rightarrow> string" where
  "string2 v disp telnet mac =
     cont @ ''-vnc :'' @ fmt_d disp @ '' -vga '' @ vnc_model v @ '' '' @ cont @
     (if bridge v = -1 then ''-netdev tap,id=hostnet0,vhost=on,script='' @ ifup_path v
      else ''-netdev bridge,id=hostnet0,br='' @ bplane v @ '',helper='' @ qhelper v) @ '' '' @ cont @
     ''-device virtio-net-pci,netdev=hostnet0,id=net0,mac='' @ mac @ '',bus=pci.0,addr=0x3 '' @ cont @
     ''-serial telnet:127.0.0.1:'' @ fmt_d telnet @ '',server,nowait '' @ cont @ cont"

definition chardev_text :: "vm_opts \<Rightarrow> nat \<Rightarrow> string" where
  "chardev_text v j = ''-chardev socket,id=char'' @ fmt_u (j + 1) @ '',path='' @ ixia_ctrl_path v @ '' '' @ cont"

text \<open>The first loop over the ports also moves the CPU that the next load module is pinned to.\<close>

fun chardev_loop :: "vm_opts \<Rightarrow> nat list \<Rightarrow> int \<Rightarrow> string \<Rightarrow> (string \<times> int) res" where
  "chardev_loop v [] pin acc = Inr (acc, pin)"
| "chardev_loop v (j # js) pin acc =
     (let acc = acc @ chardev_text v j in
      if pin \<noteq> -1 then bindE (int_res (pin + 2)) (\<lambda>pin. chardev_loop v js pin acc)
      else chardev_loop v js pin acc)"

definition netdev_text :: "vm_opts \<Rightarrow> nat \<Rightarrow> string \<Rightarrow> string" where
  "netdev_text v j mac =
     ''-netdev type=vhost-user,id=hostnet'' @ fmt_u (j + 1) @ '',queues='' @ fmt_d (q_per_port v) @ '',chardev=char'' @
       fmt_u (j + 1) @ '',vhostforce '' @ cont @
     ''-device virtio-net-pci,netdev=hostnet'' @ fmt_u (j + 1) @ '',mq=on,mrg_rxbuf=on,vectors='' @
       fmt_d (q_per_port v * 2 + 2) @ '',id=net'' @ fmt_u (j + 1) @ '',mac='' @ mac @ '',bus=pci.0,addr=0x'' @
       fmt_x (j + 7) @ '',emulator=30 '' @ cont"

fun netdev_loop :: "vm_opts \<Rightarrow> string list \<Rightarrow> nat list \<Rightarrow> u32 \<Rightarrow> string \<Rightarrow> (string \<times> u32) res" where
  "netdev_loop v macaddr [] idx acc = Inr (acc, idx)"
| "netdev_loop v macaddr (j # js) idx acc =
     bindE (arr_get macaddr (unat idx)) (\<lambda>mac. netdev_loop v macaddr js (idx + 1) (acc @ netdev_text v j mac))"

text \<open>The variables of \<^verbatim>\<open>main\<close> that the loop over the load modules changes, and its surroundings.\<close>

record lm_state =
  lm_i :: nat
  lm_pin :: int
  lm_display :: int
  lm_telnet :: int
  lm_idx :: u32
  lm_port :: u32

record vm_world =
  vm_out :: string
  vm_system :: "string list"

text \<open>The command of one load module with \<open>p\<close> ports.\<close>

definition lm_command :: "vm_opts \<Rightarrow> string list \<Rightarrow> int \<Rightarrow> lm_state \<Rightarrow> (string \<times> lm_state) res" where
  "lm_command v macaddr p st =
     bindE (int_res (p * 2)) (\<lambda>cores.
     bindE (arr_get macaddr (unat (lm_idx st))) (\<lambda>mac.
     bindE (int_res (8900 + lm_telnet st)) (\<lambda>telnet.
     bindE (chardev_loop v [0..<nat p] (lm_pin st) []) (\<lambda>(s3, pin).
     bindE (netdev_loop v macaddr [0..<nat p] (lm_port st) []) (\<lambda>(s4, port).
       Inr (string1 v (lm_i st) (lm_pin st) cores @ string2 v (lm_display st) telnet mac @ s3 @ s4 @ [CHR 0x0A],
            st\<lparr>lm_pin := pin, lm_idx := lm_idx st + 1, lm_port := port\<rparr>))))))"

definition run_command :: "vm_opts \<Rightarrow> string \<Rightarrow> vm_world \<Rightarrow> vm_world" where
  "run_command v cmd w = (if dry v then w\<lparr>vm_out := vm_out w @ cmd\<rparr> else w\<lparr>vm_system := vm_system w @ [cmd]\<rparr>)"

definition lm_next :: "lm_state \<Rightarrow> lm_state res" where
  "lm_next st = bindE (int_res (lm_display st + 1)) (\<lambda>d. bindE (int_res (lm_telnet st + 1)) (\<lambda>t.
     Inr (st\<lparr>lm_i := lm_i st + 1, lm_display := d, lm_telnet := t\<rparr>)))"

fun lm_loop :: "vm_opts \<Rightarrow> string list \<Rightarrow> int list \<Rightarrow> lm_state \<Rightarrow> vm_world \<Rightarrow> vm_world \<times> unit res" where
  "lm_loop v macaddr [] st w = (w, Inr ())"
| "lm_loop v macaddr (p # ps) st w =
     (case lm_command v macaddr p st of
        Inl e \<Rightarrow> (w, Inl e)
      | Inr (cmd, st) \<Rightarrow>
         (case lm_next st of
            Inl e \<Rightarrow> (run_command v cmd w, Inl e)
          | Inr st \<Rightarrow> lm_loop v macaddr ps st (run_command v cmd w)))"

section \<open>The program\<close>

definition print_line :: "nat \<Rightarrow> string" where
  "print_line n = replicate n CHR ''-'' @ [CHR 0x0A]"

definition usage :: string where
  "usage = concat (map (\<lambda>l. l @ [CHR 0x0A])
    ['''', ''Script: Ixia Virtual Load Module Bringup '', '''', ''Usage: '', ''  startvm [options=<value>] '', '''', ''Options: '',
     ''  -num_lm          Number of load modules to be started'',
     ''  -ports_per_lm    Number of ports per load module'',
     ''  -ports_lm_index  Number of ports in LM as per index where each index represent 1 LM, seperated by comma'',
     ''  -ixia_ctrl_path  Domain socket path to connect adaptor with Ixia load modules'',
     ''  -qemu_path       Path of the patched qemu binay'',
     ''  -disk_path       Path to the Ixia load module image(s)'',
     ''  -disk_template   Template of the load module qcow2 image files'',
     ''                   For example, if vlm_ is specified, then vlm_0.qcow2, vlm_1.qcow2 will be used from the disk_path parameter '',
     ''  -ifup_path       Path to the qemu-ifup script'',
     ''  -vnc_model       Default is '' @ [CHR 0x27] @ ''std'' @ [CHR 0x27],
     ''  -display         The Load module VNC starts from 5900+display, 5901+display, etc. The default display is 1000'',
     ''  -telnet_port     The Load module telnet port starts from 8900+telnet_port, 8901+telnet_port, etc. The default telnet_port is 1000'',
     ''  -vcpu_pin_start  Start pinning the VLM threads from this CPU id'',
     ''  -lm_vcpu         CPU id that will be used by misc VLM threads. Can be specified in range like 2-3'',
     ''                   valid only if -vcpu_pin_start is also specfied'',
     ''                   -vcpu_pin_start and -lm_vcpu should be specified together'',
     ''  -dry             Prints the script. Does not start the load modules'',
     ''  -help            Display this help '',
     ''  -bridge          Enable bridge mode to connect to backplane instead of tap interface '',
     ''                   in this mode, -bplane and -qhelper options are also required to be specified '',
     ''  -bplane          Specifies the bridge that will be used to bridge the VLM and Chassis. Required if -bridge is specified.'',
     ''  -pfc_enable'' @ [CHR 0x09] @ ''    Specifies the PFC is enabled.'',
     ''  -qhelper         Required if -bridge is specified.''])"

definition banner :: "vm_opts \<Rightarrow> int \<Rightarrow> int \<Rightarrow> string" where
  "banner v vnc telnet =
     (let ln = (\<lambda>s. s @ [CHR 0x0A]) in
      print_line 80 @ ln ''Cadence Accelerated VIP'' @ ln ''(c) Cadence Design Systems, Inc. All rights reserved'' @
      print_line 80 @
      ln (''Number of load modules       : '' @ fmt_d (num_lm v)) @
      ln (''Number of ports/load modules : '' @ fmt_d (ports_per_lm v)) @
      (if ports_lm_index v \<noteq> [] then ln (''ports_lm_indexing'' @ [CHR 0x09] @ ''     : '' @ ports_lm_index v) else []) @
      ln (''Ixia Socket path             : '' @ ixia_ctrl_path v) @
      ln (''Ixia Qemu path               : '' @ qemu_path v) @
      ln (''VLM Disk path                : '' @ disk_path v) @
      ln (''VLM Disk template            : '' @ disk_template v) @
      ln (''VNC Displays start from      : '' @ fmt_d vnc) @
      ln (''Telnet port start from       : '' @ fmt_d telnet) @
      ln (''PFC enable'' @ [CHR 0x09, CHR 0x09, CHR 0x09] @ '' : '' @ (if q_per_port v = 10 then ''TRUE'' else ''FALSE'')) @
      (if bridge v = 1 then ln ''Bridge mode                  : Enabled'' @ ln (''Backplane                    : '' @ bplane v) @
         ln (''Qemu Helper                  : '' @ qhelper v) else []) @
      (if misc_args v \<noteq> [] then ln (''Other qemu arguments         : '' @ misc_args v) else []) @
      print_line 80)"

text \<open>The checks of the options before anything is started; \<open>root\<close> says whether the effective user is root.\<close>

definition option_error :: "bool \<Rightarrow> vm_opts \<Rightarrow> string option" where
  "option_error root v =
     (if bridge v = 1 \<and> (bplane v = [] \<or> qhelper v = []) then
        Some ''In Bridge mode, both -bplane and -qhelper options needs to be specified''
      else if \<not> dry v \<and> \<not> root then Some ''*** Error: This application requires root permission.''
      else if vcpu_pin_start v \<noteq> -1 \<and> lm_vcpu v = [] then
        Some ''Both vcpu_pin_start and lm_vcpu should be specified together''
      else None)"

definition start_modules :: "vm_opts \<Rightarrow> string \<Rightarrow> vm_world \<times> unit res" where
  "start_modules v out =
     (let ports_index = assign_port_indexing (num_lm v) (ports_per_lm v) (ports_lm_index v) (ports_lm_index v \<noteq> []) in
      if (of_nat (length ports_index) :: u64) \<noteq> of_int (num_lm v) then
        (\<lparr>vm_out = out @ ''port_index size ('' @ fmt_d (long_to_int (int (length ports_index))) @
            '') is not equal to num_lm('' @ fmt_d (num_lm v) @ ''), please check input parameters!'' @ [CHR 0x0A],
          vm_system = []\<rparr>, Inl (Exit (-1)))
      else lm_loop v pregenerate_mac_addresses (take (nat (num_lm v)) ports_index)
        \<lparr>lm_i = 0, lm_pin = vcpu_pin_start v, lm_display = display v, lm_telnet = telnet_port v, lm_idx = 0,
         lm_port = idx_port v\<rparr> \<lparr>vm_out = out, vm_system = []\<rparr>)"

text \<open>\<^verbatim>\<open>main\<close>; \<open>args\<close> is the number of arguments.\<close>

definition startvm_main :: "bool \<Rightarrow> nat \<Rightarrow> vm_option list \<Rightarrow> vm_world \<times> unit res" where
  "startvm_main root args xs =
     (if args = 1 then (\<lparr>vm_out = usage, vm_system = []\<rparr>, Inl (Exit 1))
      else case option_loop xs default_opts of
        None \<Rightarrow> (\<lparr>vm_out = usage, vm_system = []\<rparr>, Inl (Exit 1))
      | Some v \<Rightarrow>
         (case option_error root v of
            Some msg \<Rightarrow> (\<lparr>vm_out = msg @ [CHR 0x0A], vm_system = []\<rparr>, Inl (Exit 1))
          | None \<Rightarrow>
             (case bindE (int_res (5900 + display v)) (\<lambda>a. bindE (int_res (8900 + telnet_port v)) (\<lambda>b. Inr (a, b))) of
                Inl e \<Rightarrow> (\<lparr>vm_out = [], vm_system = []\<rparr>, Inl e)
              | Inr (vnc, telnet) \<Rightarrow> start_modules v (banner v vnc telnet))))"

section \<open>The table of addresses\<close>

text \<open>The address with number \<open>k\<close> has \<open>k\<close> in its last two bytes.\<close>

definition mac_bytes :: "nat \<Rightarrow> u8 list" where
  "mac_bytes k = [0x00, 0x60, 0x2f, 0x00, of_nat (k div 256), of_nat (k mod 256)]"

abbreviation mac_at :: "nat \<Rightarrow> string" where
  "mac_at k \<equiv> mac_text (mac_bytes k)"

lemma of_nat_byte_eq: "a < 256 \<Longrightarrow> b < 256 \<Longrightarrow> (of_nat a :: u8) = of_nat b \<longleftrightarrow> a = b"
  by (simp add: word_unat_eq_iff unat_of_nat)

lemma unat_of_nat_small: "n < 2 ^ 32 \<Longrightarrow> unat (of_nat n :: u32) = n"
  by (simp add: unat_of_nat)

lemma incr_mac:
  assumes "k + 1 < 65536"
  shows "incr_ip_mac_addr (mac_bytes k, 5, 4) = (mac_bytes (k + 1), 5, 4)"
proof (cases "k mod 256 = 255")
  case True
  then have d: "Suc k div 256 = Suc (k div 256)" "Suc k mod 256 = 0" by (simp_all add: div_Suc mod_Suc)
  have "k div 256 < 255" using assms True div_mult_mod_eq[of k 256] by linarith
  then have "(of_nat (k div 256) :: u8) \<noteq> 255" using of_nat_byte_eq[of "k div 256" 255] by simp
  then show ?thesis using True d by (simp add: incr_ip_mac_addr_def mac_bytes_def MAX_U8_VAL_def add.commute)
next
  case False
  then have d: "Suc k div 256 = k div 256" "Suc k mod 256 = Suc (k mod 256)" by (simp_all add: div_Suc mod_Suc)
  have "(of_nat (k mod 256) :: u8) \<noteq> 255" using of_nat_byte_eq[of "k mod 256" 255] False by simp
  then show ?thesis using d by (simp add: incr_ip_mac_addr_def mac_bytes_def MAX_U8_VAL_def add.commute)
qed

lemma mac_loop_eq: "k + n < 65536 \<Longrightarrow> mac_loop n (mac_bytes k, 5, 4) acc = acc @ map mac_at [k + 1..<k + 1 + n]"
proof (induction n arbitrary: k acc)
  case (Suc n)
  have "[k + 1..<k + 1 + Suc n] = (k + 1) # [k + 1 + 1..<k + 1 + 1 + n]" by (simp add: upt_conv_Cons)
  then show ?case using Suc.IH[of "k + 1"] Suc.prems incr_mac[of k] by simp
qed simp

lemma macaddr_eq: "pregenerate_mac_addresses = map mac_at [1..<1025]"
proof -
  have "mac_loop 1024 (mac_bytes 0, 5, 4) [] = [] @ map mac_at [0 + 1..<0 + 1 + 1024]"
    by (rule mac_loop_eq) simp
  moreover have "(0::nat) + 1 = 1" "(0::nat) + 1 + 1024 = 1025" by simp_all
  moreover have "mac_bytes 0 = [0x00, 0x60, 0x2f, 0x00, 0x00, 0x00]" by (simp add: mac_bytes_def)
  ultimately show ?thesis unfolding pregenerate_mac_addresses_def by (simp only: append_Nil)
qed

lemma length_macaddr [simp]: "length pregenerate_mac_addresses = 1024"
  unfolding macaddr_eq length_map length_upt by simp

lemma nth_macaddr [simp]: "i < 1024 \<Longrightarrow> pregenerate_mac_addresses ! i = mac_at (i + 1)"
  unfolding macaddr_eq by (subst nth_map) (simp_all add: nth_upt del: upt_rec_numeral)

lemma fmt_02x_inj: "fmt_02x a = fmt_02x b \<longleftrightarrow> a = b"
  by (metis fmt_02x_value unsigned_word_eqI)

lemma mac_text_eq:
  assumes "mac_text a = mac_text b" "i < 6"
  shows "a ! i = b ! i"
proof -
  have "fmt_02x (a ! 0) = fmt_02x (b ! 0) \<and> fmt_02x (a ! 1) = fmt_02x (b ! 1) \<and> fmt_02x (a ! 2) = fmt_02x (b ! 2) \<and>
    fmt_02x (a ! 3) = fmt_02x (b ! 3) \<and> fmt_02x (a ! 4) = fmt_02x (b ! 4) \<and> fmt_02x (a ! 5) = fmt_02x (b ! 5)"
    using assms(1) by (simp add: mac_text_def)
  moreover have "i = 0 \<or> i = 1 \<or> i = 2 \<or> i = 3 \<or> i = 4 \<or> i = 5" using assms(2) by auto
  ultimately show ?thesis by (auto simp: fmt_02x_inj)
qed

lemma mac_at_inj:
  assumes "mac_at a = mac_at b" "a < 65536" "b < 65536"
  shows "a = b"
proof -
  have "a div 256 < 256" "b div 256 < 256" using assms(2,3) by linarith+
  then have "a div 256 = b div 256" "a mod 256 = b mod 256"
    using mac_text_eq[OF assms(1), of 4] mac_text_eq[OF assms(1), of 5] by (simp_all add: mac_bytes_def of_nat_byte_eq)
  then show ?thesis by (metis div_mult_mod_eq)
qed

lemma inj_mac_at: "inj_on mac_at {..<65536}"
  by (rule inj_onI) (auto dest: mac_at_inj)

section \<open>The loops\<close>

lemma int_res_ok: "0 \<le> n \<Longrightarrow> n < 2 ^ 31 \<Longrightarrow> int_res n = Inr n"
  by (simp add: int_res_def)

definition pin_after :: "int \<Rightarrow> nat \<Rightarrow> int" where
  "pin_after pin n = (if pin = -1 then -1 else pin + 2 * int n)"

lemma chardev_loop_eq:
  assumes "pin = -1 \<or> 0 \<le> pin \<and> pin + 2 * int (length js) < 2 ^ 31"
  shows "chardev_loop v js pin acc = Inr (acc @ concat (map (chardev_text v) js), pin_after pin (length js))"
  using assms
proof (induction js arbitrary: pin acc)
  case (Cons j js)
  then show ?case by (cases "pin = -1") (auto simp: int_res_ok pin_after_def)
qed (simp add: pin_after_def)

lemma netdev_loop_eq:
  assumes "a \<le> b" "k + b \<le> 1024"
  shows "netdev_loop v pregenerate_mac_addresses [a..<b] (of_nat (k + a)) acc =
    Inr (acc @ concat (map (\<lambda>j. netdev_text v j (mac_at (k + j + 1))) [a..<b]), of_nat (k + b))"
  using assms
proof (induction "b - a" arbitrary: a acc)
  case (Suc d)
  then have "[a..<b] = a # [Suc a..<b]" by (simp add: upt_conv_Cons)
  moreover have "unat (of_nat (k + a) :: u32) = k + a" 
    using Suc.prems Suc.hyps(2) by (intro unat_of_nat_small) simp
  ultimately show ?case using Suc.hyps(1)[of "Suc a"] Suc.hyps(2) Suc.prems by (simp add: ac_simps)
qed simp

lemma netdev_loop_over:
  assumes "k \<le> 1024" "1024 < k + length js"
  shows "netdev_loop v pregenerate_mac_addresses js (of_nat k) acc = Inl OutOfBounds"
  using assms
proof (induction js arbitrary: k acc)
  case (Cons j js)
  have u: "unat (of_nat k :: u32) = k" using Cons.prems by (simp add: unat_of_nat)
  show ?case
  proof (cases "k < 1024")
    case True
    then show ?thesis using Cons.IH[of "Suc k"] Cons.prems u by (simp add: add.commute)
  qed (use Cons.prems u in simp)
qed simp

text \<open>The command of a load module with number \<open>i\<close> and \<open>p\<close> ports, whose first port has address \<open>k + 1\<close>.\<close>

definition module_text :: "vm_opts \<Rightarrow> nat \<Rightarrow> nat \<Rightarrow> int \<Rightarrow> nat \<Rightarrow> string" where
  "module_text v i k pin p =
     string1 v i pin (2 * int p) @ string2 v (display v + int i) (8900 + telnet_port v + int i) (mac_at (i + 1)) @
     concat (map (chardev_text v) [0..<p]) @
     concat (map (\<lambda>j. netdev_text v j (mac_at (k + j + 1))) [0..<p]) @ [CHR 0x0A]"

definition lm_at :: "vm_opts \<Rightarrow> nat \<Rightarrow> nat \<Rightarrow> int \<Rightarrow> lm_state" where
  "lm_at v i k pin = \<lparr>lm_i = i, lm_pin = pin, lm_display = display v + int i, lm_telnet = telnet_port v + int i,
     lm_idx = of_nat i, lm_port = of_nat k\<rparr>"

text \<open>No overflow of an \<^verbatim>\<open>int\<close> with \<open>n\<close> load modules and \<open>m\<close> ports.\<close>

definition no_overflow :: "vm_opts \<Rightarrow> nat \<Rightarrow> int \<Rightarrow> nat \<Rightarrow> bool" where
  "no_overflow v n pin m \<longleftrightarrow> 0 \<le> display v \<and> display v + int n < 2 ^ 31 \<and> 0 \<le> telnet_port v \<and>
     8900 + telnet_port v + int n < 2 ^ 31 \<and> (pin = -1 \<or> 0 \<le> pin \<and> pin + 2 * int m < 2 ^ 31) \<and> m < 2 ^ 30"

lemma lm_command_eq:
  assumes "no_overflow v (i + 1) pin p" "i < 1024" "k + p \<le> 1024"
  shows "lm_command v pregenerate_mac_addresses (int p) (lm_at v i k pin) =
    Inr (module_text v i k pin p, (lm_at v i (k + p) (pin_after pin p))\<lparr>lm_idx := of_nat (i + 1)\<rparr>)"
proof -
  have "unat (of_nat i :: u32) = i" using assms(2) by (simp add: unat_of_nat)
  moreover have "chardev_loop v [0..<p] pin [] = Inr (concat (map (chardev_text v) [0..<p]), pin_after pin p)"
    using assms(1) chardev_loop_eq[of pin "[0..<p]" v "[]"] by (auto simp: no_overflow_def)
  moreover have "netdev_loop v pregenerate_mac_addresses [0..<p] (of_nat k) [] =
      Inr (concat (map (\<lambda>j. netdev_text v j (mac_at (k + j + 1))) [0..<p]), of_nat (k + p))"
    using assms(3) netdev_loop_eq[of 0 p k v "[]"] by simp
  moreover have "int_res (int p * 2) = Inr (2 * int p)"
    "int_res (8900 + (telnet_port v + int i)) = Inr (8900 + telnet_port v + int i)"
    using assms by (auto simp: int_res_def no_overflow_def)
  ultimately show ?thesis using assms(2) by (simp add: lm_command_def lm_at_def module_text_def add.commute)
qed

lemma lm_next_eq:
  assumes "no_overflow v (i + 1) pin m"
  shows "lm_next ((lm_at v i k q)\<lparr>lm_idx := of_nat (i + 1)\<rparr>) = Inr (lm_at v (i + 1) k q)"
  using assms by (auto simp: lm_next_def lm_at_def int_res_def no_overflow_def)

lemma lm_command_over:
  assumes "no_overflow v (i + 1) pin p" "i < 1024" "k \<le> 1024" "1024 < k + p"
  shows "lm_command v pregenerate_mac_addresses (int p) (lm_at v i k pin) = Inl OutOfBounds"
proof -
  have "unat (of_nat i :: u32) = i" using assms(2) by (simp add: unat_of_nat)
  moreover have "chardev_loop v [0..<p] pin [] = Inr (concat (map (chardev_text v) [0..<p]), pin_after pin p)"
    using assms(1) chardev_loop_eq[of pin "[0..<p]" v "[]"] by (auto simp: no_overflow_def)
  moreover have "netdev_loop v pregenerate_mac_addresses [0..<p] (of_nat k) [] = Inl OutOfBounds"
    using assms(3,4) netdev_loop_over[of k "[0..<p]" v "[]"] by simp
  moreover have "int_res (int p * 2) = Inr (2 * int p)"
    "int_res (8900 + (telnet_port v + int i)) = Inr (8900 + telnet_port v + int i)"
    using assms by (auto simp: int_res_def no_overflow_def)
  ultimately show ?thesis using assms(2) by (simp add: lm_command_def lm_at_def)
qed

text \<open>The commands of load modules \<open>i\<close>, \<open>i + 1\<close>, \<dots>, with the numbers of their ports.\<close>

fun modules :: "vm_opts \<Rightarrow> nat \<Rightarrow> nat \<Rightarrow> int \<Rightarrow> nat list \<Rightarrow> string list" where
  "modules v i k pin [] = []"
| "modules v i k pin (p # ps) = module_text v i k pin p # modules v (i + 1) (k + p) (pin_after pin p) ps"

lemma no_overflow_Cons:
  assumes "no_overflow v (i + length (p # ps)) pin (sum_list (p # ps))"
  shows "no_overflow v (i + 1) pin p" "no_overflow v (i + 1 + length ps) (pin_after pin p) (sum_list ps)"
  using assms by (auto simp: no_overflow_def pin_after_def)

lemma lm_loop_eq:
  assumes "no_overflow v (i + length ps) pin (sum_list ps)" "i + length ps \<le> 1024" "k + sum_list ps \<le> 1024"
  shows "lm_loop v pregenerate_mac_addresses (map int ps) (lm_at v i k pin) w =
    (fold (run_command v) (modules v i k pin ps) w, Inr ())"
  using assms
proof (induction ps arbitrary: i k pin w)
  case (Cons p ps)
  note no = no_overflow_Cons[OF Cons.prems(1)]
  have "lm_command v pregenerate_mac_addresses (int p) (lm_at v i k pin) =
      Inr (module_text v i k pin p, (lm_at v i (k + p) (pin_after pin p))\<lparr>lm_idx := of_nat (i + 1)\<rparr>)"
    using Cons.prems by (intro lm_command_eq no) simp_all
  then show ?case
    using lm_next_eq[OF no(1)] Cons.IH[OF no(2)] Cons.prems by simp
qed simp

lemma lm_loop_over:
  assumes "no_overflow v (i + length ps) pin (sum_list ps)" "i + length ps \<le> 1024" "k \<le> 1024" "1024 < k + sum_list ps"
  shows "snd (lm_loop v pregenerate_mac_addresses (map int ps) (lm_at v i k pin) w) = Inl OutOfBounds"
  using assms
proof (induction ps arbitrary: i k pin w)
  case (Cons p ps)
  note no = no_overflow_Cons[OF Cons.prems(1)]
  show ?case
  proof (cases "k + p \<le> 1024")
    case True
    have "lm_command v pregenerate_mac_addresses (int p) (lm_at v i k pin) =
        Inr (module_text v i k pin p, (lm_at v i (k + p) (pin_after pin p))\<lparr>lm_idx := of_nat (i + 1)\<rparr>)"
      using Cons.prems True by (intro lm_command_eq no) simp_all
    then show ?thesis using lm_next_eq[OF no(1)] Cons.IH[OF no(2)] Cons.prems True by simp
  next
    case False
    then have "lm_command v pregenerate_mac_addresses (int p) (lm_at v i k pin) = Inl OutOfBounds"
      using Cons.prems by (intro lm_command_over no) simp_all
    then show ?thesis by simp
  qed
qed simp

lemma pin_after_add: "-1 \<le> pin \<Longrightarrow> pin_after (pin_after pin a) b = pin_after pin (a + b)"
  by (auto simp: pin_after_def)

lemma pin_after_ge: "-1 \<le> pin \<Longrightarrow> -1 \<le> pin_after pin n"
  by (auto simp: pin_after_def)

lemma modules_eq:
  "-1 \<le> pin \<Longrightarrow> modules v i k pin ps =
    map (\<lambda>j. module_text v (i + j) (k + sum_list (take j ps)) (pin_after pin (sum_list (take j ps))) (ps ! j)) [0..<length ps]"
proof (induction ps arbitrary: i k pin)
  case (Cons p ps)
  have z: "pin_after pin 0 = pin" by (simp add: pin_after_def)
  show ?case
    by (rule nth_equalityI)
       (auto simp: Cons.IH[OF pin_after_ge[OF Cons.prems]] pin_after_add[OF Cons.prems] nth_Cons z add.assoc
         simp del: upt_Suc split: nat.split)
qed simp

lemma option_loop_num:
  assumes "option_loop xs v = Some v'" "num_lm v = -1 \<or> idx_port v = of_int (num_lm v)"
  shows "num_lm v' = -1 \<or> idx_port v' = of_int (num_lm v')"
  using assms
proof (induction xs arbitrary: v)
  case (Cons x xs)
  obtain u where u: "apply_option x v = Some u" using Cons.prems(1) by (cases "apply_option x v") auto
  have "num_lm u = -1 \<or> idx_port u = of_int (num_lm u)"
    using u Cons.prems(2) by (cases x) (auto simp: apply_option_def)
  then show ?case using Cons.IH u Cons.prems(1) by simp
qed simp

text \<open>The program reaches the loop over the load modules.\<close>

lemma start_modules_loop:
  assumes "num_lm v = int (length ps)" "length ps < 2 ^ 31" "idx_port v = of_int (num_lm v)"
    and "assign_port_indexing (num_lm v) (ports_per_lm v) (ports_lm_index v) (ports_lm_index v \<noteq> []) = map int ps"
  shows "start_modules v out = lm_loop v pregenerate_mac_addresses (map int ps)
    (lm_at v 0 (length ps) (vcpu_pin_start v)) \<lparr>vm_out = out, vm_system = []\<rparr>"
  using assms by (simp add: start_modules_def lm_at_def Let_def)

definition ports_of :: "vm_opts \<Rightarrow> nat list \<Rightarrow> bool" where
  "ports_of v ps \<longleftrightarrow> num_lm v = int (length ps) \<and>
     assign_port_indexing (num_lm v) (ports_per_lm v) (ports_lm_index v) (ports_lm_index v \<noteq> []) = map int ps"

lemma startvm_main_loop:
  assumes "args \<noteq> 1" "option_loop xs default_opts = Some v" "option_error root v = None" "ports_of v ps"
    and "no_overflow v (length ps) (vcpu_pin_start v) (sum_list ps)" "length ps \<le> 1024"
    and "5900 + display v < 2 ^ 31"
  shows "startvm_main root args xs = lm_loop v pregenerate_mac_addresses (map int ps)
    (lm_at v 0 (length ps) (vcpu_pin_start v))
    \<lparr>vm_out = banner v (5900 + display v) (8900 + telnet_port v), vm_system = []\<rparr>"
proof -
  have "idx_port v = of_int (num_lm v)"
    using option_loop_num[OF assms(2)] assms(4) by (auto simp: default_opts_def ports_of_def)
  then have "start_modules v out = lm_loop v pregenerate_mac_addresses (map int ps)
      (lm_at v 0 (length ps) (vcpu_pin_start v)) \<lparr>vm_out = out, vm_system = []\<rparr>" for out
    using assms(4,6) by (intro start_modules_loop) (auto simp: ports_of_def)
  moreover have "int_res (5900 + display v) = Inr (5900 + display v)"
    "int_res (8900 + telnet_port v) = Inr (8900 + telnet_port v)"
    using assms(5,7) by (auto simp: no_overflow_def int_res_def)
  ultimately show ?thesis
    using assms(1-3) by (simp add: startvm_main_def)
qed

lemma fold_run_command: "fold (run_command v) cs w =
  (if dry v then w\<lparr>vm_out := vm_out w @ concat cs\<rparr> else w\<lparr>vm_system := vm_system w @ cs\<rparr>)"
  by (induction cs arbitrary: w) (simp_all add: run_command_def)

text \<open>The addresses of load module \<open>i\<close>: its own and those of its ports.\<close>

definition module_macs :: "nat list \<Rightarrow> nat \<Rightarrow> string list" where
  "module_macs ps i = mac_at (i + 1) # map (\<lambda>j. mac_at (length ps + sum_list (take i ps) + j + 1)) [0..<ps ! i]"

definition module_numbers :: "nat list \<Rightarrow> nat \<Rightarrow> nat list" where
  "module_numbers ps i = (i + 1) # map (\<lambda>j. length ps + sum_list (take i ps) + j + 1) [0..<ps ! i]"

lemma module_macs_numbers: "module_macs ps = (\<lambda>i. map mac_at (module_numbers ps i))"
  by (rule ext) (simp add: module_macs_def module_numbers_def)

lemma sum_take_Suc: "i < length ps \<Longrightarrow> sum_list (take (Suc i) ps) = sum_list (take i ps) + (ps ! i :: nat)"
  by (simp add: take_Suc_conv_app_nth)

lemma sum_take_le: "sum_list (take i (ps :: nat list)) \<le> sum_list ps"
  by (metis append_take_drop_id le_add1 sum_list_append)

lemma module_numbers_distinct:
  "n \<le> length ps \<Longrightarrow> distinct (concat (map (module_numbers ps) [0..<n])) \<and>
    set (concat (map (module_numbers ps) [0..<n])) \<subseteq> {1..n} \<union> {length ps <.. length ps + sum_list (take n ps)}"
proof (induction n)
  case (Suc n)
  then have IH: "distinct (concat (map (module_numbers ps) [0..<n]))"
    "set (concat (map (module_numbers ps) [0..<n])) \<subseteq> {1..n} \<union> {length ps <.. length ps + sum_list (take n ps)}"
    and n: "n < length ps" by simp_all
  have new: "set (module_numbers ps n) \<subseteq> {Suc n} \<union> {length ps + sum_list (take n ps) <.. length ps + sum_list (take (Suc n) ps)}"
    using sum_take_Suc[OF n] by (auto simp: module_numbers_def)
  have "({1..n} \<union> {length ps <.. length ps + sum_list (take n ps)}) \<inter>
      ({Suc n} \<union> {length ps + sum_list (take n ps) <.. length ps + sum_list (take (Suc n) ps)}) = {}"
    using n by auto
  then have dis: "set (concat (map (module_numbers ps) [0..<n])) \<inter> set (module_numbers ps n) = {}"
    using IH(2) new by blast
  have "distinct (module_numbers ps n)" using n by (auto simp: module_numbers_def distinct_map inj_on_def)
  then have "distinct (concat (map (module_numbers ps) [0..<Suc n]))" using IH(1) dis by simp
  moreover have "set (concat (map (module_numbers ps) [0..<Suc n])) \<subseteq>
      {1..Suc n} \<union> {length ps <.. length ps + sum_list (take (Suc n) ps)}"
    using IH(2) new sum_take_Suc[OF n] by fastforce
  ultimately show ?case by blast
qed simp

lemma module_macs_distinct:
  assumes "length ps + sum_list ps \<le> 1024"
  shows "distinct (concat (map (module_macs ps) [0..<length ps]))"
proof -
  let ?ns = "concat (map (module_numbers ps) [0..<length ps])"
  have "distinct ?ns" and "set ?ns \<subseteq> {1..length ps} \<union> {length ps <.. length ps + sum_list ps}"
    using module_numbers_distinct[of "length ps" ps] by simp_all
  then have "distinct ?ns" "set ?ns \<subseteq> {..<65536}" using assms by fastforce+
  then have "distinct (map mac_at ?ns)" by (simp add: distinct_map inj_on_subset[OF inj_mac_at])
  moreover have "concat (map (module_macs ps) [0..<length ps]) = map mac_at ?ns"
    by (simp add: map_concat module_macs_numbers o_def)
  ultimately show ?thesis by simp
qed

section \<open>Properties\<close>

text \<open>The table of MAC addresses holds 1024 different addresses, and the one at index \<open>i\<close> is
  \<^verbatim>\<open>00:60:2f:00:hh:ll\<close> with \<open>i + 1\<close> in its last two bytes: the carry from the last byte is right.\<close>

theorem mac_table:
  "pregenerate_mac_addresses = map (\<lambda>k. mac_text (mac_bytes k)) [1..<1025] \<and> distinct pregenerate_mac_addresses"
proof -
  have "set [1..<1025] \<subseteq> {..<65536::nat}" unfolding set_upt by auto
  then have "distinct (map mac_at [1..<1025])"
    unfolding distinct_map by (auto intro: inj_on_subset[OF inj_mac_at] simp del: upt_rec_numeral)
  then show ?thesis unfolding macaddr_eq by blast
qed

text \<open>C25: What the launcher runs. When the options are accepted, give a number of ports for each load module,
  overflow no \<^verbatim>\<open>int\<close> and ask for at most 1024 addresses, then the program ends normally; it has printed the
  banner and has run (or, with \<^verbatim>\<open>-dry\<close>, printed) one command for each load module, in order, the
  \<open>i\<close>-th with display, telnet port and pinned CPU of module \<open>i\<close>, the \<open>i\<close>-th address of the table, and
  for its ports the addresses after those of the modules and of all earlier ports; no two
  interfaces get the same address.\<close>

theorem startvm_commands:
  assumes "args \<noteq> 1" "option_loop xs default_opts = Some v" "option_error root v = None" "ports_of v ps"
    and "no_overflow v (length ps) (vcpu_pin_start v) (sum_list ps)" "5900 + display v < 2 ^ 31"
    and "length ps + sum_list ps \<le> 1024"
  defines "cs \<equiv> map (\<lambda>i. module_text v i (length ps + sum_list (take i ps))
      (pin_after (vcpu_pin_start v) (sum_list (take i ps))) (ps ! i)) [0..<length ps]"
    and "b \<equiv> banner v (5900 + display v) (8900 + telnet_port v)"
  shows "startvm_main root args xs =
      ((if dry v then \<lparr>vm_out = b @ concat cs, vm_system = []\<rparr> else \<lparr>vm_out = b, vm_system = cs\<rparr>), Inr ()) \<and>
    distinct (concat (map (module_macs ps) [0..<length ps]))"
proof -
  have pin: "-1 \<le> vcpu_pin_start v" using assms(5) by (auto simp: no_overflow_def)
  have "startvm_main root args xs = (fold (run_command v) (modules v 0 (length ps) (vcpu_pin_start v) ps)
      \<lparr>vm_out = b, vm_system = []\<rparr>, Inr ())"
    unfolding b_def using assms(5,7) lm_loop_eq[of v 0 ps "vcpu_pin_start v" "length ps"]
    by (subst startvm_main_loop[OF assms(1-5) _ assms(6)]) simp_all
  moreover have "modules v 0 (length ps) (vcpu_pin_start v) ps = cs" by (simp add: modules_eq[OF pin] cs_def)
  ultimately show ?thesis using module_macs_distinct[OF assms(7)] by (simp add: fold_run_command)
qed

text \<open>Nothing checks that the table is large enough. When the options are accepted and overflow no \<^verbatim>\<open>int\<close>,
  but the load modules and their ports need more than 1024 addresses together, the program reads
  behind the end of the table.\<close>

theorem startvm_table_overrun:
  assumes "args \<noteq> 1" "option_loop xs default_opts = Some v" "option_error root v = None" "ports_of v ps"
    and "no_overflow v (length ps) (vcpu_pin_start v) (sum_list ps)" "5900 + display v < 2 ^ 31"
    and "length ps \<le> 1024" "1024 < length ps + sum_list ps"
  shows "snd (startvm_main root args xs) = Inl OutOfBounds"
  using assms(5,7,8) lm_loop_over[of v 0 ps "vcpu_pin_start v" "length ps"]
  by (subst startvm_main_loop[OF assms(1-5,7,6)]) simp

section \<open>Examples\<close>

text \<open>A dry run with two load modules of one and two ports, and one with a load module of 1024 ports.\<close>

definition demo_args :: "vm_option list" where
  "demo_args = [Opt_num_lm ''2'', Opt_ports_lm_index ''1,2'', Opt_qemu_path ''qemu'', Opt_dry]"

definition demo_opts :: vm_opts where
  "demo_opts = default_opts\<lparr>num_lm := 2, idx_port := 2, ports_lm_index := ''1,2'', qemu_path := ''qemu'', dry := True\<rparr>"

definition big_args :: "vm_option list" where
  "big_args = [Opt_num_lm ''1'', Opt_ports_per_lm ''1024'', Opt_dry]"

definition big_opts :: vm_opts where
  "big_opts = default_opts\<lparr>num_lm := 1, idx_port := 1, ports_per_lm := 1024, dry := True\<rparr>"

lemma atoi_examples: "atoi ''2'' = 2" "atoi ''1'' = 1" "atoi ''1024'' = 1024"
  by code_simp+

lemma demo_tokens: "getline_tokens CHR '','' ''1,2'' = [''1'', ''2'']"
  by code_simp

lemma demo_options: "option_loop demo_args default_opts = Some demo_opts" "option_loop big_args default_opts = Some big_opts"
  by (simp_all add: demo_args_def demo_opts_def big_args_def big_opts_def apply_option_def atoi_examples)

lemma demo_accepted: "option_error False demo_opts = None" "option_error False big_opts = None"
  by (simp_all add: option_error_def demo_opts_def big_opts_def default_opts_def)

lemma demo_ports: "ports_of demo_opts [1, 2]" "ports_of big_opts [1024]"
  by (simp_all add: ports_of_def assign_port_indexing_def demo_opts_def big_opts_def default_opts_def demo_tokens
      atoi_examples del: getline_tokens.simps)

lemma demo_no_overflow:
  "no_overflow demo_opts (length [1::nat, 2]) (vcpu_pin_start demo_opts) (sum_list [1, 2])"
  "no_overflow big_opts (length [1024::nat]) (vcpu_pin_start big_opts) (sum_list [1024])"
  "5900 + display demo_opts < 2 ^ 31" "5900 + display big_opts < 2 ^ 31"
  by (simp_all add: no_overflow_def demo_opts_def big_opts_def default_opts_def)

theorem startvm_commands_witness:
  "snd (startvm_main False 5 demo_args) = Inr () \<and> vm_system (fst (startvm_main False 5 demo_args)) = [] \<and>
   module_macs [1, 2] 1 = map (\<lambda>k. mac_text (mac_bytes k)) [2, 4, 5] \<and> distinct (module_macs [1, 2] 0 @ module_macs [1, 2] 1)"
proof -
  have d: "dry demo_opts" by (simp add: demo_opts_def)
  have m: "module_macs [1, 2] 1 = map (\<lambda>k. mac_text (mac_bytes k)) [2, 4, 5]"
    by (simp add: module_macs_def upt_rec eval_nat_numeral)
  show ?thesis
    using startvm_commands[OF _ demo_options(1) demo_accepted(1) demo_ports(1) demo_no_overflow(1,3), of 5] d m
    by (simp add: upt_rec)
qed

theorem startvm_table_overrun_witness: "snd (startvm_main False 4 big_args) = Inl OutOfBounds"
  using startvm_table_overrun[OF _ demo_options(2) demo_accepted(2) demo_ports(2) demo_no_overflow(2,4), of 4] by simp

end
