(* ===== verification/VtbConfig.thy ===== *)
theory VtbConfig
  imports Fmt
begin

text \<open>
  The command line and the configuration store of the virtual test bench:
  src/vtb/src/cmdline_parser.cpp, src/vtb/src/config_manager.cpp and the types of
  src/vtb/inc/common.h.

  A C++ exception is a value of \<open>cxx_exn\<close>, on the left of a sum. An access outside the fixed array
  of queue pairs is an error of \<open>c_error\<close>, as in the C programs. A \<^verbatim>\<open>std::any\<close> is a value of the
  datatype \<open>any\<close> with one constructor per type that is stored; the locale \<open>any_type\<close> states what a
  type owes the store, and is interpreted for every type.
\<close>

section \<open>The parser\<close>

datatype cxx_exn = RuntimeError string | InvalidArgument string | OutOfRange string

record Argument =
  arg_long :: string
  arg_short :: string
  arg_desc :: string
  arg_required :: bool
  arg_found :: bool
  arg_value :: string

definition add_argument ::
  "string \<Rightarrow> string \<Rightarrow> string \<Rightarrow> bool \<Rightarrow> string \<Rightarrow> Argument list \<Rightarrow> Argument list" where
  "add_argument long_n short_n desc req default_v args =
     args @ [\<lparr>arg_long = long_n, arg_short = short_n, arg_desc = desc, arg_required = req,
              arg_found = False, arg_value = default_v\<rparr>]"

text \<open>The arguments of the application: what follows the first \<^verbatim>\<open>--\<close>.\<close>

definition app_tokens :: "string list \<Rightarrow> string list" where
  "app_tokens argv = tl (dropWhile (\<lambda>s. s \<noteq> ''--'') (tl argv))"

fun find_arg :: "string \<Rightarrow> Argument list \<Rightarrow> nat option" where
  "find_arg token [] = None"
| "find_arg token (a # as) =
     (if token = arg_long a \<or> token = arg_short a then Some 0
      else map_option Suc (find_arg token as))"

text \<open>\<^verbatim>\<open>argv[i+1][0] != '-'\<close>; the first character of an empty string is the terminating zero.\<close>

definition is_flag :: "string \<Rightarrow> bool" where
  "is_flag s \<longleftrightarrow> s \<noteq> [] \<and> hd s = CHR ''-''"

fun parse_tokens :: "string list \<Rightarrow> Argument list \<Rightarrow> cxx_exn + Argument list" where
  "parse_tokens [] args = Inr args"
| "parse_tokens (token # ts) args =
     (case find_arg token args of
        None \<Rightarrow> Inl (RuntimeError (''Unknown argument '' @ [CHR 0x27] @ token @ [CHR 0x27]))
      | Some k \<Rightarrow>
          let a = (args ! k)\<lparr>arg_found := True\<rparr> in
          if ts \<noteq> [] \<and> \<not> is_flag (hd ts) then parse_tokens (tl ts) (args[k := a\<lparr>arg_value := hd ts\<rparr>])
          else if arg_required a \<and> arg_value a = [] then
            Inl (RuntimeError (''Argument '' @ token @ '' requires a value.''))
          else parse_tokens ts (args[k := a]))"

fun check_required :: "Argument list \<Rightarrow> cxx_exn + unit" where
  "check_required [] = Inr ()"
| "check_required (a # as) =
     (if arg_required a \<and> \<not> arg_found a then
        Inl (RuntimeError (''Required argument missing: '' @ arg_long a))
      else check_required as)"

text \<open>The parser is changed in place also when an exception leaves \<^verbatim>\<open>parse\<close>; only the result of a
  parse that returns is used.\<close>

definition parse :: "string list \<Rightarrow> Argument list \<Rightarrow> cxx_exn + Argument list" where
  "parse argv args =
     bindE (parse_tokens (app_tokens argv) args) (\<lambda>args.
     bindE (check_required args) (\<lambda>_. Inr args))"

text \<open>\<^verbatim>\<open>std::left << std::setw(n)\<close>.\<close>

definition setw :: "nat \<Rightarrow> string \<Rightarrow> string" where
  "setw n s = s @ replicate (n - length s) CHR '' ''"

definition usage_row :: "Argument \<Rightarrow> string" where
  "usage_row a = setw 20 (arg_long a) @ setw 10 (arg_short a) @ setw 35 (arg_desc a) @
     (if arg_required a then ''Yes'' else ''No'') @ [CHR 0x0A]"

definition print_usage :: "Argument list \<Rightarrow> string" where
  "print_usage args =
     [CHR 0x0A] @ ''Usage: ./app [EAL options] -- [APP options]'' @ [CHR 0x0A, CHR 0x0A] @
     setw 20 ''Long Flag'' @ setw 10 ''Short'' @ setw 35 ''Description'' @ ''Required'' @ [CHR 0x0A] @
     replicate 75 CHR ''-'' @ [CHR 0x0A] @ concat (map usage_row args) @ [CHR 0x0A]"

definition get_string :: "string \<Rightarrow> Argument list \<Rightarrow> string" where
  "get_string name args =
     (case find_arg name args of None \<Rightarrow> [] | Some k \<Rightarrow> arg_value (args ! k))"

text \<open>\<^verbatim>\<open>std::stoi\<close>.\<close>

definition stoi :: "string \<Rightarrow> cxx_exn + int" where
  "stoi s =
     (case strtol s of
        None \<Rightarrow> Inl (InvalidArgument ''stoi'')
      | Some (n, rest) \<Rightarrow> if n < - (2 ^ 31) \<or> 2 ^ 31 \<le> n then Inl (OutOfRange ''stoi'') else Inr n)"

text \<open>\<^verbatim>\<open>std::stoull(s, nullptr, 0)\<close>: the prefix selects the base, a minus sign negates modulo 2^64.\<close>

definition is_base_digit :: "nat \<Rightarrow> char \<Rightarrow> bool" where
  "is_base_digit b c \<longleftrightarrow>
     (let n = (of_char c :: nat) in 48 \<le> n \<and> n \<le> 57 \<or> 65 \<le> n \<and> n \<le> 90 \<or> 97 \<le> n \<and> n \<le> 122) \<and>
     undigit c < b"

fun base_prefix :: "string \<Rightarrow> nat \<times> string" where
  "base_prefix (a # x # d # ds) =
     (if a = CHR ''0'' \<and> (x = CHR ''x'' \<or> x = CHR ''X'') \<and> is_base_digit 16 d then (16, d # ds)
      else if a = CHR ''0'' then (8, a # x # d # ds) else (10, a # x # d # ds))"
| "base_prefix s = (if s \<noteq> [] \<and> hd s = CHR ''0'' then (8, s) else (10, s))"

definition stoull :: "string \<Rightarrow> cxx_exn + u64" where
  "stoull s =
     (let t = dropWhile is_space s;
          neg = (t \<noteq> [] \<and> hd t = CHR ''-'');
          u = (if t \<noteq> [] \<and> (hd t = CHR ''-'' \<or> hd t = CHR ''+'') then tl t else t);
          (b, v) = base_prefix u;
          ds = takeWhile (is_base_digit b) v;
          n = digits_value b (map undigit ds) in
      if ds = [] then Inl (InvalidArgument ''stoull'')
      else if 2 ^ 64 \<le> n then Inl (OutOfRange ''stoull'')
      else Inr (if neg then - of_nat n else of_nat n))"

definition get_int :: "string \<Rightarrow> Argument list \<Rightarrow> cxx_exn + int" where
  "get_int name args = (let s = get_string name args in if s = [] then Inr 0 else stoi s)"

definition get_uint64 :: "string \<Rightarrow> Argument list \<Rightarrow> cxx_exn + u64" where
  "get_uint64 name args = (let s = get_string name args in if s = [] then Inr 0 else stoull s)"

definition get_bool :: "string \<Rightarrow> Argument list \<Rightarrow> bool" where
  "get_bool name args = (get_string name args \<in> {''true'', ''1'', ''yes'', ''-h'', ''--help''})"

section \<open>The configuration manager\<close>

text \<open>The arguments that the constructor registers.\<close>

definition config_args :: "Argument list" where
  "config_args =
     add_argument ''--burst'' ''-b'' ''Packet burst size'' False ''32''
     (add_argument ''--mode'' ''-m'' ''polling | interrupt'' False ''polling''
     (add_argument ''--portmask'' ''-p'' ''Hex bitmask of ports'' True ''0x0''
     (add_argument ''--help'' ''-h'' ''Show this help menu'' False ''false'' [])))"

definition what :: "cxx_exn \<Rightarrow> string" where
  "what e = (case e of RuntimeError s \<Rightarrow> s | InvalidArgument s \<Rightarrow> s | OutOfRange s \<Rightarrow> s)"

text \<open>\<^verbatim>\<open>init\<close>: whether to go on, the parser afterwards, the text of \<^verbatim>\<open>error()\<close> if any, and the usage
  that is printed.\<close>

definition config_init ::
  "string list \<Rightarrow> Argument list \<Rightarrow> bool \<times> Argument list \<times> string option \<times> string" where
  "config_init argv args =
     (case parse argv args of
        Inl e \<Rightarrow> (False, args, Some (''Init Error: '' @ what e), print_usage args)
      | Inr args' \<Rightarrow>
          if get_bool ''--help'' args' then (False, args', None, print_usage args')
          else (True, args', None, []))"

section \<open>The store\<close>

text \<open>Objects that are neither numbers, strings nor truth values: a double, by the text that an output
  stream prints for it, and the statistics of \<^verbatim>\<open>vtb.cpp\<close>.\<close>

record PortStats =
  rx_packets :: u64
  tx_packets :: u64
  error_rate :: string

datatype any = AInt int | AUnsigned u32 | ABool bool | AString string | AU64 u64 | ADouble string | AStats PortStats

definition setValue :: "('a \<Rightarrow> any) \<Rightarrow> string \<Rightarrow> 'a \<Rightarrow> (string \<rightharpoonup> any) \<Rightarrow> (string \<rightharpoonup> any)" where
  "setValue make_any key v db = db(key \<mapsto> make_any v)"

definition getValue :: "(any \<Rightarrow> 'a option) \<Rightarrow> string \<Rightarrow> (string \<rightharpoonup> any) \<Rightarrow> 'a option" where
  "getValue any_cast key db = (case db key of None \<Rightarrow> None | Some a \<Rightarrow> any_cast a)"

fun cast_int where "cast_int (AInt i) = Some i" | "cast_int a = None"
fun cast_unsigned where "cast_unsigned (AUnsigned u) = Some u" | "cast_unsigned a = None"
fun cast_bool where "cast_bool (ABool b) = Some b" | "cast_bool a = None"
fun cast_string where "cast_string (AString s) = Some s" | "cast_string a = None"
fun cast_u64 where "cast_u64 (AU64 w) = Some w" | "cast_u64 a = None"
fun cast_double where "cast_double (ADouble d) = Some d" | "cast_double a = None"
fun cast_stats where "cast_stats (AStats s) = Some s" | "cast_stats a = None"

text \<open>The text that \<^verbatim>\<open>dumpConfig\<close> shows for a value, and its messages; \<open>order\<close> is the order in which the
  unordered map is traversed.\<close>

definition any_text :: "any \<Rightarrow> string" where
  "any_text a = (case a of AInt i \<Rightarrow> fmt_d i | ABool b \<Rightarrow> if b then ''true'' else ''false''
     | AString s \<Rightarrow> s | AU64 w \<Rightarrow> ''0x'' @ fmt_x (unat w) | _ \<Rightarrow> ''[Object]'')"

definition dumpConfig :: "string list \<Rightarrow> (string \<rightharpoonup> any) \<Rightarrow> string list" where
  "dumpConfig order db =
     ''--- [Config DB Dump] ---'' #
     map (\<lambda>key. ''Key: '' @ setw 20 key @ '' | Value: '' @ any_text (the (db key))) order"

section \<open>The port map\<close>

definition MAX_QUEUE_PAIRS :: nat where "MAX_QUEUE_PAIRS = 8"

record vhost_queue_pair =
  v_rxq_id :: u16
  v_txq_id :: u16
  rxq_enabled :: bool
  txq_enabled :: bool

record vhost_device =
  vd_vid :: int
  nof_queue_pairs :: int
  vd_qp :: "vhost_queue_pair list"
  vd_ready :: bool
  vd_ctlq_id :: u16

record port_queue_pair =
  p_rxq_id :: int
  p_txq_id :: int

record port_device =
  pd_qp :: "port_queue_pair list"
  pd_ctlq_id :: int

record portmap =
  vd :: vhost_device
  pd :: port_device

text \<open>What \<^verbatim>\<open>pmap[port_id]\<close> creates.\<close>

definition zero_portmap :: portmap where
  "zero_portmap =
     \<lparr>vd = \<lparr>vd_vid = 0, nof_queue_pairs = 0,
            vd_qp = replicate MAX_QUEUE_PAIRS \<lparr>v_rxq_id = 0, v_txq_id = 0, rxq_enabled = False, txq_enabled = False\<rparr>,
            vd_ready = False, vd_ctlq_id = 0\<rparr>,
      pd = \<lparr>pd_qp = replicate MAX_QUEUE_PAIRS \<lparr>p_rxq_id = 0, p_txq_id = 0\<rparr>, pd_ctlq_id = 0\<rparr>\<rparr>"

type_synonym pmap = "int \<rightharpoonup> portmap"

fun init_pairs :: "nat \<Rightarrow> nat \<Rightarrow> portmap \<Rightarrow> portmap res" where
  "init_pairs i 0 pm = Inr pm"
| "init_pairs i (Suc n) pm =
     bindE (arr_set (vd_qp (vd pm)) i
              \<lparr>v_rxq_id = of_nat (2 * i), v_txq_id = of_nat (2 * i + 1), rxq_enabled = False, txq_enabled = False\<rparr>)
       (\<lambda>vq. bindE (arr_set (pd_qp (pd pm)) i \<lparr>p_rxq_id = -1, p_txq_id = -1\<rparr>)
       (\<lambda>pq. init_pairs (Suc i) n (pm\<lparr>vd := (vd pm)\<lparr>vd_qp := vq\<rparr>, pd := (pd pm)\<lparr>pd_qp := pq\<rparr>\<rparr>)))"

definition init_vhost_device :: "int \<Rightarrow> int \<Rightarrow> int \<Rightarrow> pmap \<Rightarrow> pmap res" where
  "init_vhost_device port_id vid nof_pairs m =
     (let pm = (case m port_id of None \<Rightarrow> zero_portmap | Some pm \<Rightarrow> pm);
          pm = pm\<lparr>vd := (vd pm)\<lparr>vd_vid := vid, nof_queue_pairs := nof_pairs, vd_ready := True\<rparr>\<rparr> in
      bindE (init_pairs 0 (nat nof_pairs) pm) (\<lambda>pm. Inr (m(port_id \<mapsto> pm))))"

text \<open>The search loop of \<^verbatim>\<open>set_queue_state\<close> from pair \<open>i\<close> on, with \<open>n\<close> pairs left.\<close>

fun set_pair_state :: "nat \<Rightarrow> nat \<Rightarrow> u16 \<Rightarrow> bool \<Rightarrow> vhost_queue_pair list \<Rightarrow> vhost_queue_pair list res" where
  "set_pair_state i 0 vring_id enable qs = Inr qs"
| "set_pair_state i (Suc n) vring_id enable qs =
     bindE (arr_get qs i) (\<lambda>q.
       if v_rxq_id q = vring_id then Inr (qs[i := q\<lparr>rxq_enabled := enable\<rparr>])
       else if v_txq_id q = vring_id then Inr (qs[i := q\<lparr>txq_enabled := enable\<rparr>])
       else set_pair_state (Suc i) n vring_id enable qs)"

definition set_queue_state :: "int \<Rightarrow> u16 \<Rightarrow> bool \<Rightarrow> pmap \<Rightarrow> pmap res" where
  "set_queue_state port_id vring_id enable m =
     (case m port_id of
        None \<Rightarrow> Inr m
      | Some pm \<Rightarrow>
          bindE (set_pair_state 0 (nat (nof_queue_pairs (vd pm))) vring_id enable (vd_qp (vd pm)))
            (\<lambda>qs. Inr (m(port_id \<mapsto> pm\<lparr>vd := (vd pm)\<lparr>vd_qp := qs\<rparr>\<rparr>))))"

text \<open>The index is compared with the upper bound only.\<close>

definition assign_port_socket :: "int \<Rightarrow> int \<Rightarrow> int \<Rightarrow> pmap \<Rightarrow> pmap res" where
  "assign_port_socket port_id qp_idx socket_fd m =
     (case m port_id of
        None \<Rightarrow> Inr m
      | Some pm \<Rightarrow>
          if qp_idx < int MAX_QUEUE_PAIRS then
            if qp_idx < 0 then Inl OutOfBounds
            else
              bindE (arr_set (pd_qp (pd pm)) (nat qp_idx) \<lparr>p_rxq_id = socket_fd, p_txq_id = socket_fd\<rparr>) (\<lambda>qs.
                let pm = pm\<lparr>pd := (pd pm)\<lparr>pd_qp := qs\<rparr>\<rparr>;
                    pm = (if qp_idx = 0 then pm\<lparr>vd := (vd pm)\<lparr>vd_ready := True\<rparr>\<rparr> else pm) in
                Inr (m(port_id \<mapsto> pm)))
          else Inr m)"

definition assign_control_path :: "int \<Rightarrow> int \<Rightarrow> pmap \<Rightarrow> pmap" where
  "assign_control_path port_id ctl_fd m =
     (case m port_id of
        None \<Rightarrow> m
      | Some pm \<Rightarrow> m(port_id \<mapsto> pm\<lparr>vd := (vd pm)\<lparr>vd_ctlq_id := of_int ctl_fd\<rparr>,
                                    pd := (pd pm)\<lparr>pd_ctlq_id := ctl_fd\<rparr>\<rparr>))"

text \<open>A run of operations on the port map, from the empty map on.\<close>

datatype pmap_op = InitDevice int int int | QueueState int u16 bool | PortSocket int int int | ControlPath int int

fun pmap_do :: "pmap_op \<Rightarrow> pmap \<Rightarrow> pmap res" where
  "pmap_do (InitDevice p vid n) m = init_vhost_device p vid n m"
| "pmap_do (QueueState p v e) m = set_queue_state p v e m"
| "pmap_do (PortSocket p i fd) m = assign_port_socket p i fd m"
| "pmap_do (ControlPath p fd) m = Inr (assign_control_path p fd m)"

fun pmap_run :: "pmap_op list \<Rightarrow> pmap \<Rightarrow> pmap res" where
  "pmap_run [] m = Inr m"
| "pmap_run (x # xs) m = bindE (pmap_do x m) (pmap_run xs)"

section \<open>The store: lookups are typed\<close>

locale any_type =
  fixes mk :: "'a \<Rightarrow> any" and cast :: "any \<Rightarrow> 'a option"
  assumes cast_mk: "cast (mk x) = Some x"
    and cast_only: "cast a = Some x \<Longrightarrow> a = mk x"
begin

lemma get_set_same: "getValue cast key (setValue mk key v db) = Some v"
  by (simp add: getValue_def setValue_def cast_mk)

lemma get_set_other: "key' \<noteq> key \<Longrightarrow> getValue cast key' (setValue mk' key v db) = getValue cast key' db"
  by (simp add: getValue_def setValue_def)

lemma get_iff: "getValue cast key db = Some v \<longleftrightarrow> db key = Some (mk v)"
  by (auto simp: getValue_def cast_mk split: option.splits dest: cast_only)

end

interpretation any_int: any_type AInt cast_int
  by unfold_locales (auto elim: cast_int.elims)

interpretation any_unsigned: any_type AUnsigned cast_unsigned
  by unfold_locales (auto elim: cast_unsigned.elims)

interpretation any_bool: any_type ABool cast_bool
  by unfold_locales (auto elim: cast_bool.elims)

interpretation any_string: any_type AString cast_string
  by unfold_locales (auto elim: cast_string.elims)

interpretation any_u64: any_type AU64 cast_u64
  by unfold_locales (auto elim: cast_u64.elims)

interpretation any_double: any_type ADouble cast_double
  by unfold_locales (auto elim: cast_double.elims)

interpretation any_stats: any_type AStats cast_stats
  by unfold_locales (auto elim: cast_stats.elims)

section \<open>The command line: printing and parsing\<close>

text \<open>An option of the command line: the argument it sets, whether the short name is used, and its value.\<close>

type_synonym cl_option = "nat \<times> bool \<times> string option"

definition flag_of :: "Argument list \<Rightarrow> cl_option \<Rightarrow> string" where
  "flag_of args p = (case p of (k, sh, v) \<Rightarrow> if sh then arg_short (args ! k) else arg_long (args ! k))"

definition render :: "Argument list \<Rightarrow> cl_option \<Rightarrow> string list" where
  "render args p = flag_of args p # (case snd (snd p) of None \<Rightarrow> [] | Some s \<Rightarrow> [s])"

definition apply_opt :: "Argument list \<Rightarrow> cl_option \<Rightarrow> Argument list" where
  "apply_opt args p = (case p of (k, sh, v) \<Rightarrow>
     args[k := (args ! k)\<lparr>arg_found := True,
       arg_value := (case v of None \<Rightarrow> arg_value (args ! k) | Some s \<Rightarrow> s)\<rparr>])"

definition wf_args :: "Argument list \<Rightarrow> bool" where
  "wf_args args \<longleftrightarrow> (\<forall>k < length args.
     find_arg (arg_long (args ! k)) args = Some k \<and> find_arg (arg_short (args ! k)) args = Some k \<and>
     is_flag (arg_long (args ! k)) \<and> is_flag (arg_short (args ! k)))"

definition opt_ok :: "Argument list \<Rightarrow> cl_option \<Rightarrow> bool" where
  "opt_ok args p \<longleftrightarrow> (case p of (k, sh, v) \<Rightarrow> k < length args \<and>
     (case v of None \<Rightarrow> \<not> arg_required (args ! k) | Some s \<Rightarrow> \<not> is_flag s))"

text \<open>The value that the options leave for argument \<open>k\<close>: that of the last option for it that has one.\<close>

definition final_value :: "Argument list \<Rightarrow> nat \<Rightarrow> cl_option list \<Rightarrow> string" where
  "final_value args k opts =
     foldl (\<lambda>v (j, sh, w). if j = k then (case w of None \<Rightarrow> v | Some s \<Rightarrow> s) else v) (arg_value (args ! k)) opts"

definition signature :: "Argument list \<Rightarrow> (string \<times> string \<times> bool) list" where
  "signature args = map (\<lambda>a. (arg_long a, arg_short a, arg_required a)) args"

lemma find_arg_signature: "signature as = signature bs \<Longrightarrow> find_arg t as = find_arg t bs"
proof (induction as arbitrary: bs)
  case (Cons a as)
  then obtain b bs' where b: "bs = b # bs'" by (cases bs) (simp_all add: signature_def)
  with Cons.prems have "arg_long a = arg_long b" "arg_short a = arg_short b" "signature as = signature bs'"
    by (simp_all add: signature_def)
  with Cons.IH[of bs'] b show ?case by simp
qed (simp add: signature_def)

lemma signature_nth:
  assumes "signature as = signature bs" "k < length bs"
  shows "length as = length bs" "arg_long (as ! k) = arg_long (bs ! k)" "arg_short (as ! k) = arg_short (bs ! k)"
    "arg_required (as ! k) = arg_required (bs ! k)"
proof -
  show l: "length as = length bs" using arg_cong[OF assms(1), of length] by (simp add: signature_def)
  have "signature as ! k = signature bs ! k" by (simp add: assms(1))
  then show "arg_long (as ! k) = arg_long (bs ! k)" "arg_short (as ! k) = arg_short (bs ! k)"
    "arg_required (as ! k) = arg_required (bs ! k)" using l assms(2) by (simp_all add: signature_def)
qed

lemma signature_apply [simp]: "signature (apply_opt as p) = signature as"
proof -
  obtain k sh v where p: "p = (k, sh, v)" by (cases p)
  have "signature (apply_opt as p) = (signature as)[k := signature as ! k]"
  proof (cases "k < length as")
    case True
    then show ?thesis by (simp add: p apply_opt_def signature_def map_update)
  qed (simp add: p apply_opt_def list_update_beyond)
  then show ?thesis by simp
qed

lemma length_apply_opt [simp]: "length (apply_opt as p) = length as"
  by (cases p) (simp add: apply_opt_def)

lemma find_arg_flag:
  assumes "wf_args args0" "signature args = signature args0" "opt_ok args0 p"
  shows "find_arg (flag_of args0 p) args = Some (fst p)" "is_flag (flag_of args0 p)"
  using assms find_arg_signature[OF assms(2)]
  by (cases p; auto simp: wf_args_def flag_of_def opt_ok_def)+

lemma hd_render_flag:
  assumes "wf_args args0" "\<forall>p \<in> set opts. opt_ok args0 p" "concat (map (render args0) opts) \<noteq> []"
  shows "is_flag (hd (concat (map (render args0) opts)))"
  using assms find_arg_flag(2)[OF assms(1) refl] by (cases opts) (auto simp: render_def)

lemma parse_render:
  assumes "wf_args args0" "\<forall>p \<in> set opts. opt_ok args0 p" "signature args = signature args0"
  shows "parse_tokens (concat (map (render args0) opts)) args = Inr (foldl apply_opt args opts)"
  using assms(2,3)
proof (induction opts arbitrary: args)
  case (Cons p ps)
  obtain k sh v where p: "p = (k, sh, v)" by (cases p)
  have ok: "opt_ok args0 p" using Cons.prems(1) by simp
  have find: "find_arg (flag_of args0 p) args = Some k"
    using find_arg_flag(1)[OF assms(1) Cons.prems(2) ok] p by simp
  have k: "k < length args0" using ok p by (simp add: opt_ok_def)
  have sig: "signature (apply_opt args p) = signature args0" using Cons.prems(2) by simp
  have IH: "parse_tokens (concat (map (render args0) ps)) (apply_opt args p) =
      Inr (foldl apply_opt (apply_opt args p) ps)"
    by (rule Cons.IH[OF _ sig]) (use Cons.prems(1) in simp)
  show ?case
  proof (cases v)
    case None
    then have "\<not> arg_required (args ! k)"
      using ok p signature_nth(4)[OF Cons.prems(2) k] by (simp add: opt_ok_def)
    moreover have "concat (map (render args0) ps) = [] \<or> is_flag (hd (concat (map (render args0) ps)))"
      using hd_render_flag[OF assms(1), of ps] Cons.prems(1) by auto
    moreover have "apply_opt args p = args[k := (args ! k)\<lparr>arg_found := True\<rparr>]"
      using None p by (simp add: apply_opt_def)
    moreover have "concat (map (render args0) (p # ps)) = flag_of args0 p # concat (map (render args0) ps)"
      using None p by (simp add: render_def)
    ultimately show ?thesis using IH find by (auto simp: Let_def)
  next
    case (Some s)
    then have "\<not> is_flag s" using ok p by (simp add: opt_ok_def)
    moreover have "apply_opt args p = args[k := (args ! k)\<lparr>arg_found := True, arg_value := s\<rparr>]"
      using Some p by (simp add: apply_opt_def)
    moreover have "concat (map (render args0) (p # ps)) = flag_of args0 p # s # concat (map (render args0) ps)"
      using Some p by (simp add: render_def)
    ultimately show ?thesis using IH find by (simp add: Let_def)
  qed
qed simp

lemma foldl_apply_nth:
  assumes "k < length args" "\<forall>p \<in> set opts. fst p < length args"
  shows "arg_value (foldl apply_opt args opts ! k) = final_value args k opts \<and>
    (arg_found (foldl apply_opt args opts ! k) \<longleftrightarrow> arg_found (args ! k) \<or> k \<in> fst ` set opts)"
  using assms
proof (induction opts arbitrary: args)
  case (Cons p ps)
  obtain j sh v where p: "p = (j, sh, v)" by (cases p)
  from Cons.IH[of "apply_opt args p"] Cons.prems p show ?case
    by (auto simp: final_value_def apply_opt_def nth_list_update split: option.splits)
qed (simp add: final_value_def)

lemma signature_foldl: "signature (foldl apply_opt args opts) = signature args"
  by (induction opts arbitrary: args) auto

lemma check_required_ok: "\<forall>a \<in> set args. arg_required a \<longrightarrow> arg_found a \<Longrightarrow> check_required args = Inr ()"
  by (induction args) auto

lemma app_tokens_eal: "''--'' \<notin> set eal \<Longrightarrow> app_tokens (prog # eal @ ''--'' # ts) = ts"
proof -
  assume "''--'' \<notin> set eal"
  then have "dropWhile (\<lambda>s. s \<noteq> ''--'') (eal @ ''--'' # ts) = ''--'' # ts"
    by (induction eal) auto
  then show ?thesis by (simp add: app_tokens_def)
qed

text \<open>C33: The command line survives printing and parsing. For a parser whose flags are distinct and begin
  with a dash, and any list of options (long or short flag, a value that does not begin with a
  dash, or none for an argument that is not required) that contains every required argument, the
  command line of program name, EAL arguments, \<^verbatim>\<open>--\<close> and the printed options parses without an
  exception, and for every argument \<^verbatim>\<open>get<string>\<close> returns the value of the last option that gave
  one, or else the default.\<close>

theorem parse_roundtrip:
  assumes "wf_args args" "\<forall>p \<in> set opts. opt_ok args p" "''--'' \<notin> set eal"
    and "\<forall>k < length args. arg_required (args ! k) \<longrightarrow> k \<in> fst ` set opts"
  shows "\<exists>args'. parse (prog # eal @ ''--'' # concat (map (render args) opts)) args = Inr args' \<and>
    (\<forall>k < length args. get_string (arg_long (args ! k)) args' = final_value args k opts)"
proof -
  let ?args' = "foldl apply_opt args opts"
  have sig: "signature ?args' = signature args" by (rule signature_foldl)
  have fst: "\<forall>p \<in> set opts. fst p < length args" using assms(2) by (auto simp: opt_ok_def)
  have len: "length ?args' = length args" using arg_cong[OF sig, of length] by (simp add: signature_def)
  have "arg_found a" if a: "a \<in> set ?args'" and req: "arg_required a" for a
  proof -
    obtain k where k: "k < length args" "a = ?args' ! k" using a len by (auto simp: in_set_conv_nth)
    then show ?thesis using foldl_apply_nth[OF k(1) fst] req assms(4) signature_nth(4)[OF sig k(1)] by simp
  qed
  then have "check_required ?args' = Inr ()" by (simp add: check_required_ok)
  then have "parse (prog # eal @ ''--'' # concat (map (render args) opts)) args = Inr ?args'"
    by (simp add: parse_def app_tokens_eal[OF assms(3)] parse_render[OF assms(1,2) refl])
  moreover have "get_string (arg_long (args ! k)) ?args' = final_value args k opts" if "k < length args" for k
  proof -
    have "find_arg (arg_long (args ! k)) ?args' = Some k"
      using assms(1) that find_arg_signature[OF sig] by (simp add: wf_args_def)
    then show ?thesis using foldl_apply_nth[OF that fst] by (simp add: get_string_def)
  qed
  ultimately show ?thesis by blast
qed

lemma config_args_eval:
  "config_args =
    [\<lparr>arg_long = ''--help'', arg_short = ''-h'', arg_desc = ''Show this help menu'', arg_required = False,
      arg_found = False, arg_value = ''false''\<rparr>,
     \<lparr>arg_long = ''--portmask'', arg_short = ''-p'', arg_desc = ''Hex bitmask of ports'', arg_required = True,
      arg_found = False, arg_value = ''0x0''\<rparr>,
     \<lparr>arg_long = ''--mode'', arg_short = ''-m'', arg_desc = ''polling | interrupt'', arg_required = False,
      arg_found = False, arg_value = ''polling''\<rparr>,
     \<lparr>arg_long = ''--burst'', arg_short = ''-b'', arg_desc = ''Packet burst size'', arg_required = False,
      arg_found = False, arg_value = ''32''\<rparr>]"
  by (simp add: config_args_def add_argument_def)

lemma wf_config_args: "wf_args config_args"
  unfolding wf_args_def by (auto simp: config_args_eval is_flag_def less_Suc_eq numeral_eq_Suc)

theorem parse_roundtrip_witness:
  "\<exists>args'. parse [''vtb'', ''-l'', ''--'', ''-p'', ''0x3'', ''--mode'', ''interrupt'', ''-h''] config_args = Inr args' \<and>
     get_string ''--mode'' args' = ''interrupt''"
proof -
  let ?opts = "[(1, True, Some ''0x3''), (2, False, Some ''interrupt''), (0, True, None)] :: cl_option list"
  have f: "\<forall>p \<in> set ?opts. opt_ok config_args p" "''--'' \<notin> set [''-l'']"
    "\<forall>k < length config_args. arg_required (config_args ! k) \<longrightarrow> k \<in> fst ` set ?opts"
    by (auto simp: opt_ok_def config_args_eval is_flag_def less_Suc_eq numeral_eq_Suc)
  have r: "concat (map (render config_args) ?opts) = [''-p'', ''0x3'', ''--mode'', ''interrupt'', ''-h'']"
    "arg_long (config_args ! 2) = ''--mode''" "final_value config_args 2 ?opts = ''interrupt''" "2 < length config_args"
    by (simp_all add: render_def flag_of_def config_args_eval final_value_def)
  from parse_roundtrip[OF wf_config_args f, of "''vtb''"] r show ?thesis by auto
qed

text \<open>The help flag is ignored. When \<^verbatim>\<open>--help\<close> is given after a valid port mask, \<^verbatim>\<open>init\<close> neither
  prints the usage nor asks to stop: the flag takes no value, its stored value stays \<^verbatim>\<open>false\<close>, and
  \<^verbatim>\<open>get<bool>\<close> looks only at the value.\<close>

theorem help_flag_ignored:
  assumes "''--'' \<notin> set eal" "\<not> is_flag pmask"
  shows "\<exists>args'. config_init (prog # eal @ [''--'', ''-p'', pmask, ''--help'']) config_args = (True, args', None, [])"
  using assms
  by (simp add: config_init_def parse_def app_tokens_eal config_args_eval Let_def get_bool_def get_string_def)

theorem help_flag_ignored_witness:
  "\<exists>args'. config_init [''vtb'', ''--'', ''-p'', ''0x1'', ''--help''] config_args = (True, args', None, [])"
  using help_flag_ignored[of "[]" "''0x1''" "''vtb''"] by (simp add: is_flag_def)

section \<open>The port map: invariant\<close>

definition wf_portmap :: "portmap \<Rightarrow> bool" where
  "wf_portmap pm \<longleftrightarrow> length (vd_qp (vd pm)) = MAX_QUEUE_PAIRS \<and> length (pd_qp (pd pm)) = MAX_QUEUE_PAIRS \<and>
     nof_queue_pairs (vd pm) \<le> int MAX_QUEUE_PAIRS \<and>
     (\<forall>i < nat (nof_queue_pairs (vd pm)). v_rxq_id (vd_qp (vd pm) ! i) = of_nat (2 * i) \<and>
        v_txq_id (vd_qp (vd pm) ! i) = of_nat (2 * i + 1))"

definition wf_pmap :: "pmap \<Rightarrow> bool" where
  "wf_pmap m \<longleftrightarrow> (\<forall>p pm. m p = Some pm \<longrightarrow> wf_portmap pm)"

definition op_ok :: "pmap_op \<Rightarrow> bool" where
  "op_ok x = (case x of InitDevice p vid n \<Rightarrow> n \<le> int MAX_QUEUE_PAIRS | PortSocket p i fd \<Rightarrow> 0 \<le> i | _ \<Rightarrow> True)"

lemma init_pairs_ok:
  assumes "i + n \<le> MAX_QUEUE_PAIRS" "length (vd_qp (vd pm)) = MAX_QUEUE_PAIRS" "length (pd_qp (pd pm)) = MAX_QUEUE_PAIRS"
    and "\<forall>j < i. v_rxq_id (vd_qp (vd pm) ! j) = of_nat (2 * j) \<and> v_txq_id (vd_qp (vd pm) ! j) = of_nat (2 * j + 1)"
  shows "\<exists>pm'. init_pairs i n pm = Inr pm' \<and> length (vd_qp (vd pm')) = MAX_QUEUE_PAIRS \<and>
    length (pd_qp (pd pm')) = MAX_QUEUE_PAIRS \<and> nof_queue_pairs (vd pm') = nof_queue_pairs (vd pm) \<and>
    (\<forall>j < i + n. v_rxq_id (vd_qp (vd pm') ! j) = of_nat (2 * j) \<and> v_txq_id (vd_qp (vd pm') ! j) = of_nat (2 * j + 1))"
  using assms
proof (induction i n pm rule: init_pairs.induct)
  case (2 i n pm)
  from "2.prems" have i: "i < length (vd_qp (vd pm))" "i < length (pd_qp (pd pm))" by auto
  let ?vq = "(vd_qp (vd pm))[i := \<lparr>v_rxq_id = of_nat (2 * i), v_txq_id = of_nat (2 * i + 1),
    rxq_enabled = False, txq_enabled = False\<rparr>]"
  let ?pq = "(pd_qp (pd pm))[i := \<lparr>p_rxq_id = -1, p_txq_id = -1\<rparr>]"
  have "\<forall>j < Suc i. v_rxq_id (?vq ! j) = of_nat (2 * j) \<and> v_txq_id (?vq ! j) = of_nat (2 * j + 1)"
    using "2.prems"(4) i by (auto simp: nth_list_update less_Suc_eq)
  then show ?case using "2.IH"[of ?vq ?pq] "2.prems" i by (simp add: arr_set_def)
qed auto

lemma init_pairs_overrun:
  assumes "length (vd_qp (vd pm)) = MAX_QUEUE_PAIRS" "length (pd_qp (pd pm)) = MAX_QUEUE_PAIRS"
    "i \<le> MAX_QUEUE_PAIRS" "MAX_QUEUE_PAIRS < i + n"
  shows "init_pairs i n pm = Inl OutOfBounds"
  using assms by (induction i n pm rule: init_pairs.induct) (auto simp: arr_set_def)

lemma wf_zero_portmap: "wf_portmap zero_portmap"
  by (simp add: wf_portmap_def zero_portmap_def)

lemma wf_pmap_upd: "wf_pmap m \<Longrightarrow> wf_portmap pm \<Longrightarrow> wf_pmap (m(p \<mapsto> pm))"
  by (simp add: wf_pmap_def)

lemma init_vhost_device_ok:
  assumes "wf_pmap m" "n \<le> int MAX_QUEUE_PAIRS"
  shows "\<exists>m'. init_vhost_device p vid n m = Inr m' \<and> wf_pmap m'"
proof -
  define pm where "pm = (case m p of None \<Rightarrow> zero_portmap | Some pm \<Rightarrow> pm)"
  have "wf_portmap pm" using assms(1) wf_zero_portmap by (auto simp: pm_def wf_pmap_def split: option.splits)
  then have "\<exists>pm'. init_pairs 0 (nat n) (pm\<lparr>vd := (vd pm)\<lparr>vd_vid := vid, nof_queue_pairs := n, vd_ready := True\<rparr>\<rparr>) =
      Inr pm' \<and> wf_portmap pm'"
    using init_pairs_ok[of 0 "nat n" "pm\<lparr>vd := (vd pm)\<lparr>vd_vid := vid, nof_queue_pairs := n, vd_ready := True\<rparr>\<rparr>"] assms(2)
    by (auto simp: wf_portmap_def nat_le_iff)
  then show ?thesis using wf_pmap_upd[OF assms(1)] by (auto simp: init_vhost_device_def Let_def pm_def)
qed

text \<open>The pair and the direction that a vring belongs to.\<close>

definition set_vring :: "nat \<Rightarrow> bool \<Rightarrow> vhost_queue_pair list \<Rightarrow> vhost_queue_pair list" where
  "set_vring v enable qs =
     qs[v div 2 := (if even v then (qs ! (v div 2))\<lparr>rxq_enabled := enable\<rparr> else (qs ! (v div 2))\<lparr>txq_enabled := enable\<rparr>)]"

lemma of_nat_eq_u16: "k < 65536 \<Longrightarrow> (of_nat k = (v :: u16)) = (unat v = k)"
proof
  assume "unat v = k"
  then have "of_nat k = (of_nat (unat v) :: u16)" by simp
  then show "of_nat k = v" by simp
qed (auto simp: unat_of_nat)

lemma set_pair_state_ok:
  assumes "i + n \<le> length qs" "length qs \<le> MAX_QUEUE_PAIRS" "2 * i \<le> unat v"
    and "\<forall>j < i + n. v_rxq_id (qs ! j) = of_nat (2 * j) \<and> v_txq_id (qs ! j) = of_nat (2 * j + 1)"
  shows "set_pair_state i n v enable qs = Inr (if unat v < 2 * (i + n) then set_vring (unat v) enable qs else qs)"
  using assms
proof (induction i n v enable qs rule: set_pair_state.induct)
  case (2 i n v enable qs)
  have small: "i < 8" using "2.prems"(1,2) by (simp add: MAX_QUEUE_PAIRS_def)
  then have eq: "(of_nat (2 * i) = v) = (unat v = 2 * i)" "(of_nat (Suc (2 * i)) = v) = (unat v = Suc (2 * i))"
    by (intro of_nat_eq_u16, simp)+
  have ids: "v_rxq_id (qs ! i) = of_nat (2 * i)" "v_txq_id (qs ! i) = of_nat (2 * i + 1)" using "2.prems"(4) by auto
  have get: "arr_get qs i = Inr (qs ! i)" using "2.prems"(1) by simp
  consider "unat v = 2 * i" | "unat v = 2 * i + 1" | "2 * Suc i \<le> unat v"
    using "2.prems"(3) by (cases "unat v \<le> 2 * i + 1") force+
  then show ?case
  proof cases
    case 1
    then show ?thesis by (simp add: get ids eq set_vring_def del: of_nat_add of_nat_mult of_nat_Suc)
  next
    case 2
    then show ?thesis by (simp add: get ids eq set_vring_def del: of_nat_add of_nat_mult of_nat_Suc)
  next
    case 3
    then show ?thesis using "2.IH"[of "qs ! i"] "2.prems"
      by (simp add: get ids eq del: of_nat_add of_nat_mult of_nat_Suc)
  qed
qed simp

lemma set_queue_state_eq:
  assumes "wf_pmap m" "m p = Some pm"
  shows "set_queue_state p v enable m = Inr (m(p \<mapsto> pm\<lparr>vd := (vd pm)\<lparr>vd_qp :=
    (if int (unat v) < 2 * nof_queue_pairs (vd pm) then set_vring (unat v) enable (vd_qp (vd pm)) else vd_qp (vd pm))\<rparr>\<rparr>))"
proof -
  have wf: "wf_portmap pm" using assms by (simp add: wf_pmap_def)
  let ?n = "nat (nof_queue_pairs (vd pm))"
  have le: "?n \<le> length (vd_qp (vd pm))" "length (vd_qp (vd pm)) \<le> MAX_QUEUE_PAIRS"
    using wf by (auto simp: wf_portmap_def nat_le_iff)
  have lt: "(unat v < 2 * ?n) = (int (unat v) < 2 * nof_queue_pairs (vd pm))" by linarith
  show ?thesis
    using set_pair_state_ok[of 0 ?n "vd_qp (vd pm)" v enable] wf le assms(2)
    by (auto simp: set_queue_state_def wf_portmap_def lt)
qed

lemma wf_set_vring: "wf_portmap pm \<Longrightarrow> int v < 2 * nof_queue_pairs (vd pm) \<Longrightarrow>
  wf_portmap (pm\<lparr>vd := (vd pm)\<lparr>vd_qp := set_vring v enable (vd_qp (vd pm))\<rparr>\<rparr>)"
  by (auto simp: wf_portmap_def set_vring_def nth_list_update)

lemma pmap_do_ok:
  assumes "wf_pmap m" "op_ok x"
  shows "\<exists>m'. pmap_do x m = Inr m' \<and> wf_pmap m'"
proof (cases x)
  case (InitDevice p vid n)
  then show ?thesis using init_vhost_device_ok[OF assms(1), of n p vid] assms(2) by (simp add: op_ok_def)
next
  case (QueueState p v e)
  show ?thesis
  proof (cases "m p")
    case None
    then show ?thesis using QueueState assms(1) by (simp add: set_queue_state_def)
  next
    case (Some pm)
    then have "wf_portmap pm" using assms(1) by (simp add: wf_pmap_def)
    then show ?thesis using QueueState set_queue_state_eq[OF assms(1) Some, of v e] wf_set_vring[of pm "unat v" e]
        wf_pmap_upd[OF assms(1)] by auto
  qed
next
  case (PortSocket p i fd)
  then show ?thesis using assms
    by (cases "m p") (auto simp: op_ok_def assign_port_socket_def wf_pmap_def wf_portmap_def Let_def arr_set_def)
next
  case (ControlPath p fd)
  then show ?thesis using assms(1)
    by (cases "m p") (auto simp: assign_control_path_def wf_pmap_def wf_portmap_def)
qed

text \<open>C35: The port map stays well formed: any sequence of device initialisations with at most eight queue
  pairs, queue state changes for any vring, socket assignments with any non-negative index and
  control path assignments, in any order and for any ports, runs without an access outside the
  fixed arrays, and afterwards every port has eight entries for pairs and ids 2i and 2i+1 for the
  queues of pair i.\<close>

theorem port_map_invariant:
  assumes "\<forall>x \<in> set ops. op_ok x"
  shows "\<exists>m. pmap_run ops Map.empty = Inr m \<and> wf_pmap m"
proof -
  have "\<exists>m'. pmap_run ops m = Inr m' \<and> wf_pmap m'" if "wf_pmap m" for m
    using assms that
  proof (induction ops arbitrary: m)
    case (Cons x xs)
    obtain m1 where "pmap_do x m = Inr m1" "wf_pmap m1" using pmap_do_ok[OF Cons.prems(2), of x] Cons.prems(1) by auto
    with Cons.IH[of m1] Cons.prems(1) show ?case by simp
  qed simp
  then show ?thesis by (simp add: wf_pmap_def)
qed

theorem port_map_invariant_witness:
  "\<exists>m. pmap_run [InitDevice 0 7 2, QueueState 0 3 True, PortSocket 0 1 9] Map.empty = Inr m \<and> wf_pmap m"
  by (rule port_map_invariant) (simp add: op_ok_def MAX_QUEUE_PAIRS_def)

text \<open>After a device was initialised with \<open>n\<close> of at most eight queue pairs, a state change of vring
  \<open>v < 2n\<close> sets exactly the receive flag (even \<open>v\<close>) or the transmit flag (odd \<open>v\<close>) of pair \<open>v div 2\<close>
  and nothing else; with more than eight pairs the initialisation leaves the arrays.\<close>

theorem queue_state_exact:
  assumes "wf_pmap m" "0 \<le> n"
  shows "(n \<le> 8 \<longrightarrow> (\<exists>m1 pm. init_vhost_device p vid n m = Inr m1 \<and> m1 p = Some pm \<and>
      (\<forall>v. int (unat v) < 2 * n \<longrightarrow> set_queue_state p v enable m1 =
         Inr (m1(p \<mapsto> pm\<lparr>vd := (vd pm)\<lparr>vd_qp := set_vring (unat v) enable (vd_qp (vd pm))\<rparr>\<rparr>))))) \<and>
    (8 < n \<longrightarrow> init_vhost_device p vid n m = Inl OutOfBounds)"
proof -
  define pm0 where "pm0 = (case m p of None \<Rightarrow> zero_portmap | Some pm \<Rightarrow> pm)"
  define pm1 where "pm1 = pm0\<lparr>vd := (vd pm0)\<lparr>vd_vid := vid, nof_queue_pairs := n, vd_ready := True\<rparr>\<rparr>"
  have "wf_portmap pm0" using assms(1) wf_zero_portmap by (auto simp: pm0_def wf_pmap_def split: option.splits)
  then have len: "length (vd_qp (vd pm1)) = MAX_QUEUE_PAIRS" "length (pd_qp (pd pm1)) = MAX_QUEUE_PAIRS"
    by (simp_all add: pm1_def wf_portmap_def)
  have run: "init_vhost_device p vid n m = bindE (init_pairs 0 (nat n) pm1) (\<lambda>pm. Inr (m(p \<mapsto> pm)))"
    by (simp add: init_vhost_device_def Let_def pm0_def pm1_def)
  have "init_pairs 0 (nat n) pm1 = Inl OutOfBounds" if "8 < n"
    by (rule init_pairs_overrun[OF len]) (use that in \<open>simp_all add: MAX_QUEUE_PAIRS_def\<close>)
  moreover have "\<exists>m1 pm. init_vhost_device p vid n m = Inr m1 \<and> m1 p = Some pm \<and>
      (\<forall>v. int (unat v) < 2 * n \<longrightarrow> set_queue_state p v enable m1 =
         Inr (m1(p \<mapsto> pm\<lparr>vd := (vd pm)\<lparr>vd_qp := set_vring (unat v) enable (vd_qp (vd pm))\<rparr>\<rparr>)))" if n: "n \<le> 8"
  proof -
    obtain pm where pm: "init_pairs 0 (nat n) pm1 = Inr pm" "nof_queue_pairs (vd pm) = n"
      using init_pairs_ok[of 0 "nat n" pm1] len n by (auto simp: MAX_QUEUE_PAIRS_def nat_le_iff pm1_def)
    obtain m1 where m1: "init_vhost_device p vid n m = Inr m1" "wf_pmap m1"
      using init_vhost_device_ok[OF assms(1), of n p vid] n by (auto simp: MAX_QUEUE_PAIRS_def)
    have "m1 p = Some pm" using m1(1) run pm(1) by auto
    with m1 set_queue_state_eq[OF m1(2) this] pm(2) show ?thesis by auto
  qed
  ultimately show ?thesis using run by simp
qed

theorem queue_state_exact_witness:
  "init_vhost_device 0 7 9 Map.empty = Inl OutOfBounds \<and>
   (\<exists>m1 pm. init_vhost_device 0 7 2 Map.empty = Inr m1 \<and> m1 0 = Some pm \<and>
      set_queue_state 0 3 True m1 = Inr (m1(0 \<mapsto> pm\<lparr>vd := (vd pm)\<lparr>vd_qp := set_vring 3 True (vd_qp (vd pm))\<rparr>\<rparr>)))"
  using queue_state_exact[of Map.empty 9 0 7 True] queue_state_exact[of Map.empty 2 0 7 True]
  by (auto simp: wf_pmap_def)

end
