(* ===== verification/VtbLog.thy ===== *)
theory VtbLog
  imports VtbConfig "HOL-Library.Sublist"
begin

text \<open>
  Logging and the main program of the virtual test bench: src/vtb/src/logger.cpp,
  src/vtb/src/messenger.cpp, the port controllers src/vtb/src/port_controller.cpp,
  loopback_controller.cpp and tester_socket_controller.cpp, and src/vtb/vtb.cpp.

  Any thread may log while a background thread writes the buffer to the standard output and to the
  log file, so the logger is a step relation: \<open>flush_step\<close> is the next step of the background
  thread, whose position in \<^verbatim>\<open>flushLoop\<close> is part of the state. The ghost fields \<open>accepted\<close> and \<open>late\<close>
  hold the text that \<^verbatim>\<open>log\<close> took over, and the part of it that came after the final drain. The field \<open>cout\<close>
  is what the logger has written to the standard output. The usage of \<^verbatim>\<open>CmdlineParser\<close> goes to the same
  stream past the logger, so the terminal of the main program is a separate string, on which the characters
  of the usage may come between the blocks of the background thread (\<open>vtb_run\<close>).
\<close>

section \<open>The logger\<close>

datatype LogLevel = DEFAULT | FULL

text \<open>The enumerators are compared with \<^verbatim>\<open><=\<close>, in the order of their declaration.\<close>

instantiation LogLevel :: linorder
begin

definition less_eq_LogLevel_def: "(x :: LogLevel) \<le> y \<longleftrightarrow> x = DEFAULT \<or> y = FULL"

definition less_LogLevel_def: "(x :: LogLevel) < y \<longleftrightarrow> x = DEFAULT \<and> y = FULL"

instance
proof
  fix x y z :: LogLevel
  show "x \<le> x" by (cases x) (simp_all add: less_eq_LogLevel_def)
  show "x \<le> y \<or> y \<le> x" by (cases x; cases y) (simp_all add: less_eq_LogLevel_def)
qed (auto simp: less_eq_LogLevel_def less_LogLevel_def intro: LogLevel.exhaust)

end

lemma level_FULL [simp]: "(l :: LogLevel) \<le> FULL"
  by (simp add: less_eq_LogLevel_def)

text \<open>Where the background thread is: not started, at the loop condition, before the lock in the loop,
  after it with the text taken, before and after the final lock, and at its end.\<close>

datatype flusher = NotStarted | LoopHead | BeforeLock | HasText string | BeforeDrain | HasFinal string | Ended

record logger =
  m_level :: LogLevel
  m_file :: "string option"
  m_buffer :: string
  m_running :: bool
  m_initialized :: bool
  flush_thread :: flusher
  cout :: string
  accepted :: string
  late :: string

definition logger_new :: logger where
  "logger_new = \<lparr>m_level = DEFAULT, m_file = None, m_buffer = [], m_running = False, m_initialized = False,
     flush_thread = NotStarted, cout = [], accepted = [], late = []\<rparr>"

text \<open>\<open>open_ok\<close> says whether the file can be opened. The file is opened for appending; the model holds
  what this run appends.\<close>

definition logger_init :: "string \<Rightarrow> LogLevel \<Rightarrow> bool \<Rightarrow> logger \<Rightarrow> logger" where
  "logger_init filename level open_ok s =
     (if m_initialized s then s
      else s\<lparr>m_initialized := True, m_level := level,
             m_file := (if filename \<noteq> [] \<and> open_ok then Some [] else m_file s),
             m_running := True, flush_thread := LoopHead\<rparr>)"

definition drained :: "flusher \<Rightarrow> bool" where
  "drained t = (case t of HasFinal w \<Rightarrow> True | Ended \<Rightarrow> True | _ \<Rightarrow> False)"

definition logger_log :: "LogLevel \<Rightarrow> string \<Rightarrow> logger \<Rightarrow> logger" where
  "logger_log msg_level message s =
     (if msg_level \<le> m_level s then
        s\<lparr>m_buffer := m_buffer s @ message @ [CHR 0x0A],
          accepted := accepted s @ message @ [CHR 0x0A],
          late := (if drained (flush_thread s) then late s @ message @ [CHR 0x0A] else late s)\<rparr>
      else s)"

definition write_out :: "string \<Rightarrow> logger \<Rightarrow> logger" where
  "write_out w s =
     (if w = [] then s else s\<lparr>cout := cout s @ w, m_file := map_option (\<lambda>f. f @ w) (m_file s)\<rparr>)"

definition flush_step :: "logger \<Rightarrow> logger" where
  "flush_step s =
     (case flush_thread s of
        NotStarted \<Rightarrow> s
      | LoopHead \<Rightarrow> s\<lparr>flush_thread := (if m_running s then BeforeLock else BeforeDrain)\<rparr>
      | BeforeLock \<Rightarrow> s\<lparr>flush_thread := HasText (m_buffer s), m_buffer := []\<rparr>
      | HasText w \<Rightarrow> (write_out w s)\<lparr>flush_thread := LoopHead\<rparr>
      | BeforeDrain \<Rightarrow> s\<lparr>flush_thread := HasFinal (m_buffer s)\<rparr>
      | HasFinal w \<Rightarrow> (write_out w s)\<lparr>flush_thread := Ended\<rparr>
      | Ended \<Rightarrow> s)"

text \<open>The destructor stops the thread and then waits for it.\<close>

definition logger_stop :: "logger \<Rightarrow> logger" where
  "logger_stop s = s\<lparr>m_running := False\<rparr>"

definition logger_joined :: "logger \<Rightarrow> bool" where
  "logger_joined s \<longleftrightarrow> flush_thread s \<in> {NotStarted, Ended}"

inductive log_reach :: "logger \<Rightarrow> bool" where
  log_new: "log_reach logger_new"
| log_init: "log_reach s \<Longrightarrow> log_reach (logger_init f l ok s)"
| log_log: "log_reach s \<Longrightarrow> log_reach (logger_log l msg s)"
| log_flush: "log_reach s \<Longrightarrow> log_reach (flush_step s)"
| log_stop: "log_reach s \<Longrightarrow> log_reach (logger_stop s)"

section \<open>The messenger\<close>

text \<open>A \<^verbatim>\<open>LogStream\<close> has a level and a prefix, collects text, and logs it when it is destroyed. A log call of
  the program is such a stream with its final text.\<close>

type_synonym log_call = "LogLevel \<times> string \<times> string"

definition log_stream :: "log_call \<Rightarrow> logger \<Rightarrow> logger" where
  "log_stream c s =
     (case c of (level, pfx, txt) \<Rightarrow> if level \<le> m_level s then logger_log level (pfx @ txt) s else s)"

definition info :: "string \<Rightarrow> log_call" where
  "info txt = (DEFAULT, ''[INFO] '', txt)"

definition error_msg :: "string \<Rightarrow> log_call" where
  "error_msg txt = (DEFAULT, ''[ERROR] '', txt)"

definition details :: "string \<Rightarrow> log_call" where
  "details txt = (FULL, ''[DETAILS] '', txt)"

section \<open>Port controllers\<close>

text \<open>The three controllers differ in which of the empty hooks they run. \<open>workers\<close> counts the threads
  started.\<close>

datatype controller = PortController | LoopbackController | TesterSocketsController

datatype pc_call = CreateSocketFds controller | MonitorSocketEvents controller | EpollWorker controller | Join

record port_ctl =
  pc_class :: controller
  isRunning :: bool
  worker :: bool
  pc_calls :: "pc_call list"

definition startEpoll :: "port_ctl \<Rightarrow> port_ctl" where
  "startEpoll c =
     (if isRunning c then c
      else c\<lparr>isRunning := True, worker := True, pc_calls := pc_calls c @ [EpollWorker (pc_class c)]\<rparr>)"

definition pc_start :: "port_ctl \<Rightarrow> port_ctl" where
  "pc_start c =
     startEpoll (c\<lparr>pc_calls := pc_calls c @ [CreateSocketFds (pc_class c), MonitorSocketEvents (pc_class c)]\<rparr>)"

text \<open>The constructors: the base class starts nothing, the derived ones call \<^verbatim>\<open>start\<close>.\<close>

definition pc_new :: "controller \<Rightarrow> port_ctl" where
  "pc_new k = (let c = \<lparr>pc_class = k, isRunning = False, worker = False, pc_calls = []\<rparr> in
     if k = PortController then c else pc_start c)"

definition pc_delete :: "port_ctl \<Rightarrow> port_ctl" where
  "pc_delete c = (let c = c\<lparr>isRunning := False\<rparr> in
     if worker c then c\<lparr>worker := False, pc_calls := pc_calls c @ [Join]\<rparr> else c)"

section \<open>The main program\<close>

text \<open>The line with the command line parameters. Every exception of the lookups is caught.\<close>

definition cli_line :: "Argument list \<Rightarrow> log_call" where
  "cli_line args =
     (case bindE (get_uint64 ''--portmask'' args) (\<lambda>pmask.
           bindE (get_int ''--burst'' args) (\<lambda>burst. Inr (pmask, burst))) of
        Inl e \<Rightarrow> error_msg ''Failed to fetch one or more CLI arguments.''
      | Inr (pmask, burst) \<Rightarrow>
          info (''CLI: Portmask='' @ fmt_x (unat pmask) @ '' Mode='' @ get_string ''--mode'' args @
                '' Burst='' @ fmt_d burst @ '' Promisc='' @
                (if get_bool ''--promisc'' args then ''ON'' else ''OFF'')))"

definition demo_store :: "string \<rightharpoonup> any" where
  "demo_store =
     setValue AStats ''stats_port_0'' \<lparr>rx_packets = 1500000, tx_packets = 1200000, error_rate = ''0.001''\<rparr>
     (setValue ADouble ''timeout_ms'' ''500.5''
     (setValue AString ''driver_name'' ''net_virtio''
     (setValue ABool ''hugepages_active'' True
     (setValue AUnsigned ''socket_id'' 0
     (setValue AInt ''max_lcores'' 16 Map.empty)))))"

definition retrieval_tests :: "(string \<rightharpoonup> any) \<Rightarrow> log_call list" where
  "retrieval_tests db =
     [info (''Retrieved lcores: '' @ fmt_d (case getValue cast_int ''max_lcores'' db of None \<Rightarrow> 1 | Some n \<Rightarrow> n))] @
     (if getValue cast_string ''max_lcores'' db = None then
        [details (''Safety Check: Correctly blocked invalid type cast for '' @ [CHR 0x27] @ ''max_lcores'' @
                  [CHR 0x27] @ ''.'')]
      else []) @
     (case getValue cast_stats ''stats_port_0'' db of
        None \<Rightarrow> []
      | Some st \<Rightarrow> [info (''Port 0 Stats - RX: '' @ fmt_u (unat (rx_packets st)) @ '' Error Rate: '' @ error_rate st)])"

text \<open>What \<^verbatim>\<open>main\<close> does to its output: log calls, and text that it inserts into \<^verbatim>\<open>std::cout\<close> itself.\<close>

datatype vtb_act = Log log_call | Print string


definition vtb_main :: "string list \<Rightarrow> string list \<Rightarrow> int \<times> vtb_act list" where
  "vtb_main argv order =
     (let start = info ''Starting DPDK Application Environment...'' in
      case config_init argv config_args of
        (False, args, err, usage) \<Rightarrow>
          (-1, [Log start] @ (case err of None \<Rightarrow> [] | Some e \<Rightarrow> [Log (error_msg e)]) @ [Print usage] @
               [Log (error_msg ''Invalid command line arguments.'')])
      | (True, args, err, usage) \<Rightarrow>
          let dump = dumpConfig order demo_store in
          (0, map Log ([start, cli_line args, info ''Populating Internal Config Database...'',
                        info ''Performing Retrieval Tests...''] @ retrieval_tests demo_store @
                       [info (hd dump)] @ map details (tl dump) @ [info ''Application Setup Complete.''])))"




section \<open>Invariant of the logger\<close>

definition in_flight :: "flusher \<Rightarrow> string" where
  "in_flight t = (case t of HasText w \<Rightarrow> w | HasFinal w \<Rightarrow> w | _ \<Rightarrow> [])"

definition log_inv :: "logger \<Rightarrow> bool" where
  "log_inv s \<longleftrightarrow>
     accepted s = cout s @ in_flight (flush_thread s) @ (if drained (flush_thread s) then late s else m_buffer s) \<and>
     (\<forall>f. m_file s = Some f \<longrightarrow> f = cout s) \<and>
     (\<not> m_initialized s \<longrightarrow> flush_thread s = NotStarted) \<and>
     (flush_thread s = NotStarted \<longrightarrow> cout s = [] \<and> \<not> m_initialized s) \<and>
     (\<not> drained (flush_thread s) \<longrightarrow> late s = [])"

lemmas log_defs = log_inv_def in_flight_def drained_def logger_init_def logger_log_def flush_step_def
  write_out_def logger_stop_def

lemma log_inv_init: "log_inv s \<Longrightarrow> log_inv (logger_init f l ok s)"
  by (auto simp: log_defs)

lemma log_inv_log: "log_inv s \<Longrightarrow> log_inv (logger_log l msg s)"
  by (cases "flush_thread s") (auto simp: log_inv_def in_flight_def drained_def logger_log_def)

lemma log_inv_flush: "log_inv s \<Longrightarrow> log_inv (flush_step s)"
  by (cases "flush_thread s") (auto simp: log_inv_def in_flight_def drained_def flush_step_def write_out_def)

lemma log_reach_inv: "log_reach s \<Longrightarrow> log_inv s"
proof (induction rule: log_reach.induct)
  case log_new
  then show ?case by (simp add: log_defs logger_new_def)
next
  case (log_stop s)
  then show ?case by (simp add: log_defs)
qed (simp_all add: log_inv_init log_inv_log log_inv_flush)

lemma flush_iterate:
  "(flush_step ^^ 2) s = flush_step (flush_step s)"
  "(flush_step ^^ 3) s = flush_step (flush_step (flush_step s))"
  "(flush_step ^^ 4) s = flush_step (flush_step (flush_step (flush_step s)))"
  "(flush_step ^^ 5) s = flush_step (flush_step (flush_step (flush_step (flush_step s))))"
  by (simp_all add: eval_nat_numeral)

lemma shutdown_drains:
  assumes "log_reach s" "m_initialized s" "\<not> drained (flush_thread s)"
  shows "\<exists>k \<le> 5. logger_joined ((flush_step ^^ k) (logger_stop s)) \<and>
    cout ((flush_step ^^ k) (logger_stop s)) = accepted s"
proof -
  have inv: "log_inv s" by (rule log_reach_inv[OF assms(1)])
  let ?P = "\<lambda>k. logger_joined ((flush_step ^^ k) (logger_stop s)) \<and>
    cout ((flush_step ^^ k) (logger_stop s)) = accepted s"
  note defs = flush_step_def write_out_def logger_stop_def logger_joined_def flush_iterate
  have acc: "accepted s = cout s @ in_flight (flush_thread s) @ m_buffer s"
    using inv assms(3) by (simp add: log_inv_def)
  consider "flush_thread s = LoopHead" | "flush_thread s = BeforeLock" | w where "flush_thread s = HasText w"
    | "flush_thread s = BeforeDrain"
    using assms(2,3) inv by (cases "flush_thread s") (auto simp: log_inv_def drained_def)
  then show ?thesis
  proof cases
    case 1
    then have "?P 3" using acc by (simp add: defs in_flight_def)
    then show ?thesis by (intro exI[of _ 3]) simp
  next
    case 2
    then have "?P 5" using acc by (simp add: defs in_flight_def)
    then show ?thesis by (intro exI[of _ 5]) simp
  next
    case 3
    then have "?P 4" using acc by (simp add: defs in_flight_def)
    then show ?thesis by (intro exI[of _ 4]) simp
  next
    case 4
    then have "?P 2" using acc by (simp add: defs in_flight_def)
    then show ?thesis by (intro exI[of _ 2]) simp
  qed
qed

lemma log_stream_reach: "log_reach s \<Longrightarrow> log_reach (log_stream c s)"
  by (cases c) (simp add: log_stream_def log_reach.intros)












section \<open>Properties\<close>

text \<open>C27: The logger writes every message exactly once and in order. In every state that any interleaving
  of initialisation, logging, flushing and shutdown reaches, the standard output is a prefix of
  the text that \<^verbatim>\<open>log\<close> accepted, an open log file holds the same text, and when the background
  thread has ended, everything that was logged before its final drain has been written.\<close>

theorem logger_in_order:
  assumes "log_reach s"
  shows "prefix (cout s) (accepted s) \<and> (\<forall>f. m_file s = Some f \<longrightarrow> f = cout s) \<and>
    (flush_thread s = Ended \<longrightarrow> accepted s = cout s @ late s)"
  using log_reach_inv[OF assms] by (auto simp: log_inv_def drained_def in_flight_def)

text \<open>Shutdown drains the logger. From every reachable state of an initialised logger whose final
  drain is still to come, once the destructor has cleared the running flag, at most five steps of
  the background thread reach its end, and then all accepted text has been written.\<close>

theorem logger_shutdown_drains:
  assumes "log_reach s" "m_initialized s" "\<not> drained (flush_thread s)"
  shows "\<exists>k \<le> 5. logger_joined ((flush_step ^^ k) (logger_stop s)) \<and>
    cout ((flush_step ^^ k) (logger_stop s)) = accepted s"
  by (rule shutdown_drains[OF assms])



text \<open>What \<^verbatim>\<open>main\<close> logs and returns when the command line is accepted: the store gives back what was
  put into it (the integer under its own type, nothing under another one, the statistics of port 0),
  every key is dumped once in the order of the map, and the value returned is 0.\<close>

theorem vtb_main_messages:
  assumes "config_init argv config_args = (True, args, None, usage)"
  shows "vtb_main argv order = (0, map Log (
    [info ''Starting DPDK Application Environment...'', cli_line args,
     info ''Populating Internal Config Database...'', info ''Performing Retrieval Tests...'',
     info ''Retrieved lcores: 16'',
     details (''Safety Check: Correctly blocked invalid type cast for '' @ [CHR 0x27] @ ''max_lcores'' @ [CHR 0x27] @ ''.''),
     info ''Port 0 Stats - RX: 1500000 Error Rate: 0.001'', info ''--- [Config DB Dump] ---''] @
    map (\<lambda>key. details (''Key: '' @ setw 20 key @ '' | Value: '' @ any_text (the (demo_store key)))) order @
    [info ''Application Setup Complete.'']))"
proof -
  have "getValue cast_int ''max_lcores'' demo_store = Some 16" "getValue cast_string ''max_lcores'' demo_store = None"
    "getValue cast_stats ''stats_port_0'' demo_store =
       Some \<lparr>rx_packets = 1500000, tx_packets = 1200000, error_rate = ''0.001''\<rparr>"
    by (simp_all add: demo_store_def getValue_def setValue_def)
  moreover have "fmt_d 16 = ''16''" "fmt_u 1500000 = ''1500000''"
    by (simp_all add: fmt_d_def fmt_u_def digits.simps digit_lower_def char_of_def bit_0)
  ultimately show ?thesis
    using assms by (simp add: vtb_main_def retrieval_tests_def dumpConfig_def)
qed

text \<open>Text logged before \<^verbatim>\<open>init\<close>, or without it, stays in the buffer: no thread writes it.\<close>

lemma uninitialised_logger_silent: "log_reach s \<Longrightarrow> \<not> m_initialized s \<Longrightarrow> cout s = [] \<and> flush_step s = s"
  using log_reach_inv[of s] by (auto simp: log_inv_def flush_step_def)

definition log_demo :: logger where
  "log_demo = log_stream (info ''two'') (flush_step (flush_step (log_stream (info ''one'')
     (logger_init ''f'' FULL True logger_new))))"

lemma log_demo_reach: "log_reach log_demo"
  unfolding log_demo_def by (intro log_stream_reach log_reach.intros)

lemma log_demo_values:
  "m_initialized log_demo" "flush_thread log_demo = HasText (''[INFO] one'' @ [CHR 0x0A])"
  "accepted log_demo = ''[INFO] one'' @ [CHR 0x0A] @ ''[INFO] two'' @ [CHR 0x0A]" "cout log_demo = []"
  by (simp_all add: log_demo_def info_def log_stream_def log_defs logger_new_def)

theorem logger_in_order_witness:
  "prefix (cout (flush_step log_demo)) (accepted (flush_step log_demo)) \<and>
   cout (flush_step log_demo) = ''[INFO] one'' @ [CHR 0x0A]"
proof -
  have "cout (flush_step log_demo) = ''[INFO] one'' @ [CHR 0x0A]"
    using log_demo_values by (simp add: flush_step_def write_out_def)
  with logger_in_order[OF log_reach.log_flush[OF log_demo_reach]] show ?thesis by simp
qed

theorem logger_shutdown_drains_witness:
  "\<exists>k \<le> 5. logger_joined ((flush_step ^^ k) (logger_stop log_demo)) \<and>
    cout ((flush_step ^^ k) (logger_stop log_demo)) = ''[INFO] one'' @ [CHR 0x0A] @ ''[INFO] two'' @ [CHR 0x0A]"
  using logger_shutdown_drains[OF log_demo_reach] log_demo_values by (simp add: drained_def)

text \<open>A controller is started once, and its destructor joins the worker it started.\<close>

lemma pc_start_idempotent: "worker (pc_start c) = (isRunning c \<longrightarrow> worker c)"
  "count_list (pc_calls (pc_start (pc_start c))) (EpollWorker k) = count_list (pc_calls (pc_start c)) (EpollWorker k)"
  by (auto simp: pc_start_def startEpoll_def)

lemma pc_delete_joins: "k \<noteq> PortController \<Longrightarrow>
  pc_calls (pc_delete (pc_new k)) = [CreateSocketFds k, MonitorSocketEvents k, EpollWorker k, Join]"
  by (simp add: pc_delete_def pc_new_def pc_start_def startEpoll_def)






lemma vtb_good_args:
  "\<exists>args. config_init [''vtb'', ''--'', ''-p'', ''0x3''] config_args = (True, args, None, [])"
  by (simp add: config_init_def parse_def app_tokens_def config_args_eval is_flag_def Let_def get_bool_def get_string_def)

theorem vtb_main_messages_witness:
  "\<exists>cs. vtb_main [''vtb'', ''--'', ''-p'', ''0x3''] [''driver_name''] = (0, map Log cs) \<and> length cs = 10 \<and>
     cs ! 8 = details (''Key: driver_name          | Value: net_virtio'')"
proof -
  obtain args where "config_init [''vtb'', ''--'', ''-p'', ''0x3''] config_args = (True, args, None, [])"
    using vtb_good_args by blast
  note m = vtb_main_messages[OF this, of "[''driver_name'']"]
  show ?thesis
    by (rule exI, rule conjI, rule m) (simp add: demo_store_def setValue_def any_text_def setw_def numeral_eq_Suc)
qed

end
