(* ===== verification/VtbVhost.thy ===== *)
theory VtbVhost
  imports Loopback VtbConfig
begin

text \<open>
  The vhost-user backend of the virtual test bench, src/vtb/src/vhost_controller.cpp. A producer
  thread takes packets from the guest and puts them into a ring, a consumer thread takes them from
  the ring and gives them back to the guest; both retry instead of dropping, and \<^verbatim>\<open>stop\<close>
  makes them leave their loops.

  DPDK is not part of the repository: the packets that a burst call delivers and the number of packets
  that the guest accepts are arguments of the step that makes the call, and the ring is a parameter
  with the contract \<open>rte_ring\<close>. The virtual method \<^verbatim>\<open>on_packet\<close> is a parameter too.

  The threads, the callbacks of the vhost library and \<^verbatim>\<open>stop\<close> run concurrently. Each thread has a
  position in its loop, and its next step goes from one access of shared state to the next. The ghost
  fields \<open>vc_rx\<close>, \<open>vc_tx\<close>, \<open>vc_freed\<close> and \<open>vc_done\<close> record the packets received, the data that
  the guest accepted, the calls of \<^verbatim>\<open>rte_pktmbuf_free\<close>, and what became of each packet.
\<close>

section \<open>State\<close>

definition PKT_BURST_SZ :: nat where "PKT_BURST_SZ = 32"
definition VC_RING_SIZE :: nat where "VC_RING_SIZE = 4096"
definition MAX_ENQUEUE_RETRIES :: nat where "MAX_ENQUEUE_RETRIES = 1000"

text \<open>Where the producer is: at the condition of the loop, before the test of \<^verbatim>\<open>ready_\<close>, before the burst
  call, pushing an array from position \<open>sent\<close> on, and at its end. The consumer likewise, with the number
  of packets sent and of retries; \<open>CDrain\<close> is the loop that empties the ring at the end.\<close>

datatype producer = PHead | PReady | PBurst | PPush "pkt list" nat | PDone
datatype consumer = CHead | CReady | CTake | CSend "pkt list" nat nat | CDrain | CDone

datatype fate = Delivered | Dropped | Drained

definition tagged :: "fate \<Rightarrow> pkt list \<Rightarrow> (pkt \<times> fate) list" where
  "tagged x ps = map (\<lambda>p. (p, x)) ps"

record 'r vhost_controller =
  vc_vid :: int
  vc_ready :: bool
  vc_quit :: bool
  vc_ring :: 'r
  rx_pkts :: u64
  tx_pkts :: u64
  tx_bytes :: u64
  producer_thread :: producer
  consumer_thread :: consumer
  vc_rx :: "pkt list"
  vc_tx :: "u8 list list"
  vc_freed :: "mbuf list"
  vc_done :: "(pkt \<times> fate) list"

definition vc_start :: "'r \<Rightarrow> 'r vhost_controller" where
  "vc_start r = \<lparr>vc_vid = -1, vc_ready = False, vc_quit = False, vc_ring = r, rx_pkts = 0, tx_pkts = 0, tx_bytes = 0,
     producer_thread = PHead, consumer_thread = CHead, vc_rx = [], vc_tx = [], vc_freed = [], vc_done = []\<rparr>"

text \<open>What the library promises of a ring of the given capacity: it is a FIFO queue, a burst stores as many
  packets as there is room for, and a burst removes as many as there are, up to the number asked for.\<close>

definition rte_ring :: "nat \<Rightarrow> 'r ring_ops \<Rightarrow> ('r \<Rightarrow> pkt list) \<Rightarrow> bool" where
  "rte_ring cap R contents \<longleftrightarrow>
     (\<forall>r ps. fst (enqueue_burst R r ps) = min (length ps) (cap - length (contents r)) \<and>
        contents (snd (enqueue_burst R r ps)) = contents r @ take (fst (enqueue_burst R r ps)) ps) \<and>
     (\<forall>r n. fst (dequeue_burst R r n) = take n (contents r) \<and>
        contents (snd (dequeue_burst R r n)) = drop n (contents r))"

section \<open>The two threads\<close>

text \<open>\<open>f\<close> is the effect of \<^verbatim>\<open>on_packet\<close> on the data of a packet, \<open>ps\<close> what the burst call delivers.\<close>

definition producer_step ::
  "'r ring_ops \<Rightarrow> (u8 list \<Rightarrow> u8 list) \<Rightarrow> pkt list \<Rightarrow> 'r vhost_controller \<Rightarrow> 'r vhost_controller" where
  "producer_step R f ps s =
     (case producer_thread s of
        PHead \<Rightarrow> s\<lparr>producer_thread := (if vc_quit s then PDone else PReady)\<rparr>
      | PReady \<Rightarrow> s\<lparr>producer_thread := (if vc_ready s then PBurst else PHead)\<rparr>
      | PBurst \<Rightarrow>
          (if ps = [] then s\<lparr>producer_thread := PHead\<rparr>
           else s\<lparr>producer_thread := PPush (map (apsnd f) ps) 0, vc_rx := vc_rx s @ ps\<rparr>)
      | PPush pkts sent \<Rightarrow>
          (let (pushed, r) = enqueue_burst R (vc_ring s) (drop sent pkts) in
           if sent + pushed < length pkts then s\<lparr>vc_ring := r, producer_thread := PPush pkts (sent + pushed)\<rparr>
           else s\<lparr>vc_ring := r, rx_pkts := rx_pkts s + of_nat (length pkts), producer_thread := PHead\<rparr>)
      | PDone \<Rightarrow> s)"

text \<open>The end of an iteration of the consumer: the bytes of the whole burst and the packets sent are
  counted, the packets that were not sent are freed, and then those that were.\<close>

definition consumer_finish :: "pkt list \<Rightarrow> nat \<Rightarrow> 'r vhost_controller \<Rightarrow> 'r vhost_controller" where
  "consumer_finish pkts sent s =
     s\<lparr>tx_bytes := fold (\<lambda>p b. b + of_nat (length (snd p))) pkts (tx_bytes s),
       tx_pkts := tx_pkts s + of_nat sent,
       vc_freed := vc_freed s @ map fst (drop sent pkts) @ map fst (take sent pkts),
       vc_done := vc_done s @ tagged Delivered (take sent pkts) @ tagged Dropped (drop sent pkts),
       consumer_thread := CHead\<rparr>"

text \<open>\<open>n\<close> is the number of packets that the guest accepts when the step calls \<^verbatim>\<open>rte_vhost_enqueue_burst\<close>.\<close>

definition consumer_step :: "'r ring_ops \<Rightarrow> nat \<Rightarrow> 'r vhost_controller \<Rightarrow> 'r vhost_controller" where
  "consumer_step R n s =
     (case consumer_thread s of
        CHead \<Rightarrow> s\<lparr>consumer_thread := (if vc_quit s then CDrain else CReady)\<rparr>
      | CReady \<Rightarrow> s\<lparr>consumer_thread := (if vc_ready s then CTake else CHead)\<rparr>
      | CTake \<Rightarrow>
          (let (pkts, r) = dequeue_burst R (vc_ring s) PKT_BURST_SZ in
           s\<lparr>vc_ring := r, consumer_thread := (if pkts = [] then CHead else CSend pkts 0 0)\<rparr>)
      | CSend pkts sent retries \<Rightarrow>
          (if sent < length pkts \<and> retries < MAX_ENQUEUE_RETRIES then
             s\<lparr>vc_tx := vc_tx s @ map snd (take n (drop sent pkts)),
               consumer_thread := CSend pkts (sent + n) (if sent + n < length pkts then retries + 1 else retries)\<rparr>
           else consumer_finish pkts sent s)
      | CDrain \<Rightarrow>
          (let (pkts, r) = dequeue_burst R (vc_ring s) PKT_BURST_SZ in
           s\<lparr>vc_ring := r, vc_freed := vc_freed s @ map fst pkts, vc_done := vc_done s @ tagged Drained pkts,
             consumer_thread := (if pkts = [] then CDone else CDrain)\<rparr>)
      | CDone \<Rightarrow> s)"

text \<open>The number of packets that the next call offers to the guest.\<close>

definition offered :: "consumer \<Rightarrow> nat" where
  "offered c = (case c of CSend pkts sent retries \<Rightarrow> length pkts - sent | _ \<Rightarrow> 0)"

section \<open>Callbacks and shutdown\<close>

definition on_new_device :: "int \<Rightarrow> 'r vhost_controller \<Rightarrow> 'r vhost_controller" where
  "on_new_device vid s = s\<lparr>vc_vid := vid, vc_ready := True\<rparr>"

definition on_destroy_device :: "int \<Rightarrow> 'r vhost_controller \<Rightarrow> 'r vhost_controller" where
  "on_destroy_device vid s = (if vc_vid s = vid then s\<lparr>vc_ready := False, vc_vid := -1\<rparr> else s)"

definition stop :: "'r vhost_controller \<Rightarrow> 'r vhost_controller" where
  "stop s = s\<lparr>vc_quit := True\<rparr>"

inductive vc_step :: "'r ring_ops \<Rightarrow> (u8 list \<Rightarrow> u8 list) \<Rightarrow> 'r vhost_controller \<Rightarrow> 'r vhost_controller \<Rightarrow> bool" for R f where
  vc_producer: "length ps \<le> PKT_BURST_SZ \<Longrightarrow> vc_step R f s (producer_step R f ps s)"
| vc_consumer: "n \<le> offered (consumer_thread s) \<Longrightarrow> vc_step R f s (consumer_step R n s)"
| vc_new: "vc_step R f s (on_new_device vid s)"
| vc_destroy: "vc_step R f s (on_destroy_device vid s)"
| vc_stop: "vc_step R f s (stop s)"

inductive vc_reach :: "'r ring_ops \<Rightarrow> (u8 list \<Rightarrow> u8 list) \<Rightarrow> 'r \<Rightarrow> 'r vhost_controller \<Rightarrow> bool" for R f r\<^sub>0 where
  vc_reach_start: "vc_reach R f r\<^sub>0 (vc_start r\<^sub>0)"
| vc_reach_step: "vc_reach R f r\<^sub>0 s \<Longrightarrow> vc_step R f s t \<Longrightarrow> vc_reach R f r\<^sub>0 t"

inductive_cases vc_stepE: "vc_step R f s t"

section \<open>Construction and destruction\<close>

text \<open>The answers of DPDK, the calls made, and the members that the destructor looks at. An exception
  thrown is the first component of a result.\<close>

record vc_answers =
  va_eal :: int
  va_pool :: bool
  va_ring :: bool
  va_register :: int
  va_callbacks :: int
  va_start :: int

datatype resource = EAL | MbufPool | InterThreadRing | VhostDriver string

datatype vc_event = Acquire resource | Release resource | DisableMq string | EnableMrgRxbuf string | Joined

record vc_object =
  socket_path :: string
  eal_initialised :: bool
  has_pool :: bool
  has_ring :: bool
  driver_registered :: bool
  vc_events :: "vc_event list"

text \<open>\<open>inst\<close> says whether \<^verbatim>\<open>instance_\<close> already points to an object.\<close>

definition vc_construct :: "bool \<Rightarrow> string \<Rightarrow> string + vc_object" where
  "vc_construct inst path =
     (if inst then Inl ''only one VhostController instance allowed''
      else Inr \<lparr>socket_path = path, eal_initialised = False, has_pool = False, has_ring = False,
                driver_registered = False, vc_events = []\<rparr>)"

definition acquire :: "resource \<Rightarrow> vc_object \<Rightarrow> vc_object" where
  "acquire x c = c\<lparr>vc_events := vc_events c @ [Acquire x]\<rparr>"

definition vc_init :: "vc_answers \<Rightarrow> vc_object \<Rightarrow> string option \<times> vc_object" where
  "vc_init a c =
     (if va_eal a < 0 then (Some ''EAL init failed'', c)
      else let c = (acquire EAL c)\<lparr>eal_initialised := True\<rparr> in
      if \<not> va_pool a then (Some ''cannot create mbuf pool'', c\<lparr>has_pool := False\<rparr>)
      else let c = (acquire MbufPool c)\<lparr>has_pool := True\<rparr> in
      if \<not> va_ring a then (Some ''cannot create inter-thread ring'', c\<lparr>has_ring := False\<rparr>)
      else (None, (acquire InterThreadRing c)\<lparr>has_ring := True\<rparr>))"

definition vc_driver_start :: "vc_answers \<Rightarrow> vc_object \<Rightarrow> string option \<times> vc_object" where
  "vc_driver_start a c =
     (let path = socket_path c in
      if va_register a \<noteq> 0 then (Some (''vhost driver register failed: '' @ path), c)
      else let c = (acquire (VhostDriver path) c)\<lparr>driver_registered := True\<rparr>;
               c = c\<lparr>vc_events := vc_events c @ [DisableMq path, EnableMrgRxbuf path]\<rparr> in
      if va_callbacks a \<noteq> 0 then (Some ''vhost callback register failed'', c)
      else if va_start a \<noteq> 0 then (Some ''vhost driver start failed'', c)
      else (None, c))"

text \<open>The destructor; \<open>running\<close> says whether threads are left to be joined.\<close>

definition vc_destroy_object :: "bool \<Rightarrow> vc_object \<Rightarrow> vc_event list" where
  "vc_destroy_object running c =
     vc_events c @ (if running then [Joined, Joined] else []) @
     (if driver_registered c then [Release (VhostDriver (socket_path c))] else []) @
     (if has_ring c then [Release InterThreadRing] else []) @
     (if eal_initialised c then [Release EAL] else [])"

text \<open>The life of an object in a scope: construction, \<^verbatim>\<open>init\<close>, \<^verbatim>\<open>start\<close>, and the destructor at the end or
  when an exception leaves the scope.\<close>

definition vc_scope :: "string \<Rightarrow> vc_answers \<Rightarrow> string option \<times> vc_event list" where
  "vc_scope path a =
     (case vc_construct False path of
        Inl e \<Rightarrow> (Some e, [])
      | Inr c \<Rightarrow>
         (case vc_init a c of
            (Some e, c) \<Rightarrow> (Some e, vc_destroy_object False c)
          | (None, c) \<Rightarrow>
             (case vc_driver_start a c of (err, c) \<Rightarrow> (err, vc_destroy_object False c))))"


section \<open>Invariants\<close>

text \<open>The packets that the producer still has to push, the packets that the consumer holds, and how many of
  them it has sent.\<close>

definition p_left :: "producer \<Rightarrow> pkt list" where
  "p_left p = (case p of PPush pkts sent \<Rightarrow> drop sent pkts | _ \<Rightarrow> [])"

definition c_held :: "consumer \<Rightarrow> pkt list" where
  "c_held c = (case c of CSend pkts sent retries \<Rightarrow> pkts | _ \<Rightarrow> [])"

definition c_sent :: "consumer \<Rightarrow> nat" where
  "c_sent c = (case c of CSend pkts sent retries \<Rightarrow> sent | _ \<Rightarrow> 0)"

definition delivered :: "(pkt \<times> fate) list \<Rightarrow> u8 list list" where
  "delivered d = map (\<lambda>e. snd (fst e)) (filter (\<lambda>e. snd e = Delivered) d)"

definition p_ok :: "producer \<Rightarrow> bool" where
  "p_ok p = (case p of PPush pkts sent \<Rightarrow> sent < length pkts \<and> length pkts \<le> PKT_BURST_SZ | _ \<Rightarrow> True)"

definition c_ok :: "consumer \<Rightarrow> bool" where
  "c_ok c = (case c of
     CSend pkts sent retries \<Rightarrow> sent \<le> length pkts \<and> length pkts \<le> PKT_BURST_SZ \<and> retries \<le> MAX_ENQUEUE_RETRIES
   | _ \<Rightarrow> True)"

definition vc_inv :: "(u8 list \<Rightarrow> u8 list) \<Rightarrow> ('r \<Rightarrow> pkt list) \<Rightarrow> 'r vhost_controller \<Rightarrow> bool" where
  "vc_inv f contents s \<longleftrightarrow>
     map (apsnd f) (vc_rx s) = map fst (vc_done s) @ c_held (consumer_thread s) @ contents (vc_ring s) @
       p_left (producer_thread s) \<and>
     mset (vc_freed s) = mset (map (\<lambda>e. fst (fst e)) (vc_done s)) \<and>
     vc_tx s = delivered (vc_done s) @ map snd (take (c_sent (consumer_thread s)) (c_held (consumer_thread s))) \<and>
     p_ok (producer_thread s) \<and> c_ok (consumer_thread s)"

lemmas vc_pos = p_left_def c_held_def c_sent_def p_ok_def c_ok_def

lemma delivered_append [simp]: "delivered (d @ e) = delivered d @ delivered e"
  by (simp add: delivered_def)

lemma tagged_simps [simp]:
  "delivered (tagged x ps) = (if x = Delivered then map snd ps else [])"
  "map fst (tagged x ps) = ps"
  "mset (tagged x ps) = image_mset (\<lambda>p. (p, x)) (mset ps)"
  "image_mset (\<lambda>e. fst (fst e)) (image_mset (\<lambda>p. (p, x)) M) = image_mset fst M"
  "length (tagged x ps) = length ps"
  by (simp_all add: tagged_def delivered_def filter_map o_def multiset.map_comp)

lemma rte_ring_enqueue:
  assumes "rte_ring cap R contents" "enqueue_burst R r ps = (n, r')"
  shows "contents r' = contents r @ take n ps" "n = min (length ps) (cap - length (contents r))"
  using conjunct1[OF assms(1)[unfolded rte_ring_def], rule_format, of r ps] assms(2) by simp_all

lemma rte_ring_dequeue:
  assumes "rte_ring cap R contents" "dequeue_burst R r n = (ps, r')"
  shows "contents r = ps @ contents r'" "ps = take n (contents r)" "contents r' = drop n (contents r)"
  using conjunct2[OF assms(1)[unfolded rte_ring_def], rule_format, of r n] assms(2) by simp_all

text \<open>A ring with this contract is a FIFO queue in the sense of the loopback.\<close>

lemma rte_ring_fifo: "rte_ring cap R contents \<Longrightarrow> fifo_ring R contents"
  by (simp add: rte_ring_def fifo_ring_def)

lemma vc_inv_start: "contents r = [] \<Longrightarrow> vc_inv f contents (vc_start r)"
  by (simp add: vc_inv_def vc_start_def vc_pos delivered_def)

lemma vc_inv_producer:
  assumes R: "rte_ring cap R contents" and inv: "vc_inv f contents s" and len: "length ps \<le> PKT_BURST_SZ"
  shows "vc_inv f contents (producer_step R f ps s)"
proof (cases "producer_thread s")
  case (PPush pkts sent)
  obtain n r where e: "enqueue_burst R (vc_ring s) (drop sent pkts) = (n, r)"
    by (cases "enqueue_burst R (vc_ring s) (drop sent pkts)")
  have c: "contents r = contents (vc_ring s) @ take n (drop sent pkts)" "n \<le> length pkts - sent"
    using rte_ring_enqueue[OF R e] by simp_all
  show ?thesis
  proof (cases "sent + n < length pkts")
    case True
    have "take n (drop sent pkts) @ drop (sent + n) pkts = drop sent pkts"
      by (metis append_take_drop_id drop_drop add.commute)
    then show ?thesis using inv PPush e c True by (simp add: vc_inv_def producer_step_def vc_pos)
  next
    case False
    then have "take n (drop sent pkts) = drop sent pkts" using c(2) by simp
    then show ?thesis using inv PPush e c False by (simp add: vc_inv_def producer_step_def vc_pos)
  qed
qed (use inv len in \<open>auto simp: vc_inv_def producer_step_def vc_pos\<close>)

lemma vc_inv_send:
  assumes inv: "vc_inv f contents s" and n: "n \<le> offered (consumer_thread s)"
    and c: "consumer_thread s = CSend pkts sent retries"
  shows "vc_inv f contents (consumer_step R n s)"
proof (cases "sent < length pkts \<and> retries < MAX_ENQUEUE_RETRIES")
  case True
  have "take (sent + n) pkts = take sent pkts @ take n (drop sent pkts)" by (simp add: take_add)
  then show ?thesis using inv n c True by (auto simp: vc_inv_def consumer_step_def vc_pos offered_def)
next
  case False
  have "mset pkts = mset (take sent pkts) + mset (drop sent pkts)" by (metis append_take_drop_id mset_append)
  then show ?thesis using inv c False
    by (auto simp: vc_inv_def consumer_step_def consumer_finish_def vc_pos)
qed

lemma vc_inv_consumer:
  assumes R: "rte_ring cap R contents" and inv: "vc_inv f contents s" and n: "n \<le> offered (consumer_thread s)"
  shows "vc_inv f contents (consumer_step R n s)"
proof -
  obtain ps r where d: "dequeue_burst R (vc_ring s) PKT_BURST_SZ = (ps, r)"
    by (cases "dequeue_burst R (vc_ring s) PKT_BURST_SZ")
  note ring = rte_ring_dequeue(1,2)[OF R d]
  have len: "length ps \<le> PKT_BURST_SZ" using ring(2) by simp
  show ?thesis
  proof (cases "consumer_thread s")
    case CTake
    then show ?thesis using inv ring(1) len d by (auto simp: vc_inv_def consumer_step_def vc_pos)
  next
    case CDrain
    then show ?thesis using inv ring(1) d by (auto simp: vc_inv_def consumer_step_def vc_pos)
  qed (use inv n in \<open>auto simp: vc_inv_send, auto simp: vc_inv_def consumer_step_def vc_pos\<close>)
qed

lemma vc_inv_step: "vc_step R f s t \<Longrightarrow> rte_ring cap R contents \<Longrightarrow> vc_inv f contents s \<Longrightarrow> vc_inv f contents t"
  by (erule vc_stepE)
     (auto simp: vc_inv_producer vc_inv_consumer, auto simp: vc_inv_def on_new_device_def on_destroy_device_def stop_def)

lemma vc_reach_inv:
  assumes "rte_ring cap R contents" "contents r\<^sub>0 = []" "vc_reach R f r\<^sub>0 s"
  shows "vc_inv f contents s"
  using assms(3) by (induction rule: vc_reach.induct) (auto intro: assms vc_inv_start vc_inv_step)

text \<open>As long as every packet disposed of was delivered, nothing is missing.\<close>

lemma vc_nothing_lost:
  assumes "vc_inv f contents s" "\<forall>e \<in> set (vc_done s). snd e = Delivered"
  shows "vc_tx s @ map snd (drop (c_sent (consumer_thread s)) (c_held (consumer_thread s)) @ contents (vc_ring s) @
    p_left (producer_thread s)) = map (\<lambda>p. f (snd p)) (vc_rx s)"
proof -
  let ?h = "c_held (consumer_thread s)" and ?n = "c_sent (consumer_thread s)"
  have "delivered (vc_done s) = map snd (map fst (vc_done s))" using assms(2) by (simp add: delivered_def)
  moreover have "map (\<lambda>p. f (snd p)) (vc_rx s) = map snd (map (apsnd f) (vc_rx s))" by simp
  moreover have "map (apsnd f) (vc_rx s) = map fst (vc_done s) @ ?h @ contents (vc_ring s) @ p_left (producer_thread s)"
    "vc_tx s = delivered (vc_done s) @ map snd (take ?n ?h)"
    using assms(1) by (simp_all add: vc_inv_def)
  moreover have "map snd (take ?n ?h) @ map snd (drop ?n ?h) @ z = map snd ?h @ z" for z
    by (metis append_assoc append_take_drop_id map_append)
  ultimately show ?thesis by simp
qed

text \<open>The statistics, as the code keeps them in 64-bit counters.\<close>

definition p_batch :: "producer \<Rightarrow> pkt list" where
  "p_batch p = (case p of PPush pkts sent \<Rightarrow> pkts | _ \<Rightarrow> [])"

definition sum_bytes :: "(pkt \<times> fate) list \<Rightarrow> nat" where
  "sum_bytes d = sum_list (map (\<lambda>e. length (snd (fst e))) (filter (\<lambda>e. snd e \<noteq> Drained) d))"

definition vc_counts :: "'r vhost_controller \<Rightarrow> bool" where
  "vc_counts s \<longleftrightarrow>
     rx_pkts s + of_nat (length (p_batch (producer_thread s))) = of_nat (length (vc_rx s)) \<and>
     tx_pkts s = of_nat (length (delivered (vc_done s))) \<and>
     tx_bytes s = of_nat (sum_bytes (vc_done s))"

lemma sum_bytes_simps [simp]:
  "sum_bytes (d @ e) = sum_bytes d + sum_bytes e" "sum_bytes [] = 0"
  "sum_bytes (tagged x ps) = (if x = Drained then 0 else sum_list (map (length \<circ> snd) ps))"
  by (simp_all add: sum_bytes_def tagged_def filter_map o_def)


lemma fold_bytes: "fold (\<lambda>p b. b + of_nat (length (snd p))) ps b = b + (of_nat (sum_list (map (length \<circ> snd) ps)) :: u64)"
  by (induction ps arbitrary: b) (simp_all add: add_ac)

lemma sum_take_drop: "sum_list (map g (take n xs)) + sum_list (map g (drop n xs)) = (sum_list (map g xs) :: nat)"
  by (metis append_take_drop_id map_append sum_list_append)

lemma vc_counts_producer: "vc_counts s \<Longrightarrow> vc_counts (producer_step R f ps s)"
  by (cases "producer_thread s") (auto simp: vc_counts_def producer_step_def p_batch_def split: prod.splits)

lemma vc_counts_consumer:
  assumes "vc_counts s" "c_ok (consumer_thread s)"
  shows "vc_counts (consumer_step R n s)"
proof (cases "consumer_thread s")
  case (CSend pkts sent retries)
  have "of_nat (sum_list (map (length \<circ> snd) (take sent pkts))) + of_nat (sum_list (map (length \<circ> snd) (drop sent pkts)))
      = (of_nat (sum_list (map (length \<circ> snd) pkts)) :: u64)"
    by (simp add: sum_take_drop flip: of_nat_add)
  then show ?thesis using assms CSend
    by (auto simp: vc_counts_def consumer_step_def consumer_finish_def fold_bytes c_ok_def)
qed (use assms in \<open>auto simp: vc_counts_def consumer_step_def split: prod.splits\<close>)

text \<open>When the consumer has ended, at most one burst can still reach the ring.\<close>

definition p_may :: "producer \<Rightarrow> nat" where
  "p_may p = (case p of PReady \<Rightarrow> PKT_BURST_SZ | PBurst \<Rightarrow> PKT_BURST_SZ | PPush pkts sent \<Rightarrow> length pkts - sent | _ \<Rightarrow> 0)"

definition vc_late :: "('r \<Rightarrow> pkt list) \<Rightarrow> 'r vhost_controller \<Rightarrow> bool" where
  "vc_late contents s \<longleftrightarrow>
     (consumer_thread s \<in> {CDrain, CDone} \<longrightarrow> vc_quit s) \<and>
     (consumer_thread s = CDone \<longrightarrow> length (contents (vc_ring s)) + p_may (producer_thread s) \<le> PKT_BURST_SZ)"

lemma vc_late_producer:
  assumes R: "rte_ring cap R contents" and late: "vc_late contents s" and len: "length ps \<le> PKT_BURST_SZ"
  shows "vc_late contents (producer_step R f ps s)"
proof (cases "producer_thread s")
  case (PPush pkts sent)
  obtain n r where e: "enqueue_burst R (vc_ring s) (drop sent pkts) = (n, r)"
    by (cases "enqueue_burst R (vc_ring s) (drop sent pkts)")
  have "contents r = contents (vc_ring s) @ take n (drop sent pkts)" "n \<le> length pkts - sent"
    using rte_ring_enqueue[OF R e] by simp_all
  then show ?thesis using late PPush e by (auto simp: vc_late_def producer_step_def p_may_def)
qed (use late len in \<open>auto simp: vc_late_def producer_step_def p_may_def\<close>)

lemma p_may_le: "p_ok p \<Longrightarrow> p_may p \<le> PKT_BURST_SZ"
  by (cases p) (auto simp: p_may_def p_ok_def)

lemma vc_late_consumer:
  assumes R: "rte_ring cap R contents" and late: "vc_late contents s" and p: "p_ok (producer_thread s)"
  shows "vc_late contents (consumer_step R n s)"
proof (cases "consumer_thread s")
  case CDrain
  obtain ps r where d: "dequeue_burst R (vc_ring s) PKT_BURST_SZ = (ps, r)"
    by (cases "dequeue_burst R (vc_ring s) PKT_BURST_SZ")
  have "ps = [] \<Longrightarrow> contents r = []" using rte_ring_dequeue(2,3)[OF R d] by (auto simp: PKT_BURST_SZ_def)
  then show ?thesis using late CDrain d p_may_le[OF p] by (auto simp: vc_late_def consumer_step_def)
qed (use late in \<open>auto simp: vc_late_def consumer_step_def consumer_finish_def split: prod.splits\<close>)

definition vc_all :: "(u8 list \<Rightarrow> u8 list) \<Rightarrow> ('r \<Rightarrow> pkt list) \<Rightarrow> 'r vhost_controller \<Rightarrow> bool" where
  "vc_all f contents s \<longleftrightarrow> vc_inv f contents s \<and> vc_counts s \<and> vc_late contents s"

lemma vc_all_step:
  assumes "vc_step R f s t" "rte_ring cap R contents" "vc_all f contents s"
  shows "vc_all f contents t"
proof -
  have ok: "p_ok (producer_thread s)" "c_ok (consumer_thread s)" using assms(3) by (simp_all add: vc_all_def vc_inv_def)
  have "vc_counts t \<and> vc_late contents t"
    using assms(1)
    by (rule vc_stepE)
       (use assms ok in \<open>auto simp: vc_all_def vc_counts_producer vc_counts_consumer vc_late_producer vc_late_consumer\<close>,
        auto simp: vc_counts_def vc_late_def on_new_device_def on_destroy_device_def stop_def)
  then show ?thesis using vc_inv_step[OF assms(1,2)] assms(3) by (simp add: vc_all_def)
qed

lemma vc_all_start: "contents r = [] \<Longrightarrow> vc_all f contents (vc_start r)"
  by (simp add: vc_all_def vc_inv_start)
     (simp add: vc_counts_def vc_late_def vc_start_def p_batch_def delivered_def)

lemma vc_reach_all:
  assumes "rte_ring cap R contents" "contents r\<^sub>0 = []" "vc_reach R f r\<^sub>0 s"
  shows "vc_all f contents s"
  using assms(3) by (induction rule: vc_reach.induct) (auto intro: assms vc_all_start vc_all_step)

section \<open>Shutdown\<close>

text \<open>A step of a thread is effective when the thread has not ended and is not a push that finds the ring
  full.\<close>

definition p_active :: "'r ring_ops \<Rightarrow> 'r vhost_controller \<Rightarrow> bool" where
  "p_active R s = (case producer_thread s of
     PDone \<Rightarrow> False | PPush pkts sent \<Rightarrow> 0 < fst (enqueue_burst R (vc_ring s) (drop sent pkts)) | _ \<Rightarrow> True)"

definition c_active :: "'r vhost_controller \<Rightarrow> bool" where
  "c_active s \<longleftrightarrow> consumer_thread s \<noteq> CDone"

inductive vc_thread :: "'r ring_ops \<Rightarrow> (u8 list \<Rightarrow> u8 list) \<Rightarrow> 'r vhost_controller \<Rightarrow> 'r vhost_controller \<Rightarrow> bool" for R f where
  thread_producer: "p_active R s \<Longrightarrow> length ps \<le> PKT_BURST_SZ \<Longrightarrow> vc_thread R f s (producer_step R f ps s)"
| thread_consumer: "c_active s \<Longrightarrow> n \<le> offered (consumer_thread s) \<Longrightarrow> vc_thread R f s (consumer_step R n s)"

text \<open>Effective steps of the threads in any order, with their number.\<close>

inductive vc_run :: "'r ring_ops \<Rightarrow> (u8 list \<Rightarrow> u8 list) \<Rightarrow> 'r vhost_controller \<Rightarrow> nat \<Rightarrow> 'r vhost_controller \<Rightarrow> bool" for R f where
  vc_run_nil: "vc_run R f s 0 s"
| vc_run_step: "vc_run R f s n t \<Longrightarrow> vc_thread R f t u \<Longrightarrow> vc_run R f s (Suc n) u"

definition p_measure :: "producer \<Rightarrow> nat" where
  "p_measure p = (case p of
     PDone \<Rightarrow> 0 | PHead \<Rightarrow> 1 | PPush pkts sent \<Rightarrow> 1 + 2 * (length pkts - sent) | PBurst \<Rightarrow> 66 | PReady \<Rightarrow> 67)"

definition c_measure :: "consumer \<Rightarrow> nat" where
  "c_measure c = (case c of
     CDone \<Rightarrow> 0 | CDrain \<Rightarrow> 1 | CHead \<Rightarrow> 2
   | CSend pkts sent retries \<Rightarrow> 3 + (1000 - retries) + (length pkts - sent) | CTake \<Rightarrow> 1036 | CReady \<Rightarrow> 1037)"

definition vc_measure :: "('r \<Rightarrow> pkt list) \<Rightarrow> 'r vhost_controller \<Rightarrow> nat" where
  "vc_measure contents s = p_measure (producer_thread s) + c_measure (consumer_thread s) + length (contents (vc_ring s))"

lemma vc_measure_producer:
  assumes R: "rte_ring cap R contents" and q: "vc_quit s" and act: "p_active R s" and len: "length ps \<le> PKT_BURST_SZ"
    and ok: "p_ok (producer_thread s)"
  shows "vc_measure contents (producer_step R f ps s) < vc_measure contents s"
proof (cases "producer_thread s")
  case (PPush pkts sent)
  obtain n r where e: "enqueue_burst R (vc_ring s) (drop sent pkts) = (n, r)"
    by (cases "enqueue_burst R (vc_ring s) (drop sent pkts)")
  have "contents r = contents (vc_ring s) @ take n (drop sent pkts)" "n \<le> length pkts - sent"
    using rte_ring_enqueue[OF R e] by simp_all
  then show ?thesis using PPush e act ok
    by (auto simp: vc_measure_def producer_step_def p_measure_def p_active_def p_ok_def)
qed (use act q len in \<open>auto simp: vc_measure_def producer_step_def p_measure_def p_active_def PKT_BURST_SZ_def\<close>)

lemma vc_measure_consumer:
  assumes R: "rte_ring cap R contents" and q: "vc_quit s" and act: "c_active s" and n: "n \<le> offered (consumer_thread s)"
    and ok: "c_ok (consumer_thread s)"
  shows "vc_measure contents (consumer_step R n s) < vc_measure contents s"
proof -
  obtain ps r where d: "dequeue_burst R (vc_ring s) PKT_BURST_SZ = (ps, r)"
    by (cases "dequeue_burst R (vc_ring s) PKT_BURST_SZ")
  have len: "length ps \<le> PKT_BURST_SZ" "length (contents (vc_ring s)) = length ps + length (contents r)"
    using rte_ring_dequeue(2)[OF R d] arg_cong[OF rte_ring_dequeue(1)[OF R d], of length] by simp_all
  show ?thesis
  proof (cases "consumer_thread s")
    case (CSend pkts sent retries)
    then show ?thesis using n ok
      by (auto simp: vc_measure_def consumer_step_def consumer_finish_def c_measure_def offered_def c_ok_def MAX_ENQUEUE_RETRIES_def)
  qed (use act q d len in \<open>auto simp: vc_measure_def consumer_step_def c_measure_def c_active_def PKT_BURST_SZ_def\<close>)
qed

lemma vc_thread_step: "vc_thread R f s t \<Longrightarrow> vc_step R f s t"
  by (erule vc_thread.cases) (auto intro: vc_step.intros)

lemma vc_thread_quit: "vc_thread R f s t \<Longrightarrow> vc_quit t = vc_quit s"
  by (erule vc_thread.cases)
     (auto simp: producer_step_def consumer_step_def consumer_finish_def split: producer.splits consumer.splits prod.splits)

lemma vc_run_bound:
  assumes R: "rte_ring cap R contents" and q: "vc_quit s" and all: "vc_all f contents s" and run: "vc_run R f s n t"
  shows "vc_all f contents t \<and> vc_quit t \<and> n + vc_measure contents t \<le> vc_measure contents s"
  using run all q
proof (induction rule: vc_run.induct)
  case (vc_run_step s n t u)
  then have t: "vc_all f contents t" "vc_quit t" "n + vc_measure contents t \<le> vc_measure contents s" by simp_all
  then have "vc_measure contents u < vc_measure contents t"
    using vc_run_step.hyps(2) vc_measure_producer[OF R t(2)] vc_measure_consumer[OF R t(2)]
    by (auto simp: vc_all_def vc_inv_def elim!: vc_thread.cases)
  moreover have "vc_all f contents u"
    by (rule vc_all_step[OF vc_thread_step[OF vc_run_step.hyps(2)] R t(1)])
  ultimately show ?case using t vc_thread_quit[OF vc_run_step.hyps(2)] by simp
qed simp

text \<open>When neither thread can take an effective step, both have ended: a producer that waits for room in the
  ring always has a consumer that can still take packets out.\<close>

lemma vc_stuck_done:
  assumes R: "rte_ring cap R contents" and cap: "PKT_BURST_SZ \<le> cap" and all: "vc_all f contents s"
    and stuck: "\<nexists>t. vc_thread R f s t"
  shows "producer_thread s = PDone \<and> consumer_thread s = CDone"
proof -
  have c: "consumer_thread s = CDone"
    using stuck thread_consumer[of s 0] by (auto simp: c_active_def)
  have p: "\<not> p_active R s" using stuck thread_producer[of R s "[]"] by auto
  show ?thesis
  proof (cases "producer_thread s")
    case (PPush pkts sent)
    obtain n r where e: "enqueue_burst R (vc_ring s) (drop sent pkts) = (n, r)"
      by (cases "enqueue_burst R (vc_ring s) (drop sent pkts)")
    have "sent < length pkts" "length (contents (vc_ring s)) + (length pkts - sent) \<le> PKT_BURST_SZ"
      using all PPush c by (auto simp: vc_all_def vc_inv_def p_ok_def vc_late_def p_may_def)
    then have "0 < n" using rte_ring_enqueue(2)[OF R e] cap by simp
    then show ?thesis using p PPush e by (simp add: p_active_def)
  qed (use p c in \<open>auto simp: p_active_def\<close>)
qed

section \<open>Properties\<close>

text \<open>C12: The backend neither reorders nor invents packets, and it loses one only where it says so. In every state
  that any interleaving of the threads, the device callbacks and \<^verbatim>\<open>stop\<close> reaches, the packets received,
  after \<^verbatim>\<open>on_packet\<close>, are in this order those already disposed of, those that the consumer holds,
  those in the ring and those that the producer still has to push; the guest has been given exactly the
  delivered ones and the part of the consumer's burst that it accepted; and as long as none was
  dropped or drained, what the guest got followed by what is under way is all that was received.\<close>

theorem vc_exact_fifo:
  assumes "rte_ring cap R contents" "contents r\<^sub>0 = []" "vc_reach R f r\<^sub>0 s"
  shows "map (apsnd f) (vc_rx s) = map fst (vc_done s) @ c_held (consumer_thread s) @ contents (vc_ring s) @
      p_left (producer_thread s) \<and>
    vc_tx s = delivered (vc_done s) @ map snd (take (c_sent (consumer_thread s)) (c_held (consumer_thread s))) \<and>
    ((\<forall>e \<in> set (vc_done s). snd e = Delivered) \<longrightarrow>
       vc_tx s @ map snd (drop (c_sent (consumer_thread s)) (c_held (consumer_thread s)) @ contents (vc_ring s) @
         p_left (producer_thread s)) = map (\<lambda>p. f (snd p)) (vc_rx s))"
  using vc_reach_inv[OF assms] vc_nothing_lost[OF vc_reach_inv[OF assms]] by (simp add: vc_inv_def)

text \<open>C18: No interleaving leaks a buffer while the threads run or frees one twice: in every reachable state
  the buffers taken from the guest are, each as often as it was taken, those freed, those that the
  consumer holds, those in the ring and those that the producer still has to push. When both threads
  have ended, exactly the buffers left in the ring have not been freed.\<close>

theorem vc_conserves_buffers:
  assumes "rte_ring cap R contents" "contents r\<^sub>0 = []" "vc_reach R f r\<^sub>0 s"
  shows "mset (map fst (vc_rx s)) = mset (vc_freed s) + mset (map fst (c_held (consumer_thread s))) +
      mset (map fst (contents (vc_ring s))) + mset (map fst (p_left (producer_thread s))) \<and>
    (producer_thread s = PDone \<and> consumer_thread s = CDone \<longrightarrow>
      mset (map fst (vc_rx s)) = mset (vc_freed s) + mset (map fst (contents (vc_ring s))))"
proof -
  have inv: "vc_inv f contents s" by (rule vc_reach_inv[OF assms])
  have "map fst (vc_rx s) = map fst (map (apsnd f) (vc_rx s))" by simp
  also have "\<dots> = map (\<lambda>e. fst (fst e)) (vc_done s) @ map fst (c_held (consumer_thread s)) @
      map fst (contents (vc_ring s)) @ map fst (p_left (producer_thread s))"
    using inv by (simp add: vc_inv_def)
  finally have "mset (map fst (vc_rx s)) = mset (vc_freed s) + mset (map fst (c_held (consumer_thread s))) +
      mset (map fst (contents (vc_ring s))) + mset (map fst (p_left (producer_thread s)))"
    using inv by (simp add: vc_inv_def add.assoc)
  then show ?thesis by (auto simp: c_held_def p_left_def)
qed

text \<open>C13: \<^verbatim>\<open>stop\<close> ends both threads. Once \<^verbatim>\<open>quit_\<close> is set, whatever the guest accepts or delivers and
  whatever the order of the threads, at most 1104 effective steps and one for each packet in the ring
  are possible, and when none is possible any more, both threads have ended: a producer never waits
  for room in a ring that nobody empties.\<close>

theorem vc_shutdown_terminates:
  assumes "rte_ring cap R contents" "PKT_BURST_SZ \<le> cap" "contents r\<^sub>0 = []" "vc_reach R f r\<^sub>0 s" "vc_quit s"
    and "vc_run R f s n t"
  shows "n \<le> 1104 + length (contents (vc_ring s)) \<and>
    ((\<nexists>u. vc_thread R f t u) \<longrightarrow> producer_thread t = PDone \<and> consumer_thread t = CDone)"
proof (intro conjI)
  have all: "vc_all f contents s" by (rule vc_reach_all[OF assms(1,3,4)])
  note bound = vc_run_bound[OF assms(1,5) all assms(6)]
  have "p_measure (producer_thread s) \<le> 67"
    using all by (auto simp: vc_all_def vc_inv_def p_measure_def p_ok_def PKT_BURST_SZ_def split: producer.splits)
  moreover have "c_measure (consumer_thread s) \<le> 1037"
    using all by (auto simp: vc_all_def vc_inv_def c_measure_def c_ok_def PKT_BURST_SZ_def split: consumer.splits)
  ultimately show "n \<le> 1104 + length (contents (vc_ring s))" using bound by (simp add: vc_measure_def)
  show "(\<nexists>u. vc_thread R f t u) \<longrightarrow> producer_thread t = PDone \<and> consumer_thread t = CDone"
    using vc_stuck_done[OF assms(1,2)] bound by blast
qed


text \<open>A step drops packets only after \<^verbatim>\<open>MAX_ENQUEUE_RETRIES\<close> calls that the guest did not answer in full.\<close>

lemma vc_drop_after_retries:
  assumes "vc_step R f s t" "(p, Dropped) \<in> set (vc_done t)" "(p, Dropped) \<notin> set (vc_done s)"
  shows "\<exists>pkts sent retries. consumer_thread s = CSend pkts sent retries \<and> MAX_ENQUEUE_RETRIES \<le> retries \<and>
    p \<in> set (drop sent pkts)"
  using assms
  by (auto elim!: vc_stepE simp: producer_step_def consumer_step_def consumer_finish_def on_new_device_def
      on_destroy_device_def stop_def tagged_def split: producer.splits consumer.splits prod.splits if_splits)

section \<open>Examples\<close>

definition bounded_list_ring :: "nat \<Rightarrow> pkt list ring_ops" where
  "bounded_list_ring cap = \<lparr>
     enqueue_burst = (\<lambda>r ps. let n = min (length ps) (cap - length r) in (n, r @ take n ps)),
     dequeue_burst = (\<lambda>r n. (take n r, drop n r))\<rparr>"

lemma bounded_list_ring_ok: "rte_ring cap (bounded_list_ring cap) id"
  by (simp add: rte_ring_def bounded_list_ring_def Let_def)

abbreviation "vring \<equiv> bounded_list_ring (VC_RING_SIZE - 1)"
abbreviation "vp ps \<equiv> producer_step vring (\<lambda>d. d) ps"
abbreviation "vq n \<equiv> consumer_step vring n"

text \<open>Two packets arrive and are pushed, the consumer takes them and the guest accepts one.\<close>

definition vc_demo :: "pkt list vhost_controller" where
  "vc_demo = vq 1 (vq 0 (vq 0 (vq 0 (vp [] (vp [(7, [1, 2]), (4, [3])] (vp [] (vp [] (on_new_device 0 (vc_start [])))))))))"

text \<open>The same after \<^verbatim>\<open>stop\<close>, and a run in which \<^verbatim>\<open>stop\<close> comes when the producer is about to make its burst call:
  the consumer drains the empty ring and ends, and then the producer pushes what it received.\<close>

definition vc_leak :: "pkt list vhost_controller" where
  "vc_leak = vp [] (vp [] (vp [(7, [1, 2])] (vq 0 (vq 0 (stop (vp [] (vp [] (on_new_device 0 (vc_start [])))))))))"

lemmas vc_ops = producer_step_def consumer_step_def on_new_device_def stop_def vc_start_def bounded_list_ring_def
  PKT_BURST_SZ_def VC_RING_SIZE_def MAX_ENQUEUE_RETRIES_def Let_def

lemma vc_demo_values:
  "vc_rx vc_demo = [(7, [1, 2]), (4, [3])]" "vc_tx vc_demo = [[1, 2]]" "vc_freed vc_demo = []" "vc_done vc_demo = []"
  "vc_ring vc_demo = []" "consumer_thread vc_demo = CSend [(7, [1, 2]), (4, [3])] 1 1" "producer_thread vc_demo = PHead"
  "rx_pkts vc_demo = 2"
  by (simp_all add: vc_demo_def vc_ops)

lemma vc_leak_values:
  "vc_rx vc_leak = [(7, [1, 2])]" "vc_freed vc_leak = []" "vc_ring vc_leak = [(7, [1, 2])]"
  "producer_thread vc_leak = PDone" "consumer_thread vc_leak = CDone"
  by (simp_all add: vc_leak_def vc_ops)

lemmas vc_reach_by = vc_reach_step[OF _ vc_producer] vc_reach_step[OF _ vc_consumer] vc_reach_step[OF _ vc_new]
  vc_reach_step[OF _ vc_stop] vc_reach_start

lemma vc_demo_reach: "vc_reach vring (\<lambda>d. d) [] vc_demo"
  unfolding vc_demo_def by (rule vc_reach_by)+ (simp_all add: vc_ops offered_def)

lemma vc_leak_reach: "vc_reach vring (\<lambda>d. d) [] vc_leak"
  unfolding vc_leak_def by (rule vc_reach_by)+ (simp_all add: vc_ops offered_def)

lemma vc_demo_stop_reach: "vc_reach vring (\<lambda>d. d) [] (stop vc_demo)"
  by (rule vc_reach_step[OF vc_demo_reach vc_stop])

theorem vc_exact_fifo_witness:
  "vc_tx vc_demo = [[1, 2]] \<and> vc_tx vc_demo @ map snd (drop 1 [(7::nat, [1, 2]), (4, [3::u8])]) = map snd (vc_rx vc_demo)"
  using vc_exact_fifo[OF bounded_list_ring_ok _ vc_demo_reach] vc_demo_values by (simp add: c_held_def c_sent_def p_left_def)

theorem vc_conserves_buffers_witness:
  "mset (map fst (vc_rx vc_leak)) = mset (vc_freed vc_leak) + mset (map fst (vc_ring vc_leak)) \<and> vc_ring vc_leak \<noteq> []"
  using vc_conserves_buffers[OF bounded_list_ring_ok _ vc_leak_reach] vc_leak_values by simp

text \<open>The guest accepts the second packet, and the consumer finds \<^verbatim>\<open>quit_\<close> set and drains the ring.\<close>

definition vc_demo_end :: "pkt list vhost_controller" where
  "vc_demo_end = vp [] (vq 0 (vq 0 (vq 0 (vq 1 (stop vc_demo)))))"

lemma vc_demo_run: "vc_run vring (\<lambda>d. d) (stop vc_demo) 5 vc_demo_end"
proof -
  have five: "(5::nat) = Suc (Suc (Suc (Suc (Suc 0))))" by simp
  show ?thesis unfolding vc_demo_end_def five
    by (rule vc_run_step[OF _ thread_producer] vc_run_step[OF _ thread_consumer] vc_run_nil)+
       (simp_all add: vc_demo_def vc_ops consumer_finish_def offered_def p_active_def c_active_def)
qed

lemma vc_demo_end_values: "producer_thread vc_demo_end = PDone" "consumer_thread vc_demo_end = CDone"
  "vc_freed vc_demo_end = [7, 4]" "vc_tx vc_demo_end = [[1, 2], [3]]" "tx_bytes vc_demo_end = 3"
  "vc_done vc_demo_end = [((7, [1, 2]), Delivered), ((4, [3]), Delivered)]"
  by (simp_all add: vc_demo_end_def vc_demo_def vc_ops consumer_finish_def tagged_def)


theorem vc_shutdown_terminates_witness:
  "5 \<le> 1104 + length (vc_ring vc_demo) \<and> producer_thread vc_demo_end = PDone \<and> consumer_thread vc_demo_end = CDone"
proof -
  have q: "vc_quit (stop vc_demo)" and r: "vc_ring (stop vc_demo) = vc_ring vc_demo" by (simp_all add: stop_def)
  have stuck: "\<nexists>u. vc_thread vring (\<lambda>d. d) vc_demo_end u"
    using vc_demo_end_values by (auto elim!: vc_thread.cases simp: p_active_def c_active_def)
  have cap: "PKT_BURST_SZ \<le> VC_RING_SIZE - 1" by (simp add: PKT_BURST_SZ_def VC_RING_SIZE_def)
  show ?thesis
    using vc_shutdown_terminates[OF bounded_list_ring_ok cap _ vc_demo_stop_reach q vc_demo_run] stuck r by simp
qed


section \<open>Shutdown and life of the object\<close>

text \<open>The drain at the end of the consumer does not keep buffers from leaking, contrary to the comment
  above it. With any ring that has room for a packet there is a run that ends both threads with a
  packet left in the ring, whose buffer was never freed: the producer has passed its test of
  \<^verbatim>\<open>quit_\<close> when \<^verbatim>\<open>stop\<close> is called, and pushes its burst after the consumer has drained the ring.\<close>

theorem vc_shutdown_leak:
  assumes "rte_ring cap R contents" "0 < cap" "contents r\<^sub>0 = []"
  shows "\<exists>s. vc_reach R f r\<^sub>0 s \<and> producer_thread s = PDone \<and> consumer_thread s = CDone \<and>
    vc_rx s = [(h, d)] \<and> contents (vc_ring s) = [(h, f d)] \<and> h \<notin> set (vc_freed s)"
proof -
  let ?p = "\<lambda>ps. producer_step R f ps" and ?c = "consumer_step R 0"
  obtain r1 where d1: "dequeue_burst R r\<^sub>0 PKT_BURST_SZ = ([], r1)" and r1: "contents r1 = []"
    using rte_ring_dequeue[OF assms(1), of r\<^sub>0 PKT_BURST_SZ] assms(3) by (cases "dequeue_burst R r\<^sub>0 PKT_BURST_SZ") auto
  obtain r2 where e: "enqueue_burst R r1 [(h, f d)] = (1, r2)" and r2: "contents r2 = [(h, f d)]"
    using rte_ring_enqueue[OF assms(1), of r1 "[(h, f d)]"] assms(2) r1 by (cases "enqueue_burst R r1 [(h, f d)]") auto
  let ?s = "?p [] (?p [] (?p [(h, d)] (?c (?c (stop (?p [] (?p [] (on_new_device 0 (vc_start r\<^sub>0)))))))))"
  have "vc_reach R f r\<^sub>0 ?s"
    by (rule vc_reach_by)+ (simp_all add: PKT_BURST_SZ_def)
  moreover have "producer_thread ?s = PDone \<and> consumer_thread ?s = CDone \<and> vc_rx ?s = [(h, d)] \<and>
      vc_ring ?s = r2 \<and> vc_freed ?s = []"
    using d1 e by (simp add: producer_step_def consumer_step_def on_new_device_def stop_def vc_start_def tagged_def)
  ultimately show ?thesis using r2 by (intro exI[of _ ?s]) simp
qed

theorem vc_shutdown_leak_witness:
  "\<exists>s. vc_reach vring (\<lambda>d. d) [] s \<and> consumer_thread s = CDone \<and> vc_ring s = [(7, [1, 2])] \<and> 7 \<notin> set (vc_freed s)"
  using vc_shutdown_leak[OF bounded_list_ring_ok, of "VC_RING_SIZE - 1" "[]" "\<lambda>d. d" 7 "[1, 2]"]
  by (force simp: VC_RING_SIZE_def)

fun acquired :: "vc_event list \<Rightarrow> resource list" where
  "acquired [] = []"
| "acquired (Acquire x # es) = x # acquired es"
| "acquired (_ # es) = acquired es"

fun released :: "vc_event list \<Rightarrow> resource list" where
  "released [] = []"
| "released (Release x # es) = x # released es"
| "released (_ # es) = released es"

text \<open>Resources are released exactly as they were acquired, with the exception of the packet pool. Whatever
  DPDK answers, an object that is constructed, initialised, started and destroyed, or destroyed by
  the first exception on the way, releases the resources it acquired other than the pool, in the
  opposite order, and the pool never; no exception is thrown exactly when every call succeeded.\<close>

theorem vc_releases_what_it_acquired:
  "released (snd (vc_scope path a)) = rev (filter (\<lambda>x. x \<noteq> MbufPool) (acquired (snd (vc_scope path a)))) \<and>
   (fst (vc_scope path a) = None \<longleftrightarrow> 0 \<le> va_eal a \<and> va_pool a \<and> va_ring a \<and> va_register a = 0 \<and>
      va_callbacks a = 0 \<and> va_start a = 0)"
  by (simp add: vc_scope_def vc_construct_def vc_init_def vc_driver_start_def vc_destroy_object_def acquire_def Let_def)

text \<open>A second object cannot be constructed while one exists.\<close>

lemma vc_singleton: "vc_construct True path = Inl ''only one VhostController instance allowed''"
  by (simp add: vc_construct_def)

end
