(* ===== verification/Epoll.thy ===== *)
theory Epoll
  imports Fmt
begin

text \<open>
  The Unix-domain socket programs: the epoll servers and clients of src/code_dump/epoll_sockets,
  abstract_epoll_sockets and abstract_epoll_sockets_ints, and the pair in src/code_dump/abstract_sockets.

  The kernel is a parameter: an event names the descriptor that is ready, with what the calls that the
  server then makes return (a new descriptor for \<^verbatim>\<open>accept\<close>, success or failure of \<^verbatim>\<open>epoll_ctl\<close>, the bytes or
  an error for \<^verbatim>\<open>read\<close>). The list of watched descriptors follows the documentation of \<^verbatim>\<open>epoll\<close>: closing a
  descriptor also removes it from the list.
\<close>

section \<open>State and system calls\<close>

definition MAX_EVENTS :: nat where "MAX_EVENTS = 10"
definition BUFFER_SIZE :: nat where "BUFFER_SIZE = 1024"

text \<open>\<open>server_fd\<close> is the listening socket, \<open>watched\<close> the list of \<^verbatim>\<open>epoll\<close>, \<open>open_fds\<close> the clients not yet
  closed.\<close>

record epoll_server =
  server_fd :: int
  watched :: "int list"
  open_fds :: "int list"
  srv_out :: string

text \<open>What \<^verbatim>\<open>read\<close> returns: an error, or bytes, none at the end of the stream.\<close>

datatype read_result = ReadError | ReadBytes "u8 list"

datatype epoll_event = Ready int int int bool read_result

text \<open>\<open>Ready fd c ctl in r\<close>: descriptor \<open>fd\<close> is ready, with \<^verbatim>\<open>EPOLLIN\<close> set or not; \<open>c\<close> is the answer of \<^verbatim>\<open>accept\<close>
  (-1 for an error), \<open>ctl\<close> that of the \<^verbatim>\<open>epoll_ctl\<close> after it and \<open>r\<close> that of \<^verbatim>\<open>read\<close>, whichever the server calls.\<close>

text \<open>\<^verbatim>\<open>EPOLL_CTL_ADD\<close>, with its answer; no program looks at it.\<close>

definition epoll_ctl_add :: "int \<Rightarrow> int \<Rightarrow> epoll_server \<Rightarrow> epoll_server" where
  "epoll_ctl_add ctl fd s = (if ctl = -1 then s else s\<lparr>watched := watched s @ [fd]\<rparr>)"

definition close_fd :: "int \<Rightarrow> epoll_server \<Rightarrow> epoll_server" where
  "close_fd fd s = s\<lparr>open_fds := removeAll fd (open_fds s), watched := removeAll fd (watched s)\<rparr>"

definition epoll_ctl_del :: "int \<Rightarrow> epoll_server \<Rightarrow> epoll_server" where
  "epoll_ctl_del fd s = s\<lparr>watched := removeAll fd (watched s)\<rparr>"

definition say :: "string \<Rightarrow> epoll_server \<Rightarrow> epoll_server" where
  "say line s = s\<lparr>srv_out := srv_out s @ line @ [CHR 0x0A]\<rparr>"

definition accepted_fd :: "int \<Rightarrow> epoll_server \<Rightarrow> epoll_server" where
  "accepted_fd c s = (if c < 0 then s else s\<lparr>open_fds := open_fds s @ [c]\<rparr>)"

text \<open>A buffer printed as a C string: up to the first null byte.\<close>

definition c_string :: "u8 list \<Rightarrow> string" where
  "c_string bs = map (\<lambda>b. char_of (unat b)) (takeWhile (\<lambda>b. b \<noteq> 0) bs)"

section \<open>The text servers\<close>

definition text_event :: "epoll_event \<Rightarrow> epoll_server \<Rightarrow> epoll_server" where
  "text_event e s = (case e of Ready fd c ctl epollin r \<Rightarrow>
     if fd = server_fd s then
       epoll_ctl_add ctl c (say (''Accepted new connection. Client FD: '' @ fmt_d c) (accepted_fd c s))
     else case r of
       ReadError \<Rightarrow> close_fd fd (say (''Client disconnected (FD: '' @ fmt_d fd @ '')'') s)
     | ReadBytes bs \<Rightarrow>
         (if length bs = 0 then close_fd fd (say (''Client disconnected (FD: '' @ fmt_d fd @ '')'') s)
          else say (''Received from FD '' @ fmt_d fd @ '': '' @ c_string (take (BUFFER_SIZE - 1) bs @ [0])) s))"

definition abstract_event :: "epoll_event \<Rightarrow> epoll_server \<Rightarrow> epoll_server" where
  "abstract_event e s = (case e of Ready fd c ctl epollin r \<Rightarrow>
     if fd = server_fd s then epoll_ctl_add ctl c (say (''New Client FD: '' @ fmt_d c) (accepted_fd c s))
     else if epollin then
       (case r of
          ReadError \<Rightarrow> close_fd fd (epoll_ctl_del fd (say (''Client '' @ fmt_d fd @ '' disconnected.'') s))
        | ReadBytes bs \<Rightarrow>
            (if length bs = 0 then close_fd fd (epoll_ctl_del fd (say (''Client '' @ fmt_d fd @ '' disconnected.'') s))
             else say (''Received: '' @ c_string (take (BUFFER_SIZE - 1) bs @ [0])) s))
     else s)"

section \<open>The integer server\<close>

record packet =
  val1 :: cint
  val2 :: cint
  val3 :: cint
  val4 :: cint

definition PACKET_SIZE :: nat where "PACKET_SIZE = 16"

definition packet_bytes :: "packet \<Rightarrow> u8 list" where
  "packet_bytes p = le_bytes 4 (val1 p) @ le_bytes 4 (val2 p) @ le_bytes 4 (val3 p) @ le_bytes 4 (val4 p)"

definition packet_of :: "u8 list \<Rightarrow> packet" where
  "packet_of bs = \<lparr>val1 = le_word (take 4 bs), val2 = le_word (take 4 (drop 4 bs)),
     val3 = le_word (take 4 (drop 8 bs)), val4 = le_word (take 4 (drop 12 bs))\<rparr>"

definition packet_line :: "packet \<Rightarrow> string" where
  "packet_line p = ''Received integers: '' @ fmt_d (sint (val1 p)) @ '', '' @ fmt_d (sint (val2 p)) @ '', '' @
     fmt_d (sint (val3 p)) @ '', '' @ fmt_d (sint (val4 p))"

definition ints_event :: "epoll_event \<Rightarrow> epoll_server \<Rightarrow> epoll_server" where
  "ints_event e s = (case e of Ready fd c ctl epollin r \<Rightarrow>
     if fd = server_fd s then epoll_ctl_add ctl c (accepted_fd c s)
     else case r of
       ReadError \<Rightarrow> close_fd fd (say ''Client disconnected.'' s)
     | ReadBytes bs \<Rightarrow>
         (if length bs = 0 then close_fd fd (say ''Client disconnected.'' s)
          else if length bs = PACKET_SIZE then say (packet_line (packet_of bs)) s
          else s))"

section \<open>Main programs\<close>

text \<open>Each server after its set-up, with the line it prints; the loop runs over the events that the rounds of
  \<^verbatim>\<open>epoll_wait\<close> deliver, at most \<^verbatim>\<open>MAX_EVENTS\<close> in a round.\<close>

definition epoll_start :: "int \<Rightarrow> int \<Rightarrow> string \<Rightarrow> epoll_server" where
  "epoll_start fd ctl line = say line (epoll_ctl_add ctl fd \<lparr>server_fd = fd, watched = [], open_fds = [], srv_out = []\<rparr>)"

fun epoll_rounds :: "(epoll_event \<Rightarrow> epoll_server \<Rightarrow> epoll_server) \<Rightarrow> epoll_event list list \<Rightarrow> epoll_server \<Rightarrow> epoll_server" where
  "epoll_rounds handle [] s = s"
| "epoll_rounds handle (es # rounds) s = epoll_rounds handle rounds (fold handle (take MAX_EVENTS es) s)"

record sock_answers =
  sa_socket :: int
  sa_bind :: int
  sa_listen :: int
  sa_epoll :: int
  sa_ctl :: int
  sa_connect :: int

text \<open>The answer of the first \<^verbatim>\<open>epoll_ctl\<close>, which fails on the descriptor of a failed \<^verbatim>\<open>epoll_create1\<close>.\<close>

definition listen_ctl :: "sock_answers \<Rightarrow> int" where
  "listen_ctl a = (if sa_epoll a = -1 then -1 else sa_ctl a)"

text \<open>A failed call that the program looks at makes it return 1.\<close>

definition UDS_PATH :: string where "UDS_PATH = ''/tmp/uds_example.sock''"

definition text_server_main :: "sock_answers \<Rightarrow> epoll_event list list \<Rightarrow> epoll_server res" where
  "text_server_main a rounds =
     (if sa_socket a = -1 then Inl (Exit 1)
      else if sa_bind a = -1 then Inl (Exit 1)
      else if sa_listen a = -1 then Inl (Exit 1)
      else Inr (epoll_rounds text_event rounds (epoll_start (sa_socket a) (listen_ctl a) (''Server listening on '' @ UDS_PATH @ ''...''))))"

definition abstract_server_main :: "sock_answers \<Rightarrow> epoll_event list list \<Rightarrow> epoll_server res" where
  "abstract_server_main a rounds =
     (if sa_socket a = -1 then Inl (Exit 1)
      else if sa_bind a = -1 then Inl (Exit 1)
      else Inr (epoll_rounds abstract_event rounds (epoll_start (sa_socket a) (listen_ctl a) ''Server listening on abstract socket...'')))"

definition ints_server_main :: "sock_answers \<Rightarrow> epoll_event list list \<Rightarrow> epoll_server" where
  "ints_server_main a rounds =
     epoll_rounds ints_event rounds (epoll_start (sa_socket a) (listen_ctl a) ''Server listening for integer packets...'')"

text \<open>The clients: what reaches the connection, and what they print. The answers of \<^verbatim>\<open>write\<close> are arguments; the
  text clients look at none of them, so a short write loses the rest of its text.\<close>

definition written :: "int \<Rightarrow> 'a list \<Rightarrow> 'a list" where
  "written n dat = take (nat n) dat"

definition text_client_main :: "sock_answers \<Rightarrow> int list \<Rightarrow> (string list \<times> string) res" where
  "text_client_main a ws =
     (if sa_connect a = -1 then Inl (Exit 1)
      else Inr (map2 written ws [''Hello from C++!'', ''Socket programming is cool.'', ''Goodbye!''],
                ''Connected to server.'' @ [CHR 0x0A]))"

definition abstract_client_main :: "sock_answers \<Rightarrow> int \<Rightarrow> (string list \<times> string) res" where
  "abstract_client_main a n =
     (if sa_connect a = -1 then Inl (Exit 1) else Inr ([written n ''Hello, generic abstract socket!''], []))"

text \<open>\<open>n\<close> is the answer of \<^verbatim>\<open>write\<close>.\<close>

definition send_packet :: "int \<Rightarrow> u8 list \<Rightarrow> bool" where
  "send_packet n dat = (if n = -1 then False else if nat n < length dat then False else True)"

definition ints_client_main :: "sock_answers \<Rightarrow> int \<Rightarrow> (u8 list \<times> string) res" where
  "ints_client_main a n =
     (if sa_connect a = -1 then Inl (Exit 1)
      else let dat = packet_bytes \<lparr>val1 = 10, val2 = 20, val3 = 30, val4 = 40\<rparr> in
        Inr (written n dat,
             if send_packet n dat then ''Successfully sent packet via send_packet function.'' @ [CHR 0x0A] else []))"

section \<open>Abstract addresses\<close>

text \<open>The two programs of src/code_dump/abstract_sockets copy the name with \<^verbatim>\<open>strncpy\<close>.\<close>

definition SUN_PATH_SIZE :: nat where "SUN_PATH_SIZE = 108"

definition strncpy :: "nat \<Rightarrow> u8 list \<Rightarrow> u8 list" where
  "strncpy n src = (let s = takeWhile (\<lambda>b. b \<noteq> 0) src in take n (s @ replicate n 0))"

definition bytes_of :: "string \<Rightarrow> u8 list" where
  "bytes_of s = map (\<lambda>c. of_nat (of_char c)) s"

definition abstract_name :: "string \<Rightarrow> u8 list" where
  "abstract_name s = 0 # bytes_of s @ [0]"

text \<open>The bytes of the address that are given to \<^verbatim>\<open>bind\<close> and \<^verbatim>\<open>connect\<close> after the family, for the name \<open>path\<close>
  (a null byte and a text): \<^verbatim>\<open>strlen(path + 1) + 1\<close> bytes of \<^verbatim>\<open>sun_path\<close>.\<close>

definition strncpy_address :: "u8 list \<Rightarrow> u8 list" where
  "strncpy_address path =
     (let sun_path = strncpy (SUN_PATH_SIZE - 1) path @ [0];
          n = length (takeWhile (\<lambda>b. b \<noteq> 0) (tl path)) + 1 in
      take n sun_path)"

text \<open>The epoll programs copy it with \<^verbatim>\<open>memcpy\<close> instead.\<close>

definition memcpy_address :: "u8 list \<Rightarrow> u8 list" where
  "memcpy_address name = take (length name) (name @ replicate (SUN_PATH_SIZE - length name) 0)"

text \<open>The client writes one text; it looks at no answer.\<close>

definition once_client_main :: "string list" where
  "once_client_main = [''Hello from abstract client'']"

text \<open>The server reads once into a buffer of 1024 null bytes and prints it.\<close>

definition once_server_main :: "read_result \<Rightarrow> string res" where
  "once_server_main r =
     (let buffer = (case r of ReadError \<Rightarrow> replicate 1024 0 | ReadBytes bs \<Rightarrow> take 1024 (bs @ replicate 1024 0)) in
      if 0 \<in> set buffer then Inr (''Server listening...'' @ [CHR 0x0A] @ ''Received: '' @ c_string buffer @ [CHR 0x0A])
      else Inl OutOfBounds)"

section \<open>What the servers share\<close>

text \<open>The kernel reports only watched descriptors, \<^verbatim>\<open>accept\<close> returns an error or a descriptor not in use, and a
  descriptor that is none cannot be watched.\<close>

definition event_ok :: "epoll_event \<Rightarrow> epoll_server \<Rightarrow> bool" where
  "event_ok e s = (case e of Ready fd c ctl epollin r \<Rightarrow>
     fd \<in> set (watched s) \<and> (c < 0 \<or> c \<notin> insert (server_fd s) (set (open_fds s))) \<and> (c < 0 \<longrightarrow> ctl = -1))"

fun events_ok :: "(epoll_event \<Rightarrow> epoll_server \<Rightarrow> epoll_server) \<Rightarrow> epoll_event list \<Rightarrow> epoll_server \<Rightarrow> bool" where
  "events_ok handle [] s = True"
| "events_ok handle (e # es) s \<longleftrightarrow> event_ok e s \<and> events_ok handle es (handle e s)"

lemma events_ok_snoc: "events_ok h (es @ [e]) s \<longleftrightarrow> events_ok h es s \<and> event_ok e (fold h es s)"
  by (induction es arbitrary: s) auto

text \<open>
  The connections, read off the events alone. \<open>opens srv c\<close>: the event is the accept of client \<open>c\<close> on the listening
  socket \<open>srv\<close>; with \<open>w\<close>, one that could be added to the watched descriptors. \<open>ends need_in srv c\<close>: the event is the end
  of the stream, or an error, of client \<open>c\<close> (with \<open>need_in\<close>, reported with \<^verbatim>\<open>EPOLLIN\<close>). A client is connected
  when it was accepted and has not ended since.
\<close>

definition gone :: "read_result \<Rightarrow> bool" where
  "gone r = (case r of ReadError \<Rightarrow> True | ReadBytes bs \<Rightarrow> bs = [])"

fun opens :: "bool \<Rightarrow> int \<Rightarrow> int \<Rightarrow> epoll_event \<Rightarrow> bool" where
  "opens w srv c (Ready fd x ctl b r) \<longleftrightarrow> fd = srv \<and> x = c \<and> 0 \<le> c \<and> (w \<longrightarrow> ctl \<noteq> -1)"

fun ends :: "bool \<Rightarrow> int \<Rightarrow> int \<Rightarrow> epoll_event \<Rightarrow> bool" where
  "ends need_in srv c (Ready fd x ctl b r) \<longleftrightarrow> fd = c \<and> c \<noteq> srv \<and> gone r \<and> (need_in \<longrightarrow> b)"

definition connected :: "bool \<Rightarrow> bool \<Rightarrow> int \<Rightarrow> epoll_event list \<Rightarrow> int set" where
  "connected need_in w srv es =
     {c. \<exists>xs e ys. es = xs @ e # ys \<and> opens w srv c e \<and> (\<forall>e' \<in> set ys. \<not> ends need_in srv c e')}"

lemma connected_Nil [simp]: "connected need_in w srv [] = {}"
  by (simp add: connected_def)

lemma connected_snoc:
  "connected need_in w srv (es @ [e]) = {c. opens w srv c e} \<union> {c \<in> connected need_in w srv es. \<not> ends need_in srv c e}"
    (is "?l = ?r")
proof (rule set_eqI)
  fix c
  have "c \<in> ?l \<longleftrightarrow> opens w srv c e \<or>
      (\<exists>xs e0 ys. es = xs @ e0 # ys \<and> opens w srv c e0 \<and> (\<forall>e' \<in> set (ys @ [e]). \<not> ends need_in srv c e'))"
  proof
    assume "c \<in> ?l"
    then obtain xs e0 ys where x: "es @ [e] = xs @ e0 # ys" "opens w srv c e0" "\<forall>e' \<in> set ys. \<not> ends need_in srv c e'"
      by (auto simp: connected_def)
    show "opens w srv c e \<or>
      (\<exists>xs e0 ys. es = xs @ e0 # ys \<and> opens w srv c e0 \<and> (\<forall>e' \<in> set (ys @ [e]). \<not> ends need_in srv c e'))"
    proof (cases ys rule: rev_cases)
      case (snoc zs z)
      with x show ?thesis by (metis append_Cons append_assoc append1_eq_conv)
    qed (use x in simp)
  next
    assume "opens w srv c e \<or>
      (\<exists>xs e0 ys. es = xs @ e0 # ys \<and> opens w srv c e0 \<and> (\<forall>e' \<in> set (ys @ [e]). \<not> ends need_in srv c e'))"
    then show "c \<in> ?l" unfolding connected_def by fastforce
  qed
  moreover have "(\<exists>xs e0 ys. es = xs @ e0 # ys \<and> opens w srv c e0 \<and> (\<forall>e' \<in> set (ys @ [e]). \<not> ends need_in srv c e')) \<longleftrightarrow>
      c \<in> connected need_in w srv es \<and> \<not> ends need_in srv c e"
    unfolding connected_def by auto
  ultimately show "c \<in> ?l \<longleftrightarrow> c \<in> ?r" by simp
qed

text \<open>The contract of an event handler: an event of the listening socket adds the new client, the end of a client
  closes it, any other event leaves the descriptors alone.\<close>

definition same_fds :: "epoll_server \<Rightarrow> epoll_server \<Rightarrow> bool" where
  "same_fds s t \<longleftrightarrow> server_fd t = server_fd s \<and> watched t = watched s \<and> open_fds t = open_fds s"

text \<open>The descriptors of a server after the events \<open>es\<close>; \<open>lst\<close> says whether the listening socket is watched.\<close>

definition fd_inv :: "bool \<Rightarrow> bool \<Rightarrow> int \<Rightarrow> epoll_event list \<Rightarrow> epoll_server \<Rightarrow> bool" where
  "fd_inv need_in lst srv es s \<longleftrightarrow>
     server_fd s = srv \<and> distinct (open_fds s) \<and> set (open_fds s) = connected need_in False srv es \<and> srv \<notin> set (open_fds s) \<and>
     distinct (watched s) \<and> set (watched s) = (if lst then {srv} else {}) \<union> connected need_in True srv es \<and>
     set (watched s) \<subseteq> insert srv (set (open_fds s))"

lemma fd_inv_same: "same_fds s t \<Longrightarrow> fd_inv need_in lst srv es s \<Longrightarrow> fd_inv need_in lst srv es t"
  unfolding same_fds_def fd_inv_def by metis

locale epoll_handler =
  fixes handle :: "epoll_event \<Rightarrow> epoll_server \<Rightarrow> epoll_server" and need_in :: bool
  assumes on_accept: "same_fds (epoll_ctl_add ctl c (accepted_fd c s)) (handle (Ready (server_fd s) c ctl b r) s)"
    and on_end: "fd \<noteq> server_fd s \<Longrightarrow> gone r \<Longrightarrow> (need_in \<longrightarrow> b) \<Longrightarrow> same_fds (close_fd fd s) (handle (Ready fd c ctl b r) s)"
    and on_data: "fd \<noteq> server_fd s \<Longrightarrow> \<not> (gone r \<and> (need_in \<longrightarrow> b)) \<Longrightarrow> same_fds s (handle (Ready fd c ctl b r) s)"
begin

lemma handle_fd_inv:
  assumes "fd_inv need_in lst srv es s" "event_ok e s"
  shows "fd_inv need_in lst srv (es @ [e]) (handle e s)"
proof -
  obtain fd c ctl b r where e: "e = Ready fd c ctl b r" by (cases e)
  have srv: "server_fd s = srv" using assms(1) by (simp add: fd_inv_def)
  consider "fd = server_fd s" | "fd \<noteq> server_fd s" "gone r" "need_in \<longrightarrow> b" | "fd \<noteq> server_fd s" "\<not> (gone r \<and> (need_in \<longrightarrow> b))" by blast
  then show ?thesis
  proof cases
    case 1
    then have "fd_inv need_in lst srv (es @ [e]) (epoll_ctl_add ctl c (accepted_fd c s))"
      using assms e srv
      by (auto simp: fd_inv_def connected_snoc epoll_ctl_add_def accepted_fd_def event_ok_def)
    then show ?thesis using fd_inv_same on_accept[of ctl c s b r] e 1 by blast
  next
    case 2
    then have "fd_inv need_in lst srv (es @ [e]) (close_fd fd s)"
      using assms e srv by (auto simp: fd_inv_def connected_snoc close_fd_def distinct_removeAll)
    then show ?thesis using fd_inv_same on_end[OF 2] e by blast
  next
    case 3
    then have "fd_inv need_in lst srv (es @ [e]) s"
      using assms e srv by (auto simp: fd_inv_def connected_snoc)
    then show ?thesis using fd_inv_same on_data[OF 3] e by blast
  qed
qed

lemma events_fd_inv:
  "fd_inv need_in lst srv [] s \<Longrightarrow> events_ok handle es s \<Longrightarrow> fd_inv need_in lst srv es (fold handle es s)"
  by (induction es rule: rev_induct) (simp_all add: events_ok_snoc handle_fd_inv)

end

lemmas fd_defs = same_fds_def say_def epoll_ctl_add_def accepted_fd_def close_fd_def epoll_ctl_del_def

interpretation text_srv: epoll_handler text_event False
  by unfold_locales (auto simp: text_event_def gone_def fd_defs split: read_result.splits)

interpretation abstract_srv: epoll_handler abstract_event True
  by unfold_locales (auto simp: abstract_event_def gone_def fd_defs split: read_result.splits)

interpretation ints_srv: epoll_handler ints_event False
  by unfold_locales (auto simp: ints_event_def gone_def fd_defs split: read_result.splits)

lemma epoll_start_inv: "fd_inv need_in (ctl \<noteq> -1) fd [] (epoll_start fd ctl line)"
  by (simp add: fd_inv_def epoll_start_def say_def epoll_ctl_add_def)

lemma epoll_rounds_fold: "epoll_rounds h rounds s = fold h (concat (map (take MAX_EVENTS) rounds)) s"
  by (induction rounds arbitrary: s) simp_all

section \<open>Properties\<close>

text \<open>C36: The three servers open and close their clients exactly with the connections. After any rounds of events
  that the kernel can report, the clients that a server has open are those that were accepted and whose stream has
  not ended (or failed) since, each once: none is leaked and none is closed early. The watched descriptors are the
  listening socket, if it could be added, and those of these clients that could be added; a client for which
  \<^verbatim>\<open>epoll_ctl\<close> failed stays open without being watched. The abstract server notices the end of a stream only with
  \<^verbatim>\<open>EPOLLIN\<close>.\<close>

theorem epoll_connections:
  assumes "(handle, need_in) \<in> {(text_event, False), (abstract_event, True), (ints_event, False)}"
    and "es = concat (map (take MAX_EVENTS) rounds)" "events_ok handle es (epoll_start fd ctl line)"
  shows "\<exists>s. epoll_rounds handle rounds (epoll_start fd ctl line) = s \<and>
    distinct (open_fds s) \<and> set (open_fds s) = connected need_in False fd es \<and>
    distinct (watched s) \<and> set (watched s) = (if ctl \<noteq> -1 then {fd} else {}) \<union> connected need_in True fd es"
proof -
  have "fd_inv need_in (ctl \<noteq> -1) fd es (fold handle es (epoll_start fd ctl line))"
    using assms(1,3) text_srv.events_fd_inv[OF epoll_start_inv] abstract_srv.events_fd_inv[OF epoll_start_inv]
      ints_srv.events_fd_inv[OF epoll_start_inv] by auto
  then show ?thesis unfolding epoll_rounds_fold assms(2)[symmetric] by (simp add: fd_inv_def)
qed

text \<open>The integer server reads what the client sends, as long as no packet is split. A packet survives the way
  through its bytes, whole packets are printed in the order in which they arrive, but a packet that arrives
  in two parts is lost without a message.\<close>

theorem ints_server_packets:
  assumes "fd \<noteq> server_fd s"
  shows "packet_of (packet_bytes p) = p \<and>
    srv_out (fold ints_event (map (\<lambda>p. Ready fd (-1) (-1) True (ReadBytes (packet_bytes p))) ps) s) =
      srv_out s @ concat (map (\<lambda>p. packet_line p @ [CHR 0x0A]) ps) \<and>
    (0 < k \<and> k < PACKET_SIZE \<longrightarrow>
      fold ints_event [Ready fd (-1) (-1) True (ReadBytes (take k (packet_bytes p))),
        Ready fd (-1) (-1) True (ReadBytes (drop k (packet_bytes p)))] s = s)"
proof -
  have rt: "packet_of (packet_bytes p) = p" for p
    by (simp add: packet_of_def packet_bytes_def le_word_le_bytes)
  have len: "length (packet_bytes p) = PACKET_SIZE" for p by (simp add: packet_bytes_def PACKET_SIZE_def)
  have "srv_out (fold ints_event (map (\<lambda>p. Ready fd (-1) (-1) True (ReadBytes (packet_bytes p))) ps) s) =
      srv_out s @ concat (map (\<lambda>p. packet_line p @ [CHR 0x0A]) ps)"
    using assms
  proof (induction ps arbitrary: s)
    case (Cons p ps)
    have "ints_event (Ready fd (-1) (-1) True (ReadBytes (packet_bytes p))) s = say (packet_line p) s"
      using Cons.prems len[of p] by (auto simp: ints_event_def rt PACKET_SIZE_def)
    then show ?case using Cons.IH[of "say (packet_line p) s"] Cons.prems by (simp add: say_def)
  qed simp
  then show ?thesis using assms rt len[of p] by (auto simp: ints_event_def)
qed

text \<open>The name given with \<^verbatim>\<open>strncpy\<close> does not reach the kernel: the copy stops at the null byte that begins an
  abstract name, so that only its length remains, and names of the same length collide.\<close>

lemma strncpy_address_loses_name:
  assumes "0 \<notin> set (bytes_of name)" "length name < SUN_PATH_SIZE - 1"
  shows "strncpy_address (abstract_name name) = replicate (length name + 1) 0"
    and "memcpy_address (abstract_name name) = abstract_name name"
proof -
  have "takeWhile (\<lambda>b. b \<noteq> 0) (bytes_of name @ [0]) = bytes_of name"
    using assms(1) by (induction name) (auto simp: bytes_of_def)
  moreover have "take (Suc n) (replicate m (0::u8) @ [0]) = replicate (Suc n) 0" if "n < m" for n m
    using that by simp
  ultimately show "strncpy_address (abstract_name name) = replicate (length name + 1) 0"
    using assms(2) by (simp add: strncpy_address_def abstract_name_def strncpy_def Let_def) (simp add: bytes_of_def)
  show "memcpy_address (abstract_name name) = abstract_name name" by (simp add: memcpy_address_def)
qed

section \<open>Examples\<close>

definition epoll_demo :: "epoll_event list list" where
  "epoll_demo = [[Ready 3 5 0 True ReadError], [Ready 3 6 (-1) True ReadError, Ready 5 0 0 True (ReadBytes [72, 105])],
     [Ready 5 0 0 True (ReadBytes []), Ready 3 7 0 True ReadError]]"

theorem epoll_connections_witness:
  "\<exists>s. epoll_rounds text_event epoll_demo (epoll_start 3 0 ''up'') = s \<and> set (open_fds s) = {6, 7} \<and> set (watched s) = {3, 7}"
proof -
  let ?es = "concat (map (take MAX_EVENTS) epoll_demo)"
  have es: "?es = [Ready 3 5 0 True ReadError] @ [Ready 3 6 (-1) True ReadError] @ [Ready 5 0 0 True (ReadBytes [72, 105])] @
      [Ready 5 0 0 True (ReadBytes [])] @ [Ready 3 7 0 True ReadError]"
    by (simp add: epoll_demo_def MAX_EVENTS_def)
  have "events_ok text_event ?es (epoll_start 3 0 ''up'')"
    unfolding es by (simp add: epoll_start_def text_event_def fd_defs event_ok_def)
  moreover have "connected False w 3 ?es = (if w then {7} else {6, 7})" for w
    unfolding es append_assoc[symmetric] connected_snoc[of _ _ _ "[]", simplified] connected_snoc by (auto simp: gone_def)
  ultimately show ?thesis using epoll_connections[of text_event False ?es epoll_demo 3 0 "''up''"] by auto
qed

theorem ints_server_packets_witness:
  "srv_out (ints_event (Ready 5 (-1) (-1) True (ReadBytes (packet_bytes \<lparr>val1 = 10, val2 = 20, val3 = 30, val4 = 40\<rparr>)))
     (epoll_start 3 0 [])) = [CHR 0x0A] @ packet_line \<lparr>val1 = 10, val2 = 20, val3 = 30, val4 = 40\<rparr> @ [CHR 0x0A]"
  using ints_server_packets[of 5 "epoll_start 3 0 []" undefined "[\<lparr>val1 = 10, val2 = 20, val3 = 30, val4 = 40\<rparr>]" 0]
  by (simp add: epoll_start_def fd_defs)

section \<open>A client and its server\<close>

text \<open>A connection as the server sees it: \<^verbatim>\<open>accept\<close> returns \<open>c\<close>, then the bytes arrive in the chunks \<open>css\<close>, one
  round each, and at last the end of the stream.\<close>

definition one_client :: "int \<Rightarrow> int \<Rightarrow> u8 list list \<Rightarrow> epoll_event list list" where
  "one_client fd c css =
     [Ready fd c 0 True ReadError] # map (\<lambda>bs. [Ready c (-1) (-1) True (ReadBytes bs)]) css @ [[Ready c (-1) (-1) True (ReadBytes [])]]"

lemma epoll_rounds_append: "epoll_rounds h (rs @ rs') s = epoll_rounds h rs' (epoll_rounds h rs s)"
  by (induction rs arbitrary: s) simp_all

text \<open>A handler that only prints something for a chunk prints it for one chunk after the other.\<close>

lemma chunks_said:
  assumes "\<And>s x. server_fd s = fd \<Longrightarrow> x \<in> set xs \<Longrightarrow>
      h (Ready c (-1) (-1) True (ReadBytes (enc x))) s = s\<lparr>srv_out := srv_out s @ txt x\<rparr>"
    and "server_fd s = fd"
  shows "epoll_rounds h (map (\<lambda>bs. [Ready c (-1) (-1) True (ReadBytes bs)]) (map enc xs)) s =
    s\<lparr>srv_out := srv_out s @ concat (map txt xs)\<rparr>"
  using assms
proof (induction xs arbitrary: s)
  case (Cons x xs)
  let ?s = "s\<lparr>srv_out := srv_out s @ txt x\<rparr>"
  have "epoll_rounds h (map (\<lambda>bs. [Ready c (-1) (-1) True (ReadBytes bs)]) (map enc xs)) ?s =
      ?s\<lparr>srv_out := srv_out ?s @ concat (map txt xs)\<rparr>"
    by (rule Cons.IH) (use Cons.prems in simp_all)
  with Cons.prems show ?case by (simp add: MAX_EVENTS_def)
qed simp

lemma c_string_bytes:
  assumes "CHR 0x00 \<notin> set s"
  shows "c_string (bytes_of s @ [0]) = s"
proof -
  have b: "unat (of_nat (of_char ch) :: u8) = of_char ch" for ch :: char
    by (simp add: unat_of_nat)
  show ?thesis using assms
  proof (induction s)
    case (Cons ch s)
    have "(of_nat (of_char ch) :: u8) \<noteq> 0"
    proof
      assume "(of_nat (of_char ch) :: u8) = 0"
      then have "char_of (of_char ch :: nat) = (char_of (0 :: nat) :: char)" using b[of ch] by simp
      moreover have "(char_of (0 :: nat) :: char) = CHR 0x00" by code_simp
      ultimately have "ch = CHR 0x00" by simp
      with Cons.prems show False by simp
    qed
    with Cons b show ?case by (simp add: c_string_def bytes_of_def)
  qed (simp add: c_string_def bytes_of_def)
qed

lemma text_chunk:
  assumes "c \<noteq> server_fd s" "cs \<noteq> []" "CHR 0x00 \<notin> set cs" "length cs < BUFFER_SIZE"
  shows "text_event (Ready c (-1) (-1) True (ReadBytes (bytes_of cs))) s = say (''Received from FD '' @ fmt_d c @ '': '' @ cs) s"
    "abstract_event (Ready c (-1) (-1) True (ReadBytes (bytes_of cs))) s = say (''Received: '' @ cs) s"
proof -
  have "bytes_of cs \<noteq> []" "take (BUFFER_SIZE - 1) (bytes_of cs) = bytes_of cs"
    using assms(2,4) by (auto simp: bytes_of_def)
  with assms c_string_bytes[OF assms(3)]
  show "text_event (Ready c (-1) (-1) True (ReadBytes (bytes_of cs))) s = say (''Received from FD '' @ fmt_d c @ '': '' @ cs) s"
    "abstract_event (Ready c (-1) (-1) True (ReadBytes (bytes_of cs))) s = say (''Received: '' @ cs) s"
    by (simp_all add: text_event_def abstract_event_def)
qed

text \<open>A whole run of a server with one client: \<open>hi\<close> and \<open>l2\<close> are the output for the connection and its end.\<close>

lemma one_client_run:
  assumes fds: "0 \<le> fd" "0 \<le> c" "c \<noteq> fd"
    and acc: "\<And>s. server_fd s = fd \<Longrightarrow> h (Ready fd c 0 True ReadError) s =
      epoll_ctl_add 0 c ((accepted_fd c s)\<lparr>srv_out := srv_out s @ hi\<rparr>)"
    and mid: "\<And>s x. server_fd s = fd \<Longrightarrow> x \<in> set xs \<Longrightarrow> 
      h (Ready c (-1) (-1) True (ReadBytes (enc x))) s = s\<lparr>srv_out := srv_out s @ txt x\<rparr>"
    and fin: "\<And>s. server_fd s = fd \<Longrightarrow> h (Ready c (-1) (-1) True (ReadBytes [])) s = close_fd c (say l2 s)"
  shows "epoll_rounds h (one_client fd c (map enc xs)) (epoll_start fd 0 l0) =
    \<lparr>server_fd = fd, watched = [fd], open_fds = [],
     srv_out = l0 @ [CHR 0x0A] @ hi @ concat (map txt xs) @ l2 @ [CHR 0x0A]\<rparr>"
proof -
  let ?s0 = "epoll_start fd 0 l0" and ?s1 = "\<lparr>server_fd = fd, watched = [fd, c], open_fds = [c], srv_out = l0 @ [CHR 0x0A] @ hi\<rparr>"
  have one: "h (Ready fd c 0 True ReadError) ?s0 = ?s1"
    using fds acc[of ?s0] by (simp add: epoll_start_def fd_defs)
  have two: "epoll_rounds h (map (\<lambda>bs. [Ready c (-1) (-1) True (ReadBytes bs)]) (map enc xs)) ?s1 =
      ?s1\<lparr>srv_out := srv_out ?s1 @ concat (map txt xs)\<rparr>"
    by (rule chunks_said[where fd = fd]) (simp_all add: mid)
  show ?thesis
    unfolding one_client_def append_Cons[symmetric] epoll_rounds.simps epoll_rounds_append
    using one two fin fds(3) by (simp add: MAX_EVENTS_def fd_defs)
qed

lemma text_one_client:
  assumes "0 \<le> fd" "0 \<le> c" "c \<noteq> fd" "\<forall>cs \<in> set chunks. cs \<noteq> [] \<and> length cs < BUFFER_SIZE \<and> CHR 0x00 \<notin> set cs"
  shows "epoll_rounds text_event (one_client fd c (map bytes_of chunks)) (epoll_start fd 0 l0) =
      \<lparr>server_fd = fd, watched = [fd], open_fds = [],
       srv_out = l0 @ [CHR 0x0A] @ (''Accepted new connection. Client FD: '' @ fmt_d c @ [CHR 0x0A]) @
         concat (map (\<lambda>cs. (''Received from FD '' @ fmt_d c @ '': '' @ cs) @ [CHR 0x0A]) chunks) @
         (''Client disconnected (FD: '' @ fmt_d c @ '')'') @ [CHR 0x0A]\<rparr>"
proof (rule one_client_run[OF assms(1-3)])
  fix s :: epoll_server assume s: "server_fd s = fd"
  show "text_event (Ready c (-1) (-1) True (ReadBytes (bytes_of cs))) s =
      s\<lparr>srv_out := srv_out s @ (''Received from FD '' @ fmt_d c @ '': '' @ cs) @ [CHR 0x0A]\<rparr>"
    if "cs \<in> set chunks" for cs
    using text_chunk(1)[of c s cs] that s assms(3,4) by (auto simp: say_def)
  show "text_event (Ready fd c 0 True ReadError) s = epoll_ctl_add 0 c ((accepted_fd c s)\<lparr>srv_out := srv_out s @
      ''Accepted new connection. Client FD: '' @ fmt_d c @ [CHR 0x0A]\<rparr>)"
    using s by (simp add: text_event_def say_def accepted_fd_def)
  show "text_event (Ready c (-1) (-1) True (ReadBytes [])) s = close_fd c (say (''Client disconnected (FD: '' @ fmt_d c @ '')'') s)"
    using s assms(3) by (simp add: text_event_def)
qed

lemma abstract_one_client:
  assumes "0 \<le> fd" "0 \<le> c" "c \<noteq> fd" "\<forall>cs \<in> set chunks. cs \<noteq> [] \<and> length cs < BUFFER_SIZE \<and> CHR 0x00 \<notin> set cs"
  shows "epoll_rounds abstract_event (one_client fd c (map bytes_of chunks)) (epoll_start fd 0 l0) =
      \<lparr>server_fd = fd, watched = [fd], open_fds = [],
       srv_out = l0 @ [CHR 0x0A] @ (''New Client FD: '' @ fmt_d c @ [CHR 0x0A]) @
         concat (map (\<lambda>cs. (''Received: '' @ cs) @ [CHR 0x0A]) chunks) @
         (''Client '' @ fmt_d c @ '' disconnected.'') @ [CHR 0x0A]\<rparr>"
proof (rule one_client_run[OF assms(1-3)])
  fix s :: epoll_server assume s: "server_fd s = fd"
  show "abstract_event (Ready c (-1) (-1) True (ReadBytes (bytes_of cs))) s = s\<lparr>srv_out := srv_out s @ (''Received: '' @ cs) @ [CHR 0x0A]\<rparr>"
    if "cs \<in> set chunks" for cs
    using text_chunk(2)[of c s cs] that s assms(3,4) by (auto simp: say_def)
  show "abstract_event (Ready fd c 0 True ReadError) s = epoll_ctl_add 0 c ((accepted_fd c s)\<lparr>srv_out := srv_out s @
      ''New Client FD: '' @ fmt_d c @ [CHR 0x0A]\<rparr>)"
    using s by (simp add: abstract_event_def say_def accepted_fd_def)
  show "abstract_event (Ready c (-1) (-1) True (ReadBytes [])) s = close_fd c (say (''Client '' @ fmt_d c @ '' disconnected.'') s)"
    using s assms(3) by (simp add: abstract_event_def fd_defs)
qed

lemma ints_one_client:
  assumes "0 \<le> fd" "0 \<le> c" "c \<noteq> fd" "\<forall>bs \<in> set cs. bs \<noteq> []"
  shows "epoll_rounds ints_event (one_client fd c cs) (epoll_start fd 0 l0) =
      \<lparr>server_fd = fd, watched = [fd], open_fds = [],
       srv_out = l0 @ [CHR 0x0A] @
         concat (map (\<lambda>bs. packet_line (packet_of bs) @ [CHR 0x0A]) (filter (\<lambda>bs. length bs = PACKET_SIZE) cs)) @
         ''Client disconnected.'' @ [CHR 0x0A]\<rparr>"
proof -
  let ?txt = "\<lambda>bs. if length bs = PACKET_SIZE then packet_line (packet_of bs) @ [CHR 0x0A] else []"
  have "epoll_rounds ints_event (one_client fd c (map (\<lambda>x. x) cs)) (epoll_start fd 0 l0) =
      \<lparr>server_fd = fd, watched = [fd], open_fds = [], srv_out = l0 @ [CHR 0x0A] @ [] @
         concat (map ?txt cs) @ ''Client disconnected.'' @ [CHR 0x0A]\<rparr>"
    by (rule one_client_run[OF assms(1-3)])
       (use assms(3,4) in \<open>auto simp: ints_event_def PACKET_SIZE_def accepted_fd_def say_def\<close>)
  moreover have "concat (map ?txt cs) =
      concat (map (\<lambda>bs. packet_line (packet_of bs) @ [CHR 0x0A]) (filter (\<lambda>bs. length bs = PACKET_SIZE) cs))"
    by (induction cs) simp_all
  ultimately show ?thesis by simp
qed

lemma set_written:
  assumes "ch \<in> set (concat (map2 written ws ms))"
  shows "ch \<in> set (concat ms)"
proof -
  from assms obtain n m where "(n, m) \<in> set (zip ws ms)" "ch \<in> set (written n m)" by auto
  then have "m \<in> set ms" "ch \<in> set m" by (auto simp: written_def dest: set_zip_rightD in_set_takeD)
  then show ?thesis by auto
qed

text \<open>A stream of at most one packet, cut into chunks that are not empty: a chunk of the size of a packet is the
  whole stream.\<close>

lemma whole_packet:
  assumes "\<forall>bs \<in> set cs. bs \<noteq> []" "length (concat cs) \<le> PACKET_SIZE"
  shows "filter (\<lambda>bs. length bs = PACKET_SIZE) cs = (if length cs = 1 \<and> length (concat cs) = PACKET_SIZE then cs else [])"
  using assms
proof (induction cs)
  case (Cons b bs)
  have "length b \<noteq> PACKET_SIZE" if ne: "bs \<noteq> []"
  proof -
    obtain b' bs' where "bs = b' # bs'" "b' \<noteq> []" using ne Cons.prems(1) by (cases bs) auto
    then have "0 < length (concat bs)" by simp
    then show ?thesis using Cons.prems(2) by (simp only: concat.simps length_append)
  qed
  moreover have "length (concat bs) < PACKET_SIZE" using Cons.prems by (cases b) auto
  ultimately show ?case using Cons by (cases bs) auto
qed simp

text \<open>C39: The clients and servers together, with a connection that is accepted and watched. Whatever the
  writes of the text client answer, and however the kernel cuts what was written into chunks (below the size of the
  buffer), the server prints every byte that was written once and in order: the concatenation of the texts of the
  printed lines is the concatenation of what the client wrote. The same holds for the abstract pair. The
  integer server prints the four numbers of the packet of its client exactly when all 16 bytes were written and
  arrive in one piece; a packet that is cut is lost without a message. At the end each server watches only its
  listening socket again.\<close>

theorem uds_session:
  assumes "sa_socket a = fd" "0 \<le> fd" "0 \<le> c" "c \<noteq> fd" "sa_bind a \<noteq> -1" "sa_listen a \<noteq> -1" "listen_ctl a = 0"
    and "\<forall>cs \<in> set chunks. cs \<noteq> [] \<and> length cs < BUFFER_SIZE" "\<forall>bs \<in> set parts. bs \<noteq> []"
  shows "(\<forall>ms said. text_client_main k ws = Inr (ms, said) \<and> concat chunks = concat ms \<longrightarrow>
      text_server_main a (one_client fd c (map bytes_of chunks)) = Inr \<lparr>server_fd = fd, watched = [fd], open_fds = [],
        srv_out = ''Server listening on /tmp/uds_example.sock...'' @ [CHR 0x0A] @
          ''Accepted new connection. Client FD: '' @ fmt_d c @ [CHR 0x0A] @
          concat (map (\<lambda>cs. ''Received from FD '' @ fmt_d c @ '': '' @ cs @ [CHR 0x0A]) chunks) @
          ''Client disconnected (FD: '' @ fmt_d c @ '')'' @ [CHR 0x0A]\<rparr>) \<and>
    (\<forall>ms said. abstract_client_main k n = Inr (ms, said) \<and> concat chunks = concat ms \<longrightarrow>
      abstract_server_main a (one_client fd c (map bytes_of chunks)) = Inr \<lparr>server_fd = fd, watched = [fd], open_fds = [],
        srv_out = ''Server listening on abstract socket...'' @ [CHR 0x0A] @
          ''New Client FD: '' @ fmt_d c @ [CHR 0x0A] @
          concat (map (\<lambda>cs. ''Received: '' @ cs @ [CHR 0x0A]) chunks) @
          ''Client '' @ fmt_d c @ '' disconnected.'' @ [CHR 0x0A]\<rparr>) \<and>
    (\<forall>sent said. ints_client_main k n = Inr (sent, said) \<and> concat parts = sent \<longrightarrow>
      ints_server_main a (one_client fd c parts) = \<lparr>server_fd = fd, watched = [fd], open_fds = [],
        srv_out = ''Server listening for integer packets...'' @ [CHR 0x0A] @
          (if length sent = PACKET_SIZE \<and> length parts = 1 then ''Received integers: 10, 20, 30, 40'' @ [CHR 0x0A] else []) @
          ''Client disconnected.'' @ [CHR 0x0A]\<rparr>)"
proof (intro conjI allI impI; (elim conjE)?)
  have ok: "\<forall>cs \<in> set chunks. cs \<noteq> [] \<and> length cs < BUFFER_SIZE \<and> CHR 0x00 \<notin> set cs"
    if "concat chunks = concat ms" "CHR 0x00 \<notin> set (concat ms)" for ms
    using that assms(8) by (metis UN_iff set_concat)
  show "text_server_main a (one_client fd c (map bytes_of chunks)) = Inr \<lparr>server_fd = fd, watched = [fd], open_fds = [],
        srv_out = ''Server listening on /tmp/uds_example.sock...'' @ [CHR 0x0A] @
          ''Accepted new connection. Client FD: '' @ fmt_d c @ [CHR 0x0A] @
          concat (map (\<lambda>cs. ''Received from FD '' @ fmt_d c @ '': '' @ cs @ [CHR 0x0A]) chunks) @
          ''Client disconnected (FD: '' @ fmt_d c @ '')'' @ [CHR 0x0A]\<rparr>"
    if "text_client_main k ws = Inr (ms, said)" "concat chunks = concat ms" for ms said
  proof -
    have ms: "ms = map2 written ws [''Hello from C++!'', ''Socket programming is cool.'', ''Goodbye!'']"
      using that(1) by (simp add: text_client_main_def split: if_splits)
    have "CHR 0x00 \<notin> set (concat [''Hello from C++!'', ''Socket programming is cool.'', ''Goodbye!''])" by simp
    then have "CHR 0x00 \<notin> set (concat ms)" unfolding ms by (rule contrapos_nn) (erule set_written)
    from text_one_client[OF assms(2-4) ok[OF that(2) this]] show ?thesis
      using assms(1,2,5-7) by (simp add: text_server_main_def UDS_PATH_def)
  qed
  show "abstract_server_main a (one_client fd c (map bytes_of chunks)) = Inr \<lparr>server_fd = fd, watched = [fd], open_fds = [],
        srv_out = ''Server listening on abstract socket...'' @ [CHR 0x0A] @
          ''New Client FD: '' @ fmt_d c @ [CHR 0x0A] @
          concat (map (\<lambda>cs. ''Received: '' @ cs @ [CHR 0x0A]) chunks) @
          ''Client '' @ fmt_d c @ '' disconnected.'' @ [CHR 0x0A]\<rparr>"
    if "abstract_client_main k n = Inr (ms, said)" "concat chunks = concat ms" for ms said
  proof -
    have ms: "ms = map2 written [n] [''Hello, generic abstract socket!'']"
      using that(1) by (simp add: abstract_client_main_def split: if_splits)
    have "CHR 0x00 \<notin> set (concat [''Hello, generic abstract socket!''])" by simp
    then have "CHR 0x00 \<notin> set (concat ms)" unfolding ms by (rule contrapos_nn) (erule set_written)
    from abstract_one_client[OF assms(2-4) ok[OF that(2) this]] show ?thesis
      using assms(1,2,5-7) by (simp add: abstract_server_main_def)
  qed
  show "ints_server_main a (one_client fd c parts) = \<lparr>server_fd = fd, watched = [fd], open_fds = [],
        srv_out = ''Server listening for integer packets...'' @ [CHR 0x0A] @
          (if length sent = PACKET_SIZE \<and> length parts = 1 then ''Received integers: 10, 20, 30, 40'' @ [CHR 0x0A] else []) @
          ''Client disconnected.'' @ [CHR 0x0A]\<rparr>"
    if "ints_client_main k n = Inr (sent, said)" "concat parts = sent" for sent said
  proof -
    let ?p = "packet_bytes \<lparr>val1 = 10, val2 = 20, val3 = 30, val4 = 40\<rparr>"
    have lp: "length ?p = PACKET_SIZE" by (simp add: packet_bytes_def PACKET_SIZE_def)
    have s: "sent = take (nat n) ?p" using that(1) by (auto simp: ints_client_main_def written_def Let_def split: if_splits)
    then have "length sent \<le> PACKET_SIZE" using lp by simp
    with that(2) have f: "filter (\<lambda>bs. length bs = PACKET_SIZE) parts =
        (if length parts = 1 \<and> length sent = PACKET_SIZE then parts else [])" using whole_packet[OF assms(9)] by simp
    have one: "parts = [sent]" if "length parts = 1" using that \<open>concat parts = sent\<close> by (cases parts) auto
    have "sent = ?p" if "length sent = PACKET_SIZE" using that s lp by simp
    moreover have "packet_line (packet_of ?p) = ''Received integers: 10, 20, 30, 40''" by code_simp
    ultimately show ?thesis
      using ints_one_client[OF assms(2-4,9)] f one assms(1,7) by (auto simp: ints_server_main_def)
  qed
qed

theorem uds_session_witness:
  "\<exists>out. text_server_main \<lparr>sa_socket = 3, sa_bind = 0, sa_listen = 0, sa_epoll = 5, sa_ctl = 0, sa_connect = 0\<rparr>
      (one_client 3 4 (map bytes_of [''Hello from C++!'', ''Socket programming is cool.Good''])) =
    Inr \<lparr>server_fd = 3, watched = [3], open_fds = [], srv_out = out\<rparr>"
proof -
  let ?a = "\<lparr>sa_socket = 3, sa_bind = 0, sa_listen = 0, sa_epoll = 5, sa_ctl = 0, sa_connect = 0\<rparr>"
  let ?c = "[''Hello from C++!'', ''Socket programming is cool.Good'']"
  have c: "\<forall>cs \<in> set ?c. cs \<noteq> [] \<and> length cs < BUFFER_SIZE" by (simp add: BUFFER_SIZE_def)
  have k: "text_client_main ?a [15, 27, 4] = Inr ([''Hello from C++!'', ''Socket programming is cool.'', ''Good''],
      ''Connected to server.'' @ [CHR 0x0A])"
    by (simp add: text_client_main_def written_def)
  have "concat ?c = concat [''Hello from C++!'', ''Socket programming is cool.'', ''Good'']" by simp
  with k uds_session[of ?a 3 4 ?c "[]" ?a "[15, 27, 4]" 0] c show ?thesis by (simp add: listen_ctl_def del: concat.simps)
qed

end
