(* ===== verification/BkendPcap.thy ===== *)
theory BkendPcap
  imports TxRing Fmt
begin

text \<open>
  The second copy of the backend, src/code_dump/nonm/bkend.c (src/code_dump/vm_tap/bkend.c is the same
  file). It is the program of bkend/bkend.c with another transmit thread: the thread also prints
  every frame and writes the header of a pcap stream to a named pipe. Its descriptor loop and its
  handling of the rings are those of \<open>deq_chain\<close>, \<open>deq_entry\<close> and \<open>deq_round\<close>, which the lemmas below
  prove; \<open>pipe_ok\<close> says whether the write to the pipe succeeds (the program ignores the answer).
\<close>

section \<open>The pcap stream\<close>

record file_header =
  magic :: u32
  version_major :: u16
  version_minor :: u16
  thiszone :: u32
  sigfigs :: u32
  snaplen :: u32
  linktype :: u32

definition file_header_bytes :: "file_header \<Rightarrow> u8 list" where
  "file_header_bytes h = le_bytes 4 (magic h) @ le_bytes 2 (version_major h) @ le_bytes 2 (version_minor h) @
     le_bytes 4 (thiszone h) @ le_bytes 4 (sigfigs h) @ le_bytes 4 (snaplen h) @ le_bytes 4 (linktype h)"

definition the_header :: file_header where
  "the_header = \<lparr>magic = 0xa1b2c3d4, version_major = 2, version_minor = 4, thiszone = 0, sigfigs = 0,
     snaplen = 4194304, linktype = 1\<rparr>"

text \<open>The header of a packet. The program fills it in, but the write is commented out.\<close>

record pkt_hdr =
  tv_sec :: u32
  tv_usec :: u32
  caplen :: u32
  plen :: u32

definition pkt_hdr_of :: "u32 \<Rightarrow> pkt_hdr" where
  "pkt_hdr_of len = \<lparr>tv_sec = 0, tv_usec = 0, caplen = len - 18, plen = len - 18\<rparr>"

record pcap_state =
  wspipe :: int
  fhdone :: bool
  piped :: "u8 list"
  stdout :: string

section \<open>Printing a frame\<close>

text \<open>Byte \<open>i\<close> of a frame with what follows it.\<close>

definition frame_cell :: "nat \<Rightarrow> u8 \<Rightarrow> string" where
  "frame_cell i b = fmt_02x b @ '' '' @ (if i mod 8 = 7 then ''  '' else []) @ (if i mod 16 = 15 then [CHR 0x0A] else [])"

fun print_frame_loop :: "u8 list \<Rightarrow> nat \<Rightarrow> nat \<Rightarrow> string res" where
  "print_frame_loop buf i 0 = Inr []"
| "print_frame_loop buf i (Suc n) =
     bindE (arr_get buf i) (\<lambda>b. bindE (print_frame_loop buf (i + 1) n) (\<lambda>s. Inr (frame_cell i b @ s)))"

definition print_frame :: "u8 list \<Rightarrow> u32 \<Rightarrow> string res" where
  "print_frame buf len =
     bindE (print_frame_loop buf 0 (unat len)) (\<lambda>s. Inr (s @ [CHR 0x0A] @ replicate 61 CHR ''-''))"

section \<open>The transmit thread\<close>

text \<open>What the thread does with a frame.\<close>

definition pcap_frame :: "bool \<Rightarrow> u8 list \<Rightarrow> u32 \<Rightarrow> pcap_state \<Rightarrow> pcap_state res" where
  "pcap_frame pipe_ok buf len s =
     bindE (print_frame buf len) (\<lambda>t.
       let s = s\<lparr>stdout := stdout s @ ''packet received of length: '' @ fmt_d (sint len) @ [CHR 0x0A] @ t\<rparr> in
       Inr (if fhdone s then s
            else s\<lparr>fhdone := True,
                   piped := (if pipe_ok \<and> 0 \<le> wspipe s then piped s @ file_header_bytes the_header else piped s)\<rparr>))"

definition pcap_entry ::
  "bool \<Rightarrow> nat \<Rightarrow> tx_local \<Rightarrow> backend \<Rightarrow> mem \<Rightarrow> pcap_state \<Rightarrow> (tx_local \<times> backend \<times> mem \<times> pcap_state) res" where
  "pcap_entry pipe_ok fuel l b m s =
     bindE (arr_get (vq b) 1) (\<lambda>q.
     bindE (ring_slot (last_avail_idx q) (t_size l)) (\<lambda>a_idx.
     bindE (load16 m (avail_ring_at (vq_avail q) a_idx)) (\<lambda>d_idx.
     bindE (ring_slot (last_used_idx q) (t_size l)) (\<lambda>u_idx.
     bindE (deq_chain fuel b m (t_desc l) (ucast d_idx) 0 (t_buf l)) (\<lambda>(len, buf).
       if len = 0 then Inl (Exit 1)
       else
         bindE (pcap_frame pipe_ok buf len s) (\<lambda>s.
         bindE (store32 m (used_id_at (t_used l) u_idx) (ucast d_idx)) (\<lambda>m.
         bindE (store32 m (used_len_at (t_used l) u_idx) 1) (\<lambda>m.
           Inr (l\<lparr>t_buf := buf\<rparr>,
                b\<lparr>vq := (vq b)[1 := q\<lparr>last_avail_idx := last_avail_idx q + 1,
                                      last_used_idx := last_used_idx q + 1\<rparr>]\<rparr>,
                m, s)))))))))"

fun pcap_drain ::
  "bool \<Rightarrow> nat \<Rightarrow> nat \<Rightarrow> tx_local \<Rightarrow> backend \<Rightarrow> mem \<Rightarrow> pcap_state \<Rightarrow> (tx_local \<times> backend \<times> mem \<times> pcap_state) res" where
  "pcap_drain pipe_ok 0 fuel l b m s = Inl OutOfFuel"
| "pcap_drain pipe_ok (Suc n) fuel l b m s =
     bindE (arr_get (vq b) 1) (\<lambda>q.
     bindE (load16 m (avail_idx_at (t_avail l))) (\<lambda>idx.
       if last_avail_idx q = idx then Inr (l, b, m, s)
       else bindE (pcap_entry pipe_ok fuel l b m s) (\<lambda>(l, b, m, s). pcap_drain pipe_ok n fuel l b m s)))"

definition pcap_round ::
  "bool \<Rightarrow> nat \<Rightarrow> nat \<Rightarrow> tx_local \<Rightarrow> backend \<Rightarrow> mem \<Rightarrow> pcap_state \<Rightarrow> (tx_local \<times> backend \<times> mem \<times> pcap_state) res" where
  "pcap_round pipe_ok n fuel l b m s =
     bindE (pcap_drain pipe_ok n fuel l b m s) (\<lambda>(l, b, m, s).
     bindE (arr_get (vq b) 1) (\<lambda>q.
     bindE (store16 m (used_idx_at (t_used l)) (last_used_idx q)) (\<lambda>m.
       Inr (l, b, m, s))))"

text \<open>\<^verbatim>\<open>main\<close> opens the pipe, \<open>fd\<close> being the answer, before it starts the server.\<close>

definition pcap_init :: "int \<Rightarrow> pcap_state" where
  "pcap_init fd = \<lparr>wspipe = fd, fhdone = False, piped = [], stdout = []\<rparr>"

section \<open>The stream of frames printed\<close>

definition frame_text :: "u8 list \<Rightarrow> string" where
  "frame_text bs = concat (map (\<lambda>(i, b). frame_cell i b) (enumerate 0 bs)) @ [CHR 0x0A] @ replicate 61 CHR ''-''"

lemma print_frame_loop_eq:
  "i + n \<le> length buf \<Longrightarrow> print_frame_loop buf i n = Inr (concat (map (\<lambda>(i, b). frame_cell i b) (enumerate i (take n (drop i buf)))))"
proof (induction n arbitrary: i)
  case (Suc n)
  then have "drop i buf = buf ! i # drop (Suc i) buf" by (simp add: Cons_nth_drop_Suc)
  then show ?case using Suc.IH[of "Suc i"] Suc.prems by simp
qed simp

lemma print_frame_eq: "unat len \<le> length buf \<Longrightarrow> print_frame buf len = Inr (frame_text (take (unat len) buf))"
  by (simp add: print_frame_def print_frame_loop_eq frame_text_def)

section \<open>The two transmit threads do the same to the guest\<close>

text \<open>Forgetting what was printed and piped, and what was logged.\<close>

definition guest_part :: "(tx_local \<times> backend \<times> mem \<times> 'x) res \<Rightarrow> (tx_local \<times> backend \<times> mem) res" where
  "guest_part r = bindE r (\<lambda>(l, b, m, x). Inr (l, b, m))"

lemma guest_part_simps [simp]: "guest_part (Inl e) = Inl e" "guest_part (Inr (l, b, m, x)) = Inr (l, b, m)"
  by (simp_all add: guest_part_def)

lemma guest_part_bind: "guest_part (bindE r f) = bindE r (\<lambda>x. guest_part (f x))"
  by (simp add: guest_part_def bindE_assoc)

lemma pcap_frame_total:
  assumes "unat len \<le> length buf"
  shows "\<exists>s'. pcap_frame ok buf len s = Inr s'"
  using print_frame_eq[OF assms] by (simp add: pcap_frame_def Let_def)

lemma pcap_frame_pipe:
  assumes "pcap_frame ok buf len s = Inr s'"
  shows "fhdone s'" "wspipe s' = wspipe s"
    "piped s' = (if \<not> fhdone s \<and> ok \<and> 0 \<le> wspipe s then piped s @ file_header_bytes the_header else piped s)"
  using assms by (auto simp: pcap_frame_def Let_def bindE_eq_Inr_iff)

lemma chain_length:
  assumes "deq_chain fuel b m desc i 0 buf = Inr (len, buf')" "length buf = TX_BUF_SIZE"
  shows "unat len \<le> length buf'" "length buf' = TX_BUF_SIZE"
  using deq_chain_sound[OF assms(1) _ assms(2)] by (auto simp: TX_BUF_SIZE_def)

lemma pcap_entry_guest:
  assumes "length (t_buf l) = TX_BUF_SIZE"
  shows "guest_part (pcap_entry ok fuel l b m s) = guest_part (deq_entry fuel l b m)"
proof -
  have frame: "\<exists>s'. pcap_frame ok buf len s = Inr s'"
    if "deq_chain fuel b m desc i 0 (t_buf l) = Inr (len, buf)" for desc i len buf
    using chain_length(1)[OF that assms] by (rule pcap_frame_total)
  show ?thesis
    unfolding pcap_entry_def deq_entry_def guest_part_bind
    by (intro bindE_cong refl) (auto dest!: frame simp: guest_part_bind)
qed

lemma pcap_entry_keeps:
  assumes "pcap_entry ok fuel l b m s = Inr (l', b', m', s')" "length (t_buf l) = TX_BUF_SIZE"
  shows "length (t_buf l') = TX_BUF_SIZE" "fhdone s'" "wspipe s' = wspipe s"
    "piped s' = (if \<not> fhdone s \<and> ok \<and> 0 \<le> wspipe s then piped s @ file_header_bytes the_header else piped s)"
proof -
  obtain desc i len buf where c: "deq_chain fuel b m desc i 0 (t_buf l) = Inr (len, buf)"
    and f: "pcap_frame ok buf len s = Inr s'" and l': "l' = l\<lparr>t_buf := buf\<rparr>"
    using assms(1) unfolding pcap_entry_def by (auto simp: bindE_eq_Inr_iff split: if_splits prod.splits)
  show "length (t_buf l') = TX_BUF_SIZE" using chain_length(2)[OF c assms(2)] l' by simp
  show "fhdone s'" "wspipe s' = wspipe s"
    "piped s' = (if \<not> fhdone s \<and> ok \<and> 0 \<le> wspipe s then piped s @ file_header_bytes the_header else piped s)"
    using pcap_frame_pipe[OF f] by blast+
qed

lemma deq_entry_eq:
  assumes "guest_part (pcap_entry ok fuel l b m s) = guest_part (deq_entry fuel l b m)"
  obtains e where "pcap_entry ok fuel l b m s = Inl e" "deq_entry fuel l b m = Inl e"
  | l' b' m' s' es where "pcap_entry ok fuel l b m s = Inr (l', b', m', s')" "deq_entry fuel l b m = Inr (l', b', m', es)"
  using assms by (cases "pcap_entry ok fuel l b m s"; cases "deq_entry fuel l b m") (auto simp: guest_part_def)

lemma pcap_drain_guest:
  assumes "length (t_buf l) = TX_BUF_SIZE"
  shows "guest_part (pcap_drain ok n fuel l b m s) = guest_part (deq_drain n fuel l b m)"
  using assms
proof (induction n arbitrary: l b m s)
  case (Suc n)
  show ?case
  proof (cases rule: deq_entry_eq[OF pcap_entry_guest[OF Suc.prems, of ok fuel b m s]])
    case (1 e)
    then show ?thesis by (auto simp: guest_part_bind bindE_def split: sum.splits)
  next
    case (2 l' b' m' s' es)
    have IH: "guest_part (pcap_drain ok n fuel l' b' m' s') = guest_part (deq_drain n fuel l' b' m')"
      by (rule Suc.IH[OF pcap_entry_keeps(1)[OF 2(1) Suc.prems]])
    have "guest_part (bindE (deq_drain n fuel l' b' m') (\<lambda>(l, b, m, es'). Inr (l, b, m, es @ es'))) =
        guest_part (deq_drain n fuel l' b' m')"
      by (cases "deq_drain n fuel l' b' m'") (auto simp: guest_part_def)
    then show ?thesis using 2 IH by (auto simp: guest_part_bind intro!: bindE_cong)
  qed
qed simp

lemma pcap_drain_pipe:
  assumes "pcap_drain ok n fuel l b m s = Inr (l', b', m', s')" "length (t_buf l) = TX_BUF_SIZE"
  shows "(fhdone s \<longrightarrow> fhdone s') \<and> wspipe s' = wspipe s \<and>
    piped s' = (if fhdone s' \<and> \<not> fhdone s \<and> ok \<and> 0 \<le> wspipe s then piped s @ file_header_bytes the_header else piped s)"
  using assms
proof (induction n arbitrary: l b m s)
  case (Suc n)
  from Suc.prems(1) consider "s' = s" | l1 b1 m1 s1 where "pcap_entry ok fuel l b m s = Inr (l1, b1, m1, s1)"
      "pcap_drain ok n fuel l1 b1 m1 s1 = Inr (l', b', m', s')"
    by (auto simp: bindE_eq_Inr_iff split: if_splits)
  then show ?case
  proof cases
    case 2
    note k = pcap_entry_keeps[OF 2(1) Suc.prems(2)]
    show ?thesis using Suc.IH[OF 2(2) k(1)] k(2-4) by auto
  qed auto
qed simp

section \<open>What is printed\<close>

definition frame_report :: "u8 list \<Rightarrow> string" where
  "frame_report fr = ''packet received of length: '' @ fmt_u (length fr) @ [CHR 0x0A] @ frame_text fr"

lemma fmt_d_len:
  assumes "unat len < 10240"
  shows "fmt_d (sint (len :: u32)) = fmt_u (unat len)"
proof -
  have "sint (of_nat n :: u32) = int n" if "n < 10240" for n
    using that by (simp add: signed_of_nat signed_take_bit_int_eq_self)
  from this[OF assms] have "sint len = int (unat len)" by simp
  then show ?thesis by (simp add: fmt_d_def)
qed

lemma pcap_entry_prints:
  assumes "pcap_entry ok fuel l b m s = Inr (l', b', m', s')" "length (t_buf l) = TX_BUF_SIZE"
  obtains fr where "deq_received fuel l b m = Inr fr" "stdout s' = stdout s @ frame_report fr"
proof -
  obtain q a d len buf where c: "arr_get (vq b) 1 = Inr q" "ring_slot (last_avail_idx q) (t_size l) = Inr a"
    "load16 m (avail_ring_at (vq_avail q) a) = Inr d"
    "deq_chain fuel b m (t_desc l) (ucast d) 0 (t_buf l) = Inr (len, buf)"
    and f: "pcap_frame ok buf len s = Inr s'"
    using assms(1) unfolding pcap_entry_def by (auto simp: bindE_eq_Inr_iff split: if_splits prod.splits)
  have lt: "unat len < 10240" using deq_chain_sound[OF c(4) _ assms(2)] by auto
  have "stdout s' = stdout s @ frame_report (take (unat len) buf)"
    using f print_frame_eq[OF chain_length(1)[OF c(4) assms(2)]] chain_length(1)[OF c(4) assms(2)] fmt_d_len[OF lt]
    by (auto simp: pcap_frame_def Let_def frame_report_def min_def)
  moreover have "deq_received fuel l b m = Inr (take (unat len) buf)"
    using c by (simp add: deq_received_def)
  ultimately show ?thesis using that by blast
qed

lemma pcap_drain_prints:
  assumes "tx_wf sz l b m" "tx_pending sz l b m hs frs" "sz dvd 65536" "length hs \<le> sz"
  shows "\<exists>f0. \<forall>fuel \<ge> f0. \<forall>s. \<exists>l' b' m' s'.
    pcap_drain ok (Suc (length hs)) fuel l b m s = Inr (l', b', m', s') \<and>
    stdout s' = stdout s @ concat (map frame_report frs)"
  using assms
proof (induction hs arbitrary: l b m frs)
  case Nil
  then show ?case by (auto simp: tx_wf_def tx_pending_def)
next
  case (Cons h hs)
  from Cons.prems(2) obtain fr frs' where frs: "frs = fr # frs'"
    by (cases frs) (auto simp: tx_pending_def)
  let ?l = "l\<lparr>t_buf := fr @ drop (length fr) (t_buf l)\<rparr>" and ?b = "tx_advance 1 b"
  note p = Cons.prems(2)[unfolded frs] and wf = Cons.prems(1)
  have len: "length (vq b) = 2" "0 < sz" "sz \<le> 32768" "length (t_buf l) = TX_BUF_SIZE"
    using wf by (simp_all add: tx_wf_def)
  obtain m1 f1 where e: "\<And>fuel. f1 \<le> fuel \<Longrightarrow> deq_entry fuel l b m = Inr (?l, ?b, m1, [Log ''Packet received''])"
    "agree_off (span (used_id_at (t_used l) (unat (last_used_idx (vq b ! 1)) mod sz)) 8) m m1"
    by (rule tx_pending_entry[OF wf p]) (rule that, assumption+)
  obtain f2 where rec: "\<And>fuel. f2 \<le> fuel \<Longrightarrow> deq_received fuel l b m = Inr fr"
    by (rule tx_pending_received[OF wf p]) (rule that)
  have ag: "agree_off (used_area (t_used l) sz) m m1"
    by (rule agree_off_mono[OF e(2) used_elem_in]) (use len(2) in simp)
  have frl: "length fr < 10240" using tx_pending_nth(4)[OF p, of 0] by (simp add: MAX_LEN_def)
  have wf1: "tx_wf sz ?l ?b m1"
    by (rule tx_wf_step[OF wf ag]) (use len(4) frl in \<open>simp add: TX_BUF_SIZE_def\<close>)
  obtain f3 where ih: "\<And>fuel s. f3 \<le> fuel \<Longrightarrow> \<exists>l' b' m' s'.
      pcap_drain ok (Suc (length hs)) fuel ?l ?b m1 s = Inr (l', b', m', s') \<and>
      stdout s' = stdout s @ concat (map frame_report frs')"
    using Cons.IH[OF wf1 tx_pending_step[OF wf p ag] Cons.prems(3)] Suc_leD[OF Cons.prems(4)[unfolded list.size(4) add_Suc_right add_0_right]]
    by blast
  have step: "\<exists>s1. pcap_entry ok fuel l b m s = Inr (?l, ?b, m1, s1) \<and> stdout s1 = stdout s @ frame_report fr"
    if f: "max f1 f2 \<le> fuel" for fuel s
  proof -
    obtain s1 where s1: "pcap_entry ok fuel l b m s = Inr (?l, ?b, m1, s1)"
      by (rule deq_entry_eq[OF pcap_entry_guest[OF len(4), of ok fuel b m s]]) (use e(1)[of fuel] f in auto)
    then show ?thesis using pcap_entry_prints[OF s1 len(4)] rec[of fuel] f by auto
  qed
  have ne: "load16 m (avail_idx_at (t_avail l)) = Inr (last_avail_idx (vq b ! 1) + of_nat (Suc (length hs)))"
    "last_avail_idx (vq b ! 1) \<noteq> last_avail_idx (vq b ! 1) + of_nat (Suc (length hs))"
    using tx_pendingD(2)[OF p] pending_differs[of "Suc (length hs)" "last_avail_idx (vq b ! 1)"] Cons.prems(4) len(3)
    by simp_all
  have "\<exists>l' b' m' s'. pcap_drain ok (Suc (length (h # hs))) fuel l b m s = Inr (l', b', m', s') \<and>
      stdout s' = stdout s @ concat (map frame_report frs)" if f: "max (max f1 f2) f3 \<le> fuel" for fuel s
  proof -
    obtain s1 where s1: "pcap_entry ok fuel l b m s = Inr (?l, ?b, m1, s1)" "stdout s1 = stdout s @ frame_report fr"
      using step[of fuel s] f by auto
    obtain l' b' m' s' where d: "pcap_drain ok (Suc (length hs)) fuel ?l ?b m1 s1 = Inr (l', b', m', s')"
      "stdout s' = stdout s1 @ concat (map frame_report frs')" using ih[of fuel s1] f by auto
    have "pcap_drain ok (Suc (length (h # hs))) fuel l b m s = Inr (l', b', m', s')"
      using ne len(1) s1(1) d(1) by (simp only: pcap_drain.simps(2)[of ok "length (h # hs)"]) simp
    with s1(2) d(2) frs show ?thesis by auto
  qed
  then show ?case by blast
qed

section \<open>Properties\<close>

text \<open>C23: The copy of the backend that prints frames serves the guest exactly as the original does: for every
  state and memory, a round of its transmit thread ends, fails or runs out of fuel together with a round of
  the other one, with the same rings, indices, buffer and guest memory. The header of the pcap stream
  is written at most once, when the first frame arrives, if the pipe takes it; nothing else ever
  reaches the pipe.\<close>

theorem pcap_round_same:
  assumes "length (t_buf l) = TX_BUF_SIZE"
  shows "guest_part (pcap_round ok n fuel l b m s) = guest_part (deq_round n fuel l b m) \<and>
    (\<forall>l' b' m' s'. pcap_round ok n fuel l b m s = Inr (l', b', m', s') \<longrightarrow> (fhdone s \<longrightarrow> fhdone s') \<and>
       piped s' = (if fhdone s' \<and> \<not> fhdone s \<and> ok \<and> 0 \<le> wspipe s then piped s @ file_header_bytes the_header else piped s))"
proof -
  have "guest_part (pcap_round ok n fuel l b m s) = guest_part (deq_round n fuel l b m)"
    using pcap_drain_guest[OF assms, of ok n fuel b m s]
    by (cases "pcap_drain ok n fuel l b m s"; cases "deq_drain n fuel l b m")
       (auto simp: pcap_round_def deq_round_def guest_part_bind)
  moreover have "(fhdone s \<longrightarrow> fhdone s') \<and>
      piped s' = (if fhdone s' \<and> \<not> fhdone s \<and> ok \<and> 0 \<le> wspipe s then piped s @ file_header_bytes the_header else piped s)"
    if r: "pcap_round ok n fuel l b m s = Inr (l', b', m', s')" for l' b' m' s'
  proof -
    obtain l1 b1 m1 where "pcap_drain ok n fuel l b m s = Inr (l1, b1, m1, s')"
      using r unfolding pcap_round_def by (auto simp: bindE_eq_Inr_iff split: prod.splits)
    then show ?thesis using pcap_drain_pipe[OF _ assms] by blast
  qed
  ultimately show ?thesis by blast
qed

theorem pcap_round_same_witness:
  "guest_part (pcap_round True 2 3 tx_demo_l tx_demo_b tx_demo_mem (pcap_init 3)) =
   guest_part (deq_round 2 3 tx_demo_l tx_demo_b tx_demo_mem) \<and> length (t_buf tx_demo_l) = TX_BUF_SIZE"
proof -
  have "length (t_buf tx_demo_l) = TX_BUF_SIZE" by (simp add: tx_demo_l_def)
  with pcap_round_same[OF this] show ?thesis by blast
qed

text \<open>C30: What the second backend prints. Under the conditions of a round of the transmit thread (rings of
  the same power-of-two size, chains that are neither empty nor too long and do not overlap the used
  ring), the round ends and prints exactly the frames that the guest made available, one report each and
  in order: the length in decimal and the bytes in hexadecimal.\<close>

theorem pcap_round_prints:
  assumes "wf_backend b" "deq_start garbage b = Inr l" "length garbage = TX_BUF_SIZE"
    and "vq_size (vq b ! 0) = of_nat sz" "0 < sz" "sz \<le> 32768" "sz dvd 65536" "length hs \<le> sz"
    and "span (used_idx_at (t_used l)) 2 \<union> used_area (t_used l) sz \<subseteq> dom m"
    and "tx_pending sz l b m hs frs"
  shows "\<exists>f0. \<forall>fuel \<ge> f0. \<exists>l' b' m' s'. pcap_round ok (Suc (length hs)) fuel l b m s = Inr (l', b', m', s') \<and>
    stdout s' = stdout s @ concat (map frame_report frs)"
proof -
  have len: "length (vq b) = 2" using assms(1) by (simp add: wf_backend_def)
  then have "l = \<lparr>t_avail = vq_avail (vq b ! 1), t_used = vq_used (vq b ! 1),
      t_desc = vq_desc (vq b ! 1), t_size = of_nat sz, t_buf = garbage\<rparr>"
    using assms(2,4) by (simp add: deq_start_def)
  with len assms(3,5,6,9) have wf: "tx_wf sz l b m" by (simp add: tx_wf_def)
  obtain f1 where f1: "\<And>fuel s. f1 \<le> fuel \<Longrightarrow> \<exists>l' b' m' s'.
      pcap_drain ok (Suc (length hs)) fuel l b m s = Inr (l', b', m', s') \<and>
      stdout s' = stdout s @ concat (map frame_report frs)"
    using pcap_drain_prints[OF wf assms(10,7,8)] by blast
  obtain l1 m1 f2 where f2: "\<And>fuel. f2 \<le> fuel \<Longrightarrow> deq_drain (Suc (length hs)) fuel l b m =
      Inr (l1, tx_advance (length hs) b, m1, replicate (length hs) (Log ''Packet received''))"
    "t_used l1 = t_used l" "agree_off (used_area (t_used l) sz) m m1"
    using deq_drain_ok[OF wf assms(10,7,8)] by blast
  have "span (used_idx_at (t_used l)) 2 \<subseteq> dom m1" using assms(9) f2(3) by (simp add: agree_off_def)
  then obtain m2 where m2: "store16 m1 (used_idx_at (t_used l)) (last_used_idx (vq b ! 1) + of_nat (length hs)) = Inr m2"
    using c16.st_ok by blast
  have "\<exists>l' b' m' s'. pcap_round ok (Suc (length hs)) fuel l b m s = Inr (l', b', m', s') \<and>
      stdout s' = stdout s @ concat (map frame_report frs)" if f: "max f1 f2 \<le> fuel" for fuel
  proof -
    obtain l' b' m' s' where d: "pcap_drain ok (Suc (length hs)) fuel l b m s = Inr (l', b', m', s')"
      "stdout s' = stdout s @ concat (map frame_report frs)" using f1[of fuel s] f by auto
    have "guest_part (pcap_drain ok (Suc (length hs)) fuel l b m s) = guest_part (deq_drain (Suc (length hs)) fuel l b m)"
      by (rule pcap_drain_guest) (use wf in \<open>simp add: tx_wf_def\<close>)
    with d(1) f2(1)[of fuel] f have "l' = l1" "b' = tx_advance (length hs) b" "m' = m1"
      by (simp_all del: pcap_drain.simps deq_drain.simps)
    then have "pcap_round ok (Suc (length hs)) fuel l b m s = Inr (l1, b', m2, s')"
      using d(1) f2(2) m2 len by (simp add: pcap_round_def del: pcap_drain.simps)
    with d(2) show ?thesis by blast
  qed
  then show ?thesis by blast
qed

theorem pcap_round_prints_witness:
  "\<exists>f0. \<forall>fuel \<ge> f0. \<exists>l' b' m' s'. pcap_round True (Suc (Suc 0)) fuel tx_demo_l tx_demo_b tx_demo_mem (pcap_init 3) =
       Inr (l', b', m', s') \<and>
     stdout s' = ''packet received of length: 3'' @ [CHR 0x0A] @ ''aa bb cc '' @ [CHR 0x0A] @ replicate 61 CHR ''-''"
proof -
  have "span (used_idx_at (t_used tx_demo_l)) 2 \<union> used_area (t_used tx_demo_l) 2 \<subseteq> dom tx_demo_mem"
    by (simp add: used_area_def used_id_at_def used_idx_at_def tx_demo_l_def mem_simps span_Suc
        tx_demo_mem_def dom_def)
  note round = pcap_round_prints[OF _ tx_demo_start, of 2 "[0]" tx_demo_mem "[[170, 187] @ [204]]",
      OF _ _ _ _ _ _ _ this tx_demo_pending]
  have r: "frame_report [170, 187, 204] = ''packet received of length: 3'' @ [CHR 0x0A] @ ''aa bb cc '' @ [CHR 0x0A] @ replicate 61 CHR ''-''"
    by code_simp
  show ?thesis
    using round[of True "pcap_init 3"] r
    by (simp add: wf_backend_def tx_demo_b_def zero_backend_def VHOST_MEMORY_MAX_NREGIONS_def
        zero_vq_def pcap_init_def del: pcap_drain.simps)
qed

text \<open>A header that the pipe does not take is never sent again: the program notes that it has been written
  before it knows.\<close>

lemma pcap_header_lost:
  assumes "unat len \<le> length buf" "\<not> fhdone s"
  shows "\<exists>s'. pcap_frame False buf len s = Inr s' \<and> fhdone s' \<and> piped s' = piped s"
  using print_frame_eq[OF assms(1)] assms(2) by (simp add: pcap_frame_def Let_def)

text \<open>The length field prepared for a frame of fewer than 18 bytes wraps.\<close>

lemma pkt_hdr_wraps: "len < 18 \<Longrightarrow> 2 ^ 32 - 18 \<le> unat (caplen (pkt_hdr_of len))"
  by (auto simp: pkt_hdr_of_def unat_sub_if' word_less_nat_alt)

lemma file_header_size: "length (file_header_bytes h) = 24"
  by (simp add: file_header_bytes_def)

end
