(* ===== verification/Enqueue.thy ===== *)
theory Enqueue
  imports AddrTrans Ring
begin

text \<open>
  The receive path of the backend (\<^verbatim>\<open>enqueue\<close> of src/code_dump/bkend/bkend.c, written to run as a
  thread on queue 0). The thread sends a fixed frame of 10240 bytes, preceded by 48 bytes of
  metadata, to the guest: it collects three buffers, writes metadata and frame into them, and
  puts the three buffers into the used ring.

  \<open>enq_collect\<close> is the loop that collects the buffers, \<open>enq_one\<close> the body of the loop that
  fills them, \<open>enq_step\<close> one iteration of the outer loop.
\<close>

section \<open>Definitions\<close>

definition RX_FRAME_LEN :: u32 where "RX_FRAME_LEN = 10240"
definition META_LEN :: u32 where "META_LEN = 48"
definition RX_NBUFS :: nat where "RX_NBUFS = 3"

text \<open>Size of \<^verbatim>\<open>struct dummy_pkt_with_metadata\<close>: 48 bytes of packed metadata, 12288 of frame.\<close>

definition DUMMY_PKT_SIZE :: nat where "DUMMY_PKT_SIZE = 12336"

record rx_local =
  r_avail :: u64
  r_used :: u64
  r_desc :: u64
  r_size :: u32
  r_pkt :: "u8 list"

text \<open>
  The packed metadata: the number of buffers (2 bytes), the flags (1 byte) and the palladium
  part, whose first field is the type (8 bytes); the remaining 37 bytes are time stamps and
  reserved space.
\<close>

definition ixverify_meta :: "u16 \<Rightarrow> u8 \<Rightarrow> u64 \<Rightarrow> u8 list \<Rightarrow> u8 list" where
  "ixverify_meta mrg_num_buffers generic_flags metadata_type rest =
     le_bytes 2 mrg_num_buffers @ [generic_flags] @ le_bytes 8 metadata_type @ rest"

text \<open>\<open>garbage\<close> is the content of the block that \<^verbatim>\<open>malloc\<close> returned.\<close>

definition enq_start :: "u8 list \<Rightarrow> backend \<Rightarrow> rx_local res" where
  "enq_start garbage b =
     bindE (arr_get (vq b) 0) (\<lambda>q.
     bindE (buf_write garbage 0 (replicate (unat (RX_FRAME_LEN + META_LEN)) 0)) (\<lambda>pkt.
       Inr \<lparr>r_avail = vq_avail q, r_used = vq_used q, r_desc = vq_desc q, r_size = vq_size q,
            r_pkt = ixverify_meta (of_nat RX_NBUFS) 0 (4 OR 2) (drop 11 pkt)\<rparr>))"

definition rx_slot :: "u16 \<Rightarrow> u32 \<Rightarrow> nat res" where
  "rx_slot idx sz = (if sz = 0 then Inl DivideByZero else Inr (unat idx mod unat sz))"

text \<open>
  The loop that collects buffers; its first argument is \<^verbatim>\<open>nbufs - nbufs_cnt\<close>. A descriptor that
  is not writable ends the loop early. After every buffer the index of the next one is read:
  the linked descriptor, or else the next entry of the available ring.
\<close>

fun enq_collect ::
  "nat \<Rightarrow> rx_local \<Rightarrow> mem \<Rightarrow> u16 \<Rightarrow> u16 \<Rightarrow> nat \<Rightarrow> buf_vector list \<Rightarrow>
   (nat \<times> buf_vector list \<times> event list) res" where
  "enq_collect 0 l m i a_idx cnt bv = Inr (cnt, bv, [])"
| "enq_collect (Suc k) l m i a_idx cnt bv =
     bindE (load16 m (desc_flags_at (r_desc l) (unat i))) (\<lambda>fl.
       if fl AND VRING_DESC_F_WRITE = 0
       then Inr (cnt, bv, [Log (''Error: descriptor is not writable. Dropping index: '' @ fmt_d (uint i))])
       else
         bindE (load64 m (desc_addr_at (r_desc l) (unat i))) (\<lambda>addr.
         bindE (load32 m (desc_len_at (r_desc l) (unat i))) (\<lambda>len.
         bindE (arr_set bv cnt \<lparr>buf_addr = addr, buf_len = len, desc_idx = ucast i\<rparr>) (\<lambda>bv.
           if fl AND VRING_DESC_F_NEXT \<noteq> 0 then
             bindE (load16 m (desc_next_at (r_desc l) (unat i))) (\<lambda>nxt.
               enq_collect k l m nxt a_idx (Suc cnt) bv)
           else
             bindE (rx_slot (a_idx + 1) (r_size l)) (\<lambda>s.
             bindE (load16 m (avail_ring_at (r_avail l) s)) (\<lambda>nxt.
               enq_collect k l m nxt (a_idx + 1) (Suc cnt) bv))))))"

text \<open>The variables of the loop that fills the buffers.\<close>

record rx_write =
  w_written :: u32
  w_remaining :: u32
  w_uidx :: nat
  w_bk :: backend
  w_mem :: mem

text \<open>Reading \<open>n\<close> bytes of the dummy packet from offset \<open>off\<close>.\<close>

definition pkt_bytes :: "rx_local \<Rightarrow> nat \<Rightarrow> nat \<Rightarrow> u8 list res" where
  "pkt_bytes l off n =
     (if off + n \<le> length (r_pkt l) then Inr (take n (drop off (r_pkt l))) else Inl OutOfBounds)"

definition put_used :: "rx_local \<Rightarrow> nat \<Rightarrow> u32 \<Rightarrow> u32 \<Rightarrow> mem \<Rightarrow> mem res" where
  "put_used l u_idx d n m =
     bindE (store32 m (used_id_at (r_used l) u_idx) d) (\<lambda>m.
       store32 m (used_len_at (r_used l) u_idx) n)"

text \<open>\<^verbatim>\<open>vq->last_avail_idx++\<close>, \<^verbatim>\<open>vq->last_used_idx++\<close>, and the used index made visible.\<close>

definition enq_publish :: "rx_local \<Rightarrow> rx_write \<Rightarrow> rx_write res" where
  "enq_publish l w =
     bindE (arr_get (vq (w_bk w)) 0) (\<lambda>q.
       let q = q\<lparr>last_avail_idx := last_avail_idx q + 1, last_used_idx := last_used_idx q + 1\<rparr> in
       bindE (store16 (w_mem w) (used_idx_at (r_used l)) (last_used_idx q)) (\<lambda>m.
       bindE (rx_slot (last_used_idx q) (r_size l)) (\<lambda>u.
         Inr (w\<lparr>w_bk := (w_bk w)\<lparr>vq := (vq (w_bk w))[0 := q]\<rparr>, w_mem := m, w_uidx := u\<rparr>))))"

definition enq_one :: "rx_local \<Rightarrow> nat \<Rightarrow> rx_write \<Rightarrow> rx_write res" where
  "enq_one l cnt w =
     bindE (arr_get (buf_vec (w_bk w)) cnt) (\<lambda>bv.
     bindE (gpa_to_va (buf_addr bv) 0 (w_bk w)) (\<lambda>desc_addr.
       if cnt = 0 then
         bindE (pkt_bytes l 0 (unat META_LEN)) (\<lambda>meta.
         bindE (store (w_mem w) desc_addr meta) (\<lambda>m.
         let chunk_to_write = min (w_remaining w) (buf_len bv - META_LEN) in
         bindE (pkt_bytes l (unat META_LEN) (unat chunk_to_write)) (\<lambda>bs.
         bindE (store m (desc_addr + ucast META_LEN) bs) (\<lambda>m.
         bindE (put_used l (w_uidx w) (desc_idx bv) (chunk_to_write + META_LEN) m) (\<lambda>m.
           enq_publish l (w\<lparr>w_remaining := w_remaining w - chunk_to_write,
             w_written := w_written w + chunk_to_write, w_mem := m\<rparr>))))))
       else
         let chunk_to_write = min (w_remaining w) (buf_len bv) in
         bindE (pkt_bytes l (unat META_LEN + unat (w_written w)) (unat chunk_to_write)) (\<lambda>bs.
         bindE (store (w_mem w) desc_addr bs) (\<lambda>m.
         bindE (put_used l (w_uidx w) (desc_idx bv) chunk_to_write m) (\<lambda>m.
           enq_publish l (w\<lparr>w_remaining := w_remaining w - chunk_to_write,
             w_written := w_written w + chunk_to_write, w_mem := m\<rparr>))))))"

fun enq_fill :: "rx_local \<Rightarrow> nat list \<Rightarrow> rx_write \<Rightarrow> rx_write res" where
  "enq_fill l [] w = Inr w"
| "enq_fill l (c # cs) w = bindE (enq_one l c w) (enq_fill l cs)"

text \<open>The event for the guest, unless it has switched notifications off.\<close>

definition enq_kick :: "backend \<Rightarrow> mem \<Rightarrow> event list res" where
  "enq_kick b m =
     bindE (arr_get (vq b) 0) (\<lambda>q.
     bindE (load16 m (avail_flags_at (vq_avail q))) (\<lambda>fl.
       Inr (if fl AND VRING_AVAIL_F_NO_INTERRUPT = 0 then [EventFd (call_fd q) 1] else [])))"

text \<open>Counting the frames. The result is False when the thread ends here; \<open>took\<close> is the elapsed time
  as \<^verbatim>\<open>%f\<close> prints it.\<close>

definition enq_count :: "string \<Rightarrow> backend \<Rightarrow> bool \<times> backend \<times> event list" where
  "enq_count took b =
     (let b = b\<lparr>rxcnt := rxcnt b + 1\<rparr> in
      if rxcnt b = 1 then (True, b, [])
      else if rxcnt b = NUM_RX_FRAMES
      then (False, b\<lparr>rxcnt := 0\<rparr>, [Log (''Receive Side: Time taken: '' @ took)])
      else (True, b, []))"

definition enq_packet ::
  "string \<Rightarrow> rx_local \<Rightarrow> backend \<Rightarrow> mem \<Rightarrow> (bool \<times> backend \<times> mem \<times> event list) res" where
  "enq_packet took l b m =
     bindE (arr_get (vq b) 0) (\<lambda>q.
     bindE (rx_slot (last_avail_idx q) (r_size l)) (\<lambda>a_idx.
     bindE (rx_slot (last_used_idx q) (r_size l)) (\<lambda>u_idx.
     bindE (load16 m (avail_ring_at (r_avail l) a_idx)) (\<lambda>d_idx.
     bindE (enq_collect RX_NBUFS l m d_idx (of_nat a_idx) 0 (buf_vec b)) (\<lambda>(cnt, bv, es1).
       if cnt \<noteq> RX_NBUFS then Inl (AssertFail ''nbufs_cnt==nbufs'')
       else
         bindE (enq_fill l [0..<RX_NBUFS]
                  \<lparr>w_written = 0, w_remaining = RX_FRAME_LEN, w_uidx = u_idx,
                   w_bk = b\<lparr>buf_vec := bv\<rparr>, w_mem = m\<rparr>) (\<lambda>w.
         bindE (enq_kick (w_bk w) (w_mem w)) (\<lambda>es2.
           case enq_count took (w_bk w) of (go, b, es3) \<Rightarrow>
             Inr (go, b, w_mem w, es1 @ es2 @ es3))))))))"

text \<open>One iteration of the outer loop; the result is False when the loop or the thread ends.\<close>

definition enq_step ::
  "string \<Rightarrow> rx_local \<Rightarrow> backend \<Rightarrow> mem \<Rightarrow> (bool \<times> backend \<times> mem \<times> event list) res" where
  "enq_step took l b m =
     (if rxcnt b < NUM_RX_FRAMES then
        bindE (arr_get (vq b) 0) (\<lambda>q.
        bindE (load16 m (avail_idx_at (r_avail l))) (\<lambda>avail_index.
          if last_avail_idx q \<noteq> avail_index then enq_packet took l b m
          else Inr (True, b, m, [])))
      else Inr (False, b, m, []))"

end
