(* ===== verification/EnqProps.thy ===== *)
theory EnqProps
  imports Enqueue
begin

text \<open>
  Correctness of the receive path (\<^verbatim>\<open>enqueue\<close> of src/code_dump/bkend/bkend.c): with three
  sufficient buffers the guest gets the metadata and the frame in order, and the used ring says
  which buffers hold how much. The last part states what happens when the guest offered fewer
  buffers or shorter ones.
\<close>

section \<open>Definitions of the specification\<close>

text \<open>The device state after \<open>n\<close> buffers of the receive queue were used.\<close>

definition rx_advance :: "nat \<Rightarrow> backend \<Rightarrow> backend" where
  "rx_advance n b =
     b\<lparr>vq := (vq b)[0 := (vq b ! 0)\<lparr>last_avail_idx := last_avail_idx (vq b ! 0) + of_nat n,
                                    last_used_idx := last_used_idx (vq b ! 0) + of_nat n\<rparr>]\<rparr>"

text \<open>Buffer at \<open>va\<close> holds \<open>bs\<close>, and element \<open>u\<close> of the used ring says so.\<close>

definition rx_filled :: "u64 \<Rightarrow> mem \<Rightarrow> nat \<Rightarrow> u64 \<Rightarrow> u32 \<Rightarrow> u8 list \<Rightarrow> bool" where
  "rx_filled used m u va d bs \<longleftrightarrow>
     load m va (length bs) = Inr bs \<and> load32 m (used_id_at used u) = Inr d \<and>
     load32 m (used_len_at used u) = Inr (of_nat (length bs))"

text \<open>The notification of the guest after a packet, for the flags it keeps in the available ring.\<close>

definition rx_kick :: "vh_virtqueue \<Rightarrow> u16 \<Rightarrow> event list" where
  "rx_kick q fl = (if fl AND VRING_AVAIL_F_NO_INTERRUPT = 0 then [EventFd (call_fd q) 1] else [])"

section \<open>Indices\<close>

lemma rx_advance_simps [simp]:
  assumes "vq b \<noteq> []"
  shows "vq (rx_advance n b) ! 0 = (vq b ! 0)\<lparr>last_avail_idx := last_avail_idx (vq b ! 0) + of_nat n,
      last_used_idx := last_used_idx (vq b ! 0) + of_nat n\<rparr>"
    "rx_advance k (rx_advance n b) = rx_advance (k + n) b"
  using assms by (simp_all add: rx_advance_def ac_simps)

lemma rx_advance_fields [simp]:
  "nregions (rx_advance n b) = nregions b" "regions (rx_advance n b) = regions b"
  "buf_vec (rx_advance n b) = buf_vec b" "rxcnt (rx_advance n b) = rxcnt b"
  "length (vq (rx_advance n b)) = length (vq b)" "vq (rx_advance n b) = [] \<longleftrightarrow> vq b = []"
  by (simp_all add: rx_advance_def)

lemma rx_advance_0 [simp]: "rx_advance 0 b = b"
  by (cases "vq b") (simp_all add: rx_advance_def)

lemma enq_publish_bk: "enq_publish l w = Inr w' \<Longrightarrow> w_bk w' = rx_advance 1 (w_bk w)"
  by (auto simp: enq_publish_def bindE_eq_Inr_iff arr_get_eq_Inr Let_def rx_advance_def)

lemma enq_one_bk: "enq_one l c w = Inr w' \<Longrightarrow> w_bk w' = rx_advance 1 (w_bk w)"
  by (auto simp: enq_one_def bindE_eq_Inr_iff Let_def dest!: enq_publish_bk split: if_splits)

lemma enq_fill_bk:
  "enq_fill l cs w = Inr w' \<Longrightarrow> vq (w_bk w) \<noteq> [] \<Longrightarrow> w_bk w' = rx_advance (length cs) (w_bk w)"
proof (induction cs arbitrary: w)
  case (Cons c cs)
  then obtain w1 where "enq_one l c w = Inr w1" "enq_fill l cs w1 = Inr w'"
    by (auto simp: bindE_eq_Inr_iff)
  with Cons enq_one_bk[of l c w w1] show ?case by simp
qed simp

lemma enq_collect_length:
  "enq_collect k l m i a cnt bv = Inr (cnt', bv', es) \<Longrightarrow> length bv' = length bv"
proof (induction k arbitrary: i a cnt bv es)
  case (Suc k)
  then show ?case
    by (auto simp: bindE_eq_Inr_iff arr_set_def split: if_splits dest!: Suc.IH)
qed simp

text \<open>What a packet does to the device, whatever the guest has offered.\<close>

lemma enq_packet_advance:
  assumes "enq_packet took l b m = Inr (go, b', m', es)"
  obtains bv where "b' = (rx_advance 3 b)\<lparr>buf_vec := bv, rxcnt := rxcnt (fst (snd (enq_count took b)))\<rparr>"
    "length bv = length (buf_vec b)" "go = fst (enq_count took b)"
proof -
  from assms obtain bv w u i a es1 where
    f: "enq_fill l [0..<3] \<lparr>w_written = 0, w_remaining = RX_FRAME_LEN, w_uidx = u,
          w_bk = b\<lparr>buf_vec := bv\<rparr>, w_mem = m\<rparr> = Inr w"
    and c: "go = fst (enq_count took (w_bk w))" "b' = fst (snd (enq_count took (w_bk w)))"
    and ne: "vq b \<noteq> []" and col: "enq_collect 3 l m i a 0 (buf_vec b) = Inr (3, bv, es1)"
    by (auto simp: enq_packet_def bindE_eq_Inr_iff RX_NBUFS_def arr_get_eq_Inr case_prod_beta
        split: if_splits)
  have w: "w_bk w = (rx_advance 3 b)\<lparr>buf_vec := bv\<rparr>"
    using enq_fill_bk[OF f] ne by (simp add: rx_advance_def)
  show ?thesis
  proof (rule that)
    show "b' = (rx_advance 3 b)\<lparr>buf_vec := bv, rxcnt := rxcnt (fst (snd (enq_count took b)))\<rparr>"
      using c(2) unfolding w by (auto simp: enq_count_def Let_def rx_advance_def split: if_splits)
    show "go = fst (enq_count took b)"
      using c(1) unfolding w by (auto simp: enq_count_def Let_def rx_advance_def split: if_splits)
  qed (rule enq_collect_length[OF col])
qed

section \<open>Filling one buffer\<close>

lemma enq_one_flat:
  assumes "cnt < length (buf_vec (w_bk w))" and bv: "bv = buf_vec (w_bk w) ! cnt"
    and "gpa_to_va (buf_addr bv) 0 (w_bk w) = Inr va" and "length (r_pkt l) = DUMMY_PKT_SIZE"
    and h: "hdr = (if cnt = 0 then 48 else 0)" and "hdr \<le> unat (buf_len bv)"
    and c: "c = min (unat (w_remaining w)) (unat (buf_len bv) - hdr)"
    and sum: "unat (w_written w) + unat (w_remaining w) = 10240" and "cnt = 0 \<Longrightarrow> w_written w = 0"
  shows "enq_one l cnt w =
    bindE (store (w_mem w) va (take hdr (r_pkt l) @ take c (drop (48 + unat (w_written w)) (r_pkt l))))
      (\<lambda>m. bindE (put_used l (w_uidx w) (desc_idx bv) (of_nat (hdr + c)) m) (\<lambda>m.
        enq_publish l (w\<lparr>w_remaining := w_remaining w - of_nat c,
          w_written := w_written w + of_nat c, w_mem := m\<rparr>)))"
proof -
  have "min (w_remaining w) (buf_len bv - of_nat hdr) = of_nat c"
  proof -
    have "unat (of_nat hdr :: u32) = hdr" by (simp add: h)
    then have "unat (buf_len bv - of_nat hdr) = unat (buf_len bv) - hdr"
      using assms(6) by (simp add: unat_sub word_le_nat_alt)
    then have "unat (min (w_remaining w) (buf_len bv - of_nat hdr)) = c"
      unfolding c by (auto simp: min_def word_le_nat_alt)
    then have "(of_nat (unat (min (w_remaining w) (buf_len bv - of_nat hdr))) :: u32) = of_nat c"
      by (rule arg_cong)
    then show ?thesis by simp
  qed
  note chunk = this
  have small: "unat (of_nat c :: u32) = c" "unat (w_written w) + c \<le> 10240"
    using c sum by (simp_all add: unat_of_nat)
  show ?thesis
  proof (cases "cnt = 0")
    case True
    then have "min (w_remaining w) (buf_len bv - META_LEN) = of_nat c" "hdr = 48" "w_written w = 0"
      using chunk h assms(9) by (simp_all add: META_LEN_def)
    moreover have "length (take 48 (r_pkt l)) = 48" "unat META_LEN = 48" "ucast META_LEN = (48 :: u64)"
      "of_nat (48 + c) = of_nat c + META_LEN"
      using assms(4) by (simp_all add: DUMMY_PKT_SIZE_def META_LEN_def)
    moreover have "arr_get (buf_vec (w_bk w)) 0 = Inr bv" using True assms(1) bv by simp
    ultimately show ?thesis
      using True assms(3,4) small
      by (simp del: length_take of_nat_add unsigned_of_nat
          add: enq_one_def store_append bindE_assoc pkt_bytes_def DUMMY_PKT_SIZE_def
            Let_def)
  next
    case False
    then have "min (w_remaining w) (buf_len bv) = of_nat c" "hdr = 0" using chunk h by simp_all
    with False assms(1,3,4) small show ?thesis
      by (simp add: enq_one_def bv[symmetric] META_LEN_def pkt_bytes_def DUMMY_PKT_SIZE_def Let_def)
  qed
qed

definition rx_ring_fp :: "rx_local \<Rightarrow> nat \<Rightarrow> u64 set" where
  "rx_ring_fp l u = span (used_idx_at (r_used l)) 2 \<union> span (used_id_at (r_used l) u) 8"

lemma used_idx_apart: "u < 32768 \<Longrightarrow> span (used_idx_at a) 2 \<inter> span (used_id_at a u) 8 = {}"
  using span_apart[of 2 2 "4 + 8 * u" 8 a] by (simp add: used_idx_at_def used_id_at_def)

lemma put_used_ok:
  assumes "span (used_id_at (r_used l) u) 8 \<subseteq> dom m"
  obtains m' where "put_used l u d n m = Inr m'" "agree_off (span (used_id_at (r_used l) u) 8) m m'"
    "load32 m' (used_id_at (r_used l) u) = Inr d" "load32 m' (used_len_at (r_used l) u) = Inr n"
proof -
  note sp = used_elem_spans[of "r_used l" u]
  obtain m1 where m1: "store32 m (used_id_at (r_used l) u) d = Inr m1"
    using c32.st_ok[of "used_id_at (r_used l) u" m d] sp(3) assms by auto
  have "span (used_len_at (r_used l) u) 4 \<subseteq> dom m1" using c32.st_dom[OF m1] sp(1) assms by auto
  then obtain m2 where m2: "store32 m1 (used_len_at (r_used l) u) n = Inr m2"
    using c32.st_ok[of "used_len_at (r_used l) u" m1 n] by auto
  show ?thesis
  proof (rule that)
    show "put_used l u d n m = Inr m2" using m1 m2 by (simp add: put_used_def)
    show "agree_off (span (used_id_at (r_used l) u) 8) m m2"
      by (rule agree_off_step[OF c32.st_agree_in[OF m1 sp(3)] c32.st_agree[OF m2] sp(1)])
    show "load32 m2 (used_len_at (r_used l) u) = Inr n" by (rule c32.ld_st[OF m2])
    show "load32 m2 (used_id_at (r_used l) u) = Inr d"
      using c32.ld_st_apart[OF m2 sp(2)] c32.ld_st[OF m1] by simp
  qed
qed

lemma rx_filled_agree:
  assumes "rx_filled used m u va d bs" "agree_off S m m'"
    and "span va (length bs) \<inter> S = {}" "span (used_id_at used u) 8 \<inter> S = {}"
  shows "rx_filled used m' u va d bs"
  using assms load_agree[OF assms(2,3)] used_elem_agree[OF assms(2,4)] by (simp add: rx_filled_def)

lemma enq_publish_ok:
  assumes "vq (w_bk w) \<noteq> []" "r_size l = of_nat sz" "0 < sz" "sz \<le> 32768"
    and "span (used_idx_at (r_used l)) 2 \<subseteq> dom (w_mem w)"
  obtains m' where "enq_publish l w =
      Inr (w\<lparr>w_bk := rx_advance 1 (w_bk w), w_mem := m',
             w_uidx := unat (last_used_idx (vq (w_bk w) ! 0) + 1) mod sz\<rparr>)"
    "agree_off (span (used_idx_at (r_used l)) 2) (w_mem w) m'"
    "load16 m' (used_idx_at (r_used l)) = Inr (last_used_idx (vq (w_bk w) ! 0) + 1)"
proof -
  have sz: "r_size l \<noteq> 0" "unat (r_size l) = sz"
  proof -
    show u: "unat (r_size l) = sz" using assms(2,4) by (simp add: unat_of_nat)
    show "r_size l \<noteq> 0" using u assms(3) by auto
  qed
  obtain m' where m': "store16 (w_mem w) (used_idx_at (r_used l))
      (last_used_idx (vq (w_bk w) ! 0) + 1) = Inr m'"
    using c16.st_ok[OF assms(5)] by blast
  show ?thesis
    by (rule that[OF _ c16.st_agree[OF m'] c16.ld_st[OF m']])
       (use assms(1) m' sz in \<open>simp add: enq_publish_def Let_def rx_slot_def rx_advance_def\<close>)
qed

lemma enq_one_ok:
  assumes flat: "enq_one l cnt w = bindE (store (w_mem w) va bs)
      (\<lambda>m. bindE (put_used l (w_uidx w) d (of_nat (length bs)) m) (\<lambda>m.
        enq_publish l (w0\<lparr>w_mem := m\<rparr>)))"
    and f: "w_bk w0 = w_bk w"
    and sz: "vq (w_bk w) \<noteq> []" "r_size l = of_nat sz" "0 < sz" "sz \<le> 32768" "w_uidx w < sz"
    and dom: "span va (length bs) \<subseteq> dom (w_mem w)" "rx_ring_fp l (w_uidx w) \<subseteq> dom (w_mem w)"
    and apart: "span va (length bs) \<inter> rx_ring_fp l (w_uidx w) = {}" and len: "length bs \<le> 2 ^ 64"
  obtains m' where
    "enq_one l cnt w = Inr (w0\<lparr>w_bk := rx_advance 1 (w_bk w), w_mem := m',
       w_uidx := unat (last_used_idx (vq (w_bk w) ! 0) + 1) mod sz\<rparr>)"
    "agree_off (span va (length bs) \<union> rx_ring_fp l (w_uidx w)) (w_mem w) m'"
    "rx_filled (r_used l) m' (w_uidx w) va d bs"
    "load16 m' (used_idx_at (r_used l)) = Inr (last_used_idx (vq (w_bk w) ! 0) + 1)"
proof -
  let ?I = "span (used_idx_at (r_used l)) 2" and ?E = "span (used_id_at (r_used l) (w_uidx w)) 8"
  obtain m1 where m1: "store (w_mem w) va bs = Inr m1" using store_ok[OF dom(1)] by blast
  note ag1 = store_agree[OF m1]
  have "?E \<subseteq> dom m1" using dom(2) ag1 by (auto simp: agree_off_def rx_ring_fp_def)
  from put_used_ok[OF this] obtain m2 where m2:
    "put_used l (w_uidx w) d (of_nat (length bs)) m1 = Inr m2" "agree_off ?E m1 m2"
    "load32 m2 (used_id_at (r_used l) (w_uidx w)) = Inr d"
    "load32 m2 (used_len_at (r_used l) (w_uidx w)) = Inr (of_nat (length bs))" by metis
  have "?I \<subseteq> dom (w_mem (w0\<lparr>w_mem := m2\<rparr>))"
    using dom(2) ag1 m2(2) f by (auto simp: agree_off_def rx_ring_fp_def)
  from enq_publish_ok[OF _ sz(2-4) this] sz(1) f obtain m3 where m3:
    "enq_publish l (w0\<lparr>w_mem := m2\<rparr>) = Inr (w0\<lparr>w_bk := rx_advance 1 (w_bk w), w_mem := m3,
       w_uidx := unat (last_used_idx (vq (w_bk w) ! 0) + 1) mod sz\<rparr>)"
    "agree_off ?I m2 m3"
    "load16 m3 (used_idx_at (r_used l)) = Inr (last_used_idx (vq (w_bk w) ! 0) + 1)" by auto
  have a: "agree_off (?E \<union> ?I) m1 m3" by (rule agree_off_trans[OF m2(2) m3(2)])
  have "load m3 va (length bs) = Inr bs"
    using load_agree[OF a, of va "length bs"] load_store[OF m1 len] apart
    by (simp add: rx_ring_fp_def inf_sup_distrib1 Un_commute)
  moreover have "?E \<inter> ?I = {}" using used_idx_apart[of "w_uidx w" "r_used l"] sz(4,5) by auto
  ultimately have "rx_filled (r_used l) m3 (w_uidx w) va d bs"
    using m2(3,4) used_elem_agree[OF m3(2)] by (simp add: rx_filled_def)
  moreover have "agree_off (span va (length bs) \<union> rx_ring_fp l (w_uidx w)) (w_mem w) m3"
    using agree_off_trans[OF ag1 a] by (simp add: rx_ring_fp_def Un_commute)
  ultimately show ?thesis using that[of m3] flat m1 m2(1) m3(1,3) by simp
qed

lemma piece_bytes:
  fixes s :: nat and pkt :: "u8 list"
  assumes s: "if cnt = (0::nat) then s = 0 \<and> 48 \<le> n else 48 \<le> s"
  shows "take (if cnt = 0 then 48 else 0) pkt @
      take (min (10240 - (s - 48)) (n - (if cnt = 0 then 48 else 0)))
        (drop (48 + min 10240 (s - 48)) pkt) = take n (drop s (take 10288 pkt))"
proof (cases "cnt = 0")
  case True
  with s have n: "s = 0" "48 \<le> n" by simp_all
  have "take 48 pkt @ take (min 10240 (n - 48)) (drop 48 pkt) = take (48 + min 10240 (n - 48)) pkt"
    by (rule take_add[symmetric])
  moreover have "48 + min 10240 (n - 48) = min n 10288" using n by auto
  ultimately show ?thesis using True n by simp
next
  case False
  with s have "48 \<le> s" by simp
  with False show ?thesis by (cases "s \<le> 10288") (simp_all add: drop_take min.commute)
qed

text \<open>\<open>s\<close> is the number of bytes of packet (metadata and frame) that earlier buffers could hold; \<open>L\<close> is
  the length of this one.\<close>

lemma enq_stage:
  assumes cnt: "cnt < length (buf_vec (w_bk w))"
    and bv: "buf_vec (w_bk w) ! cnt = \<lparr>buf_addr = addr, buf_len = L, desc_idx = d\<rparr>"
    and va: "gpa_to_va addr 0 (w_bk w) = Inr va" and pkt: "length (r_pkt l) = DUMMY_PKT_SIZE"
    and s: "if cnt = 0 then s = 0 \<and> 48 \<le> unat L else 48 \<le> s"
    and w: "w_written w = of_nat (min 10240 (s - 48))" "w_remaining w = of_nat (10240 - (s - 48))"
    and sz: "vq (w_bk w) \<noteq> []" "r_size l = of_nat sz" "0 < sz" "sz \<le> 32768" "w_uidx w < sz"
    and dom: "span va (unat L) \<subseteq> dom (w_mem w)" "rx_ring_fp l (w_uidx w) \<subseteq> dom (w_mem w)"
    and apart: "span va (unat L) \<inter> rx_ring_fp l (w_uidx w) = {}"
  obtains m' where
    "enq_one l cnt w = Inr \<lparr>w_written = of_nat (min 10240 (s + unat L - 48)),
       w_remaining = of_nat (10240 - (s + unat L - 48)),
       w_uidx = unat (last_used_idx (vq (w_bk w) ! 0) + 1) mod sz,
       w_bk = rx_advance 1 (w_bk w), w_mem = m'\<rparr>"
    "agree_off (span va (unat L) \<union> rx_ring_fp l (w_uidx w)) (w_mem w) m'"
    "rx_filled (r_used l) m' (w_uidx w) va d (take (unat L) (drop s (take 10288 (r_pkt l))))"
    "load16 m' (used_idx_at (r_used l)) = Inr (last_used_idx (vq (w_bk w) ! 0) + 1)"
proof -
  let ?hdr = "if cnt = 0 then 48 else 0 :: nat"
  let ?c = "min (10240 - (s - 48)) (unat L - ?hdr)"
  let ?bs = "take (unat L) (drop s (take 10288 (r_pkt l)))"
  have un: "unat (w_written w) = min 10240 (s - 48)" "unat (w_remaining w) = 10240 - (s - 48)"
    by (simp_all add: w unat_of_nat)
  have bs: "take ?hdr (r_pkt l) @ take ?c (drop (48 + unat (w_written w)) (r_pkt l)) = ?bs"
    unfolding un by (rule piece_bytes[OF s])
  have len: "length ?bs = ?hdr + ?c" using s pkt by (auto simp: DUMMY_PKT_SIZE_def min_def)
  have lenL: "length ?bs \<le> unat L" by simp
  let ?w0 = "w\<lparr>w_remaining := w_remaining w - of_nat ?c, w_written := w_written w + of_nat ?c\<rparr>"
  have flat: "enq_one l cnt w = bindE (store (w_mem w) va ?bs)
      (\<lambda>m. bindE (put_used l (w_uidx w) d (of_nat (length ?bs)) m) (\<lambda>m. enq_publish l (?w0\<lparr>w_mem := m\<rparr>)))"
    unfolding bs[symmetric] len[folded bs]
    by (subst enq_one_flat[OF cnt refl, where hdr = ?hdr and c = ?c and va = va])
       (use bv va pkt s un in \<open>simp_all add: unsigned_eq_0_iff split: if_splits\<close>)
  have sub: "span va (length ?bs) \<subseteq> span va (unat L)" by (rule span_mono[OF lenL])
  have "span va (length ?bs) \<subseteq> dom (w_mem w)" "span va (length ?bs) \<inter> rx_ring_fp l (w_uidx w) = {}"
    "length ?bs \<le> 2 ^ 64" "w_bk ?w0 = w_bk w"
    using sub dom(1) apart by (blast, blast, simp, simp)
  note prem = this
  obtain m' where m':
    "enq_one l cnt w = Inr (?w0\<lparr>w_bk := rx_advance 1 (w_bk w), w_mem := m',
       w_uidx := unat (last_used_idx (vq (w_bk w) ! 0) + 1) mod sz\<rparr>)"
    "agree_off (span va (length ?bs) \<union> rx_ring_fp l (w_uidx w)) (w_mem w) m'"
    "rx_filled (r_used l) m' (w_uidx w) va d ?bs"
    "load16 m' (used_idx_at (r_used l)) = Inr (last_used_idx (vq (w_bk w) ! 0) + 1)"
    by (rule enq_one_ok[OF flat prem(4) sz prem(1) dom(2) prem(2,3)]) (rule that, assumption+)
  have "w_written ?w0 = of_nat (min 10240 (s + unat L - 48))"
    "w_remaining ?w0 = of_nat (10240 - (s + unat L - 48))"
  proof -
    have "min 10240 (s - 48) + ?c = min 10240 (s + unat L - 48)"
      "10240 - (s - 48) - ?c = 10240 - (s + unat L - 48)" using s by (auto split: if_splits)
    moreover have "w_written ?w0 = of_nat (min 10240 (s - 48) + ?c)" by (simp add: w(1))
    moreover have "w_remaining ?w0 = of_nat (10240 - (s - 48) - ?c)"
      using of_nat_diff[of ?c "10240 - (s - 48)", where 'a = "32 word"] by (simp add: w(2))
    ultimately show "w_written ?w0 = of_nat (min 10240 (s + unat L - 48))"
      "w_remaining ?w0 = of_nat (10240 - (s + unat L - 48))" by metis+
  qed
  with m' agree_off_mono[OF m'(2), of "span va (unat L) \<union> rx_ring_fp l (w_uidx w)"] sub
  show ?thesis by (intro that[of m']) auto
qed

section \<open>Filling all buffers\<close>

text \<open>
  \<open>rx_room sz l b m n addr len d va\<close>: the collected buffers \<open>0\<close> to \<open>n - 1\<close> are mapped, pairwise
  disjoint and disjoint from the used ring, and the used ring is mapped.
\<close>

definition rx_room ::
  "nat \<Rightarrow> rx_local \<Rightarrow> backend \<Rightarrow> mem \<Rightarrow> nat \<Rightarrow> (nat \<Rightarrow> u64) \<Rightarrow> (nat \<Rightarrow> u32) \<Rightarrow> (nat \<Rightarrow> u64) \<Rightarrow> bool" where
  "rx_room sz l b m n addr len va \<longleftrightarrow>
     (\<forall>i < n. gpa_to_va (addr i) 0 b = Inr (va i) \<and> span (va i) (unat (len i)) \<subseteq> dom m \<and>
        span (va i) (unat (len i)) \<inter> (span (used_idx_at (r_used l)) 2 \<union> used_area (r_used l) sz) = {}) \<and>
     (\<forall>i < n. \<forall>k < i. span (va k) (unat (len k)) \<inter> span (va i) (unat (len i)) = {}) \<and>
     span (used_idx_at (r_used l)) 2 \<union> used_area (r_used l) sz \<subseteq> dom m"

definition rx_wf :: "nat \<Rightarrow> rx_local \<Rightarrow> backend \<Rightarrow> bool" where
  "rx_wf sz l b \<longleftrightarrow> vq b \<noteq> [] \<and> length (r_pkt l) = DUMMY_PKT_SIZE \<and> r_size l = of_nat sz \<and>
     0 < sz \<and> sz \<le> 32768 \<and> sz dvd 65536"

lemma rx_room_step:
  "rx_room sz l b m n addr len va \<Longrightarrow> agree_off S m m' \<Longrightarrow> rx_room sz l (rx_advance k b) m' n addr len va"
  by (simp add: rx_room_def agree_off_def gpa_to_va_def)

lemma rx_ring_fp_in: "u < sz \<Longrightarrow> rx_ring_fp l u \<subseteq> span (used_idx_at (r_used l)) 2 \<union> used_area (r_used l) sz"
  using used_elem_in[of u sz "r_used l"] by (auto simp: rx_ring_fp_def)

lemma disjoint_mono: "A \<subseteq> B \<Longrightarrow> B \<inter> C = {} \<Longrightarrow> A \<inter> C = {}"
  by blast

lemma rx_apart:
  fixes pos :: u16
  assumes room: "rx_room sz l b m n addr len va" and "j < n" "n \<le> sz" "0 < sz" "sz \<le> 32768" "sz dvd 65536"
  defines "S \<equiv> \<Union>i\<in>{Suc j..<n}. span (va i) (unat (len i)) \<union> rx_ring_fp l (unat (pos + of_nat i) mod sz)"
  shows "span (va j) (unat (len j)) \<inter> S = {}"
    "span (used_id_at (r_used l) (unat (pos + of_nat j) mod sz)) 8 \<inter> S = {}"
proof -
  let ?D = "\<lambda>i. span (va i) (unat (len i))" and ?slot = "\<lambda>i. unat (pos + of_nat i) mod sz"
  let ?E = "\<lambda>i. span (used_id_at (r_used l) (?slot i)) 8"
  have lt: "?slot i < sz" for i using assms(4) by simp
  have ring: "?D i \<inter> (span (used_idx_at (r_used l)) 2 \<union> used_area (r_used l) sz) = {}" if "i < n" for i
    using room that by (simp add: rx_room_def)
  have D: "?D j \<inter> ?D i = {}" if "j < i" "i < n" for i using room that by (simp add: rx_room_def)
  have E: "?E j \<inter> rx_ring_fp l (?slot i) = {}" if "j < i" "i < n" for i
  proof -
    have "pos + of_nat i = (pos + of_nat j) + of_nat (i - j)" using that by (simp add: of_nat_diff)
    then have "?slot j \<noteq> ?slot i"
      using slot_distinct[OF assms(6), of "i - j" "pos + of_nat j"] that assms(3) by simp
    moreover have "?slot k < 32768" for k using lt[of k] assms(5) by linarith
    ultimately show ?thesis
      using used_elem_apart[of "?slot j" "?slot i" "r_used l"] used_idx_apart[of "?slot j" "r_used l"]
      by (auto simp: rx_ring_fp_def)
  qed
  show "?D j \<inter> S = {}"
  proof -
    have "?D j \<inter> (?D i \<union> rx_ring_fp l (?slot i)) = {}" if "j < i" "i < n" for i
      using D[OF that] ring[OF assms(2)] rx_ring_fp_in[OF lt[of i], of l] by blast
    then show ?thesis unfolding S_def Int_UN_distrib by simp
  qed
  show "?E j \<inter> S = {}"
  proof -
    have "?E j \<inter> (?D i \<union> rx_ring_fp l (?slot i)) = {}" if "j < i" "i < n" for i
      using E[OF that] ring[OF that(2)] used_elem_in[OF lt[of j], of "r_used l"] by blast
    then show ?thesis unfolding S_def Int_UN_distrib by simp
  qed
qed

lemma enq_fill_ok:
  assumes "j \<le> n" "n \<le> sz" "rx_wf sz l (w_bk w)" "48 \<le> unat (len 0)"
    and "\<forall>i < n. i < length (buf_vec (w_bk w)) \<and>
      buf_vec (w_bk w) ! i = \<lparr>buf_addr = addr i, buf_len = len i, desc_idx = d i\<rparr>"
    and "rx_room sz l (w_bk w) (w_mem w) n addr len va"
    and "s = (\<Sum>i<j. unat (len i))" "w_written w = of_nat (min 10240 (s - 48))"
      "w_remaining w = of_nat (10240 - (s - 48))"
    and "last_used_idx (vq (w_bk w) ! 0) = pos + of_nat j" "w_uidx w = unat (pos + of_nat j) mod sz"
  shows "\<exists>w'. enq_fill l [j..<n] w = Inr w' \<and> w_bk w' = rx_advance (n - j) (w_bk w) \<and>
    agree_off (\<Union>i\<in>{j..<n}. span (va i) (unat (len i)) \<union> rx_ring_fp l (unat (pos + of_nat i) mod sz))
      (w_mem w) (w_mem w') \<and>
    (\<forall>i\<in>{j..<n}. rx_filled (r_used l) (w_mem w') (unat (pos + of_nat i) mod sz) (va i) (d i)
       (take (unat (len i)) (drop (\<Sum>k<i. unat (len k)) (take 10288 (r_pkt l))))) \<and>
    (j < n \<longrightarrow> load16 (w_mem w') (used_idx_at (r_used l)) = Inr (pos + of_nat n))"
  using assms
proof (induction "n - j" arbitrary: j w s)
  case 0
  then show ?case by simp
next
  case (Suc k)
  let ?D = "\<lambda>i. span (va i) (unat (len i))" and ?slot = "\<lambda>i. unat (pos + of_nat i) mod sz"
  have j: "j < n" "k = n - Suc j" "[j..<n] = j # [Suc j..<n]"
    using Suc.hyps(2) by (simp_all add: upt_conv_Cons)
  have wf: "vq (w_bk w) \<noteq> []" "length (r_pkt l) = DUMMY_PKT_SIZE" "r_size l = of_nat sz" "0 < sz"
    "sz \<le> 32768" "sz dvd 65536" using Suc.prems(3) by (simp_all add: rx_wf_def)
  have room: "gpa_to_va (addr i) 0 (w_bk w) = Inr (va i)" "?D i \<subseteq> dom (w_mem w)"
    "?D i \<inter> (span (used_idx_at (r_used l)) 2 \<union> used_area (r_used l) sz) = {}" if "i < n" for i
    using Suc.prems(6) that by (simp_all add: rx_room_def)
  have slots: "w_uidx w < sz" "?slot i < sz" for i using Suc.prems(11) wf(4) by simp_all
  note fp = rx_ring_fp_in[OF slots(1), of l]
  have dom: "rx_ring_fp l (w_uidx w) \<subseteq> dom (w_mem w)"
    using fp Suc.prems(6) by (auto simp: rx_room_def)
  have ap: "?D j \<inter> rx_ring_fp l (w_uidx w) = {}" using room(3)[OF j(1)] fp by blast
  have s48: "if j = 0 then s = 0 \<and> 48 \<le> unat (len j) else 48 \<le> s"
  proof (cases "j = 0")
    case False
    then have "unat (len 0) \<le> s" unfolding Suc.prems(7) by (intro member_le_sum) auto
    with Suc.prems(4) False show ?thesis by simp
  qed (use Suc.prems(4,7) in simp)
  obtain m1 where m1: "enq_one l j w = Inr \<lparr>w_written = of_nat (min 10240 (s + unat (len j) - 48)),
      w_remaining = of_nat (10240 - (s + unat (len j) - 48)),
      w_uidx = unat (last_used_idx (vq (w_bk w) ! 0) + 1) mod sz,
      w_bk = rx_advance 1 (w_bk w), w_mem = m1\<rparr>"
    "agree_off (?D j \<union> rx_ring_fp l (w_uidx w)) (w_mem w) m1"
    "rx_filled (r_used l) m1 (w_uidx w) (va j) (d j)
       (take (unat (len j)) (drop s (take 10288 (r_pkt l))))"
    "load16 m1 (used_idx_at (r_used l)) = Inr (last_used_idx (vq (w_bk w) ! 0) + 1)"
    by (rule enq_stage[OF _ _ room(1)[OF j(1)] wf(2) s48 Suc.prems(8,9) wf(1,3-5) slots(1)
          room(2)[OF j(1)] dom ap])
       (use Suc.prems(5) j(1) in simp, use Suc.prems(5) j(1) in simp, rule that, assumption+)
  define w1 where "w1 = \<lparr>w_written = of_nat (min 10240 (s + unat (len j) - 48)),
      w_remaining = of_nat (10240 - (s + unat (len j) - 48)), w_uidx = ?slot (Suc j),
      w_bk = rx_advance 1 (w_bk w), w_mem = m1\<rparr>"
  have e1: "enq_one l j w = Inr w1" using m1(1) Suc.prems(10) by (simp add: w1_def ac_simps)
  have "\<exists>w'. enq_fill l [Suc j..<n] w1 = Inr w' \<and> w_bk w' = rx_advance (n - Suc j) (w_bk w1) \<and>
    agree_off (\<Union>i\<in>{Suc j..<n}. ?D i \<union> rx_ring_fp l (?slot i)) (w_mem w1) (w_mem w') \<and>
    (\<forall>i\<in>{Suc j..<n}. rx_filled (r_used l) (w_mem w') (?slot i) (va i) (d i)
       (take (unat (len i)) (drop (\<Sum>k<i. unat (len k)) (take 10288 (r_pkt l))))) \<and>
    (Suc j < n \<longrightarrow> load16 (w_mem w') (used_idx_at (r_used l)) = Inr (pos + of_nat n))"
  proof (rule Suc.hyps(1))
    show "rx_room sz l (w_bk w1) (w_mem w1) n addr len va"
      unfolding w1_def using rx_room_step[OF Suc.prems(6) m1(2)] by simp
    show "s + unat (len j) = (\<Sum>i<Suc j. unat (len i))" using Suc.prems(7) by simp
  qed (use Suc.prems j wf in \<open>simp_all add: w1_def rx_wf_def\<close>)
  then obtain w' where w': "enq_fill l [Suc j..<n] w1 = Inr w'"
    "w_bk w' = rx_advance (n - Suc j) (w_bk w1)"
    "agree_off (\<Union>i\<in>{Suc j..<n}. ?D i \<union> rx_ring_fp l (?slot i)) m1 (w_mem w')"
    "\<forall>i\<in>{Suc j..<n}. rx_filled (r_used l) (w_mem w') (?slot i) (va i) (d i)
       (take (unat (len i)) (drop (\<Sum>k<i. unat (len k)) (take 10288 (r_pkt l))))"
    "Suc j < n \<longrightarrow> load16 (w_mem w') (used_idx_at (r_used l)) = Inr (pos + of_nat n)"
    by (auto simp: w1_def)
  have slot: "w_uidx w = ?slot j" by (rule Suc.prems(11))
  have ins: "{j..<n} = insert j {Suc j..<n}" using j(1) by auto
  note apart = rx_apart[OF Suc.prems(6) j(1) Suc.prems(2) wf(4-6), of pos]
  have "rx_filled (r_used l) (w_mem w') (?slot j) (va j) (d j)
      (take (unat (len j)) (drop (\<Sum>k<j. unat (len k)) (take 10288 (r_pkt l))))"
    unfolding Suc.prems(7)[symmetric] using m1(3)[unfolded slot] w'(3)
  proof (rule rx_filled_agree)
    show "span (va j) (length (take (unat (len j)) (drop s (take 10288 (r_pkt l))))) \<inter>
        (\<Union>i\<in>{Suc j..<n}. ?D i \<union> rx_ring_fp l (?slot i)) = {}"
      by (rule disjoint_mono[OF span_mono apart(1)]) simp
  qed (rule apart(2))
  with w'(4) have "\<forall>i\<in>{j..<n}. rx_filled (r_used l) (w_mem w') (?slot i) (va i) (d i)
      (take (unat (len i)) (drop (\<Sum>k<i. unat (len k)) (take 10288 (r_pkt l))))"
    unfolding ins by blast
  moreover have "agree_off (\<Union>i\<in>{j..<n}. ?D i \<union> rx_ring_fp l (?slot i)) (w_mem w) (w_mem w')"
  proof (rule agree_off_mono[OF agree_off_trans[OF m1(2) w'(3)]])
    show "?D j \<union> rx_ring_fp l (w_uidx w) \<union> (\<Union>i\<in>{Suc j..<n}. ?D i \<union> rx_ring_fp l (?slot i)) \<subseteq>
        (\<Union>i\<in>{j..<n}. ?D i \<union> rx_ring_fp l (?slot i))"
      unfolding slot ins by blast
  qed
  moreover have "load16 (w_mem w') (used_idx_at (r_used l)) = Inr (pos + of_nat n)"
  proof (cases "Suc j < n")
    case False
    then have n: "n = Suc j" using j(1) by simp
    with w'(1) have "w_mem w' = m1" by (auto simp: w1_def)
    with n m1(4) Suc.prems(10) show ?thesis by (simp add: ac_simps)
  qed (use w'(5) in simp)
  moreover have "w_bk w' = rx_advance (n - j) (w_bk w)"
    using w'(2) j(1) wf(1) by (simp add: w1_def Suc_diff_Suc)
  ultimately show ?case using e1 w'(1) j by simp
qed

section \<open>Collecting the buffers\<close>

text \<open>
  \<open>rx_offer sz l b m n d addr len\<close>: the available ring holds, from the position of the device on,
  the \<open>n\<close> single descriptors \<open>d 0\<close> to \<open>d (n - 1)\<close>, writable and not linked, and one more entry
  that can be read.
\<close>

definition rx_offer ::
  "nat \<Rightarrow> rx_local \<Rightarrow> u16 \<Rightarrow> mem \<Rightarrow> nat \<Rightarrow> (nat \<Rightarrow> u16) \<Rightarrow> (nat \<Rightarrow> u64) \<Rightarrow> (nat \<Rightarrow> u32) \<Rightarrow> bool" where
  "rx_offer sz l pos m n d addr len \<longleftrightarrow>
     (\<forall>i \<le> n. load16 m (avail_ring_at (r_avail l) (unat (pos + of_nat i) mod sz)) = Inr (d i)) \<and>
     (\<forall>i < n. load16 m (desc_flags_at (r_desc l) (unat (d i))) = Inr VRING_DESC_F_WRITE \<and>
        load64 m (desc_addr_at (r_desc l) (unat (d i))) = Inr (addr i) \<and>
        load32 m (desc_len_at (r_desc l) (unat (d i))) = Inr (len i))"

lemma slot_next:
  assumes "sz dvd 65536" "0 < sz"
  shows "unat (of_nat (unat (p :: u16) mod sz) + of_nat k :: u16) mod sz = unat (p + of_nat k) mod sz"
proof -
  have "unat (of_nat (unat p mod sz) + of_nat k :: u16) mod sz = (unat p mod sz + k) mod 65536 mod sz"
    by (simp add: unat_word_ariths unat_of_nat mod_simps)
  also have "\<dots> = (unat p + k) mod sz" using assms by (simp add: mod_mod_cancel mod_simps)
  also have "\<dots> = (unat p + k) mod 65536 mod sz" using assms by (simp add: mod_mod_cancel)
  also have "\<dots> = unat (p + of_nat k) mod sz" by (simp add: unat_word_ariths unat_of_nat mod_simps)
  finally show ?thesis .
qed

lemma enq_collect_ok:
  assumes "rx_offer sz l pos m n d addr len" "j + k = n" "n \<le> length bv"
    and "r_size l = of_nat sz" "0 < sz" "sz \<le> 32768" "sz dvd 65536" "i = d j"
    and "a = of_nat (unat pos mod sz) + of_nat j"
  shows "\<exists>bv'. enq_collect k l m i a j bv = Inr (n, bv', []) \<and> length bv' = length bv \<and>
    (\<forall>i < j. bv' ! i = bv ! i) \<and>
    (\<forall>i. j \<le> i \<and> i < n \<longrightarrow> bv' ! i = \<lparr>buf_addr = addr i, buf_len = len i, desc_idx = ucast (d i)\<rparr>)"
  using assms(2,3,8,9)
proof (induction k arbitrary: i j a bv)
  case 0
  then show ?case by auto
next
  case (Suc k)
  let ?bv = "bv[j := \<lparr>buf_addr = addr j, buf_len = len j, desc_idx = ucast (d j)\<rparr>]"
  have jn: "j < n" "Suc j + k = n" "Suc j \<le> n" using Suc.prems(1) by auto
  have a1: "a + 1 = of_nat (unat pos mod sz) + of_nat (Suc j)" using Suc.prems(4) by (simp add: ac_simps)
  have sz: "r_size l \<noteq> 0" "unat (r_size l) = sz"
    using assms(4-6) by (auto simp: unat_of_nat dest: arg_cong[of _ _ unat])
  have nxt: "load16 m (avail_ring_at (r_avail l) (unat (a + 1) mod sz)) = Inr (d (Suc j))"
    unfolding a1 slot_next[OF assms(7,5)] using assms(1) jn(3) unfolding rx_offer_def by blast
  have "\<exists>bv'. enq_collect k l m (d (Suc j)) (a + 1) (Suc j) ?bv = Inr (n, bv', []) \<and>
      length bv' = length ?bv \<and> (\<forall>i < Suc j. bv' ! i = ?bv ! i) \<and>
      (\<forall>i. Suc j \<le> i \<and> i < n \<longrightarrow> bv' ! i = \<lparr>buf_addr = addr i, buf_len = len i, desc_idx = ucast (d i)\<rparr>)"
    by (rule Suc.IH) (use jn Suc.prems(2) a1 in auto)
  then obtain bv' where bv': "enq_collect k l m (d (Suc j)) (a + 1) (Suc j) ?bv = Inr (n, bv', [])"
    "length bv' = length bv" "\<forall>i < Suc j. bv' ! i = ?bv ! i"
    "\<forall>i. Suc j \<le> i \<and> i < n \<longrightarrow> bv' ! i = \<lparr>buf_addr = addr i, buf_len = len i, desc_idx = ucast (d i)\<rparr>"
    by auto
  have off: "load16 m (desc_flags_at (r_desc l) (unat (d j))) = Inr VRING_DESC_F_WRITE"
    "load64 m (desc_addr_at (r_desc l) (unat (d j))) = Inr (addr j)"
    "load32 m (desc_len_at (r_desc l) (unat (d j))) = Inr (len j)"
    using assms(1) jn(1) unfolding rx_offer_def by blast+
  have fl: "VRING_DESC_F_WRITE AND VRING_DESC_F_WRITE \<noteq> 0" "VRING_DESC_F_WRITE AND VRING_DESC_F_NEXT = 0"
    by (simp_all add: VRING_DESC_F_WRITE_def VRING_DESC_F_NEXT_def)
  have "rx_slot (a + 1) (r_size l) = Inr (unat (a + 1) mod sz)" using sz by (simp add: rx_slot_def)
  moreover have "arr_set bv j \<lparr>buf_addr = addr j, buf_len = len j, desc_idx = ucast (d j)\<rparr> = Inr ?bv"
    using jn(1) Suc.prems(2) by simp
  ultimately have "enq_collect (Suc k) l m i a j bv = Inr (n, bv', [])"
    using bv'(1) by (simp only: enq_collect.simps Suc.prems(3) off fl nxt bindE_Inr simp_thms if_False if_True)
  moreover have "\<forall>i < j. bv' ! i = bv ! i" using bv'(3) by simp
  moreover have "bv' ! i = \<lparr>buf_addr = addr i, buf_len = len i, desc_idx = ucast (d i)\<rparr>"
    if "j \<le> i" "i < n" for i
  proof (cases "i = j")
    case True
    then show ?thesis using bv'(3) jn Suc.prems(2) by simp
  next
    case False
    then show ?thesis using bv'(4) that by simp
  qed
  ultimately show ?case using bv'(2) by blast
qed

section \<open>Sending a packet\<close>

lemma enq_packet_ok:
  assumes "rx_wf sz l b" "3 \<le> sz" "length (buf_vec b) = 16" "48 \<le> unat (len 0)"
    and "pos = last_avail_idx (vq b ! 0)" "upos = last_used_idx (vq b ! 0)"
    and "rx_offer sz l pos m 3 d addr len" "rx_room sz l b m 3 addr len va"
    and "load16 m (avail_flags_at (vq_avail (vq b ! 0))) = Inr fl"
    and "\<forall>i<3. span (avail_flags_at (vq_avail (vq b ! 0))) 2 \<inter>
      (span (va i) (unat (len i)) \<union> span (used_idx_at (r_used l)) 2 \<union> used_area (r_used l) sz) = {}"
  shows "\<exists>go b' m' es. enq_packet took l b m = Inr (go, b', m', es) \<and>
    (\<forall>i<3. rx_filled (r_used l) m' (unat (upos + of_nat i) mod sz) (va i) (ucast (d i))
       (take (unat (len i)) (drop (\<Sum>k<i. unat (len k)) (take 10288 (r_pkt l))))) \<and>
    load16 m' (used_idx_at (r_used l)) = Inr (upos + 3) \<and>
    last_avail_idx (vq b' ! 0) = pos + 3 \<and> last_used_idx (vq b' ! 0) = upos + 3 \<and>
    agree_off (\<Union>i<3. span (va i) (unat (len i)) \<union> rx_ring_fp l (unat (upos + of_nat i) mod sz)) m m' \<and>
    es = rx_kick (vq b ! 0) fl @ snd (snd (enq_count took b))"
proof -
  have wf: "vq b \<noteq> []" "r_size l = of_nat sz" "0 < sz" "sz \<le> 32768" "sz dvd 65536"
    using assms(1) by (simp_all add: rx_wf_def)
  have slot: "rx_slot p (r_size l) = Inr (unat p mod sz)" for p
    using wf(2-4) by (auto simp: rx_slot_def unat_of_nat dest: arg_cong[of _ _ unat])
  have d0: "load16 m (avail_ring_at (r_avail l) (unat pos mod sz)) = Inr (d 0)"
    using assms(7) by (auto simp: rx_offer_def)
  obtain bv where bv: "enq_collect 3 l m (d 0) (of_nat (unat pos mod sz)) 0 (buf_vec b) = Inr (3, bv, [])"
    "length bv = 16"
    "\<forall>i<3. bv ! i = \<lparr>buf_addr = addr i, buf_len = len i, desc_idx = ucast (d i)\<rparr>"
    using enq_collect_ok[OF assms(7), of 0 3 "buf_vec b" "d 0" "of_nat (unat pos mod sz)"] wf(2-5) assms(3)
    by auto
  let ?w = "\<lparr>w_written = 0, w_remaining = RX_FRAME_LEN, w_uidx = unat upos mod sz,
      w_bk = b\<lparr>buf_vec := bv\<rparr>, w_mem = m\<rparr>"
  have "rx_room sz l (b\<lparr>buf_vec := bv\<rparr>) m 3 addr len va" "rx_wf sz l (b\<lparr>buf_vec := bv\<rparr>)"
    using assms(1,8) by (simp_all add: rx_room_def rx_wf_def gpa_to_va_def)
  with enq_fill_ok[of 0 3 sz l ?w len addr "\<lambda>i. ucast (d i)" va 0 upos] bv(2,3) assms(2,4,6)
  obtain w' where w': "enq_fill l [0..<3] ?w = Inr w'" "w_bk w' = rx_advance 3 (b\<lparr>buf_vec := bv\<rparr>)"
    "agree_off (\<Union>i\<in>{0..<3}. span (va i) (unat (len i)) \<union> rx_ring_fp l (unat (upos + of_nat i) mod sz))
      m (w_mem w')"
    "\<forall>i\<in>{0..<3}. rx_filled (r_used l) (w_mem w') (unat (upos + of_nat i) mod sz) (va i) (ucast (d i))
       (take (unat (len i)) (drop (\<Sum>k<i. unat (len k)) (take 10288 (r_pkt l))))"
    "load16 (w_mem w') (used_idx_at (r_used l)) = Inr (upos + of_nat 3)"
    by (auto simp: RX_FRAME_LEN_def)
  have "span (avail_flags_at (vq_avail (vq b ! 0))) 2 \<inter>
      (\<Union>i\<in>{0..<3}. span (va i) (unat (len i)) \<union> rx_ring_fp l (unat (upos + of_nat i) mod sz)) = {}"
  proof -
    have "span (avail_flags_at (vq_avail (vq b ! 0))) 2 \<inter>
        (span (va i) (unat (len i)) \<union> rx_ring_fp l (unat (upos + of_nat i) mod sz)) = {}" if "i < 3" for i
      using assms(10)[rule_format, OF that] rx_ring_fp_in[of "unat (upos + of_nat i) mod sz" sz l] wf(3)
      by (simp add: Int_Un_distrib) blast
    then show ?thesis unfolding Int_UN_distrib by simp
  qed
  from c16.ld_agree[OF w'(3) this] have fl: "load16 (w_mem w') (avail_flags_at (vq_avail (vq b ! 0))) = Inr fl"
    using assms(9) by simp
  have q: "vq (w_bk w') ! 0 = (vq b ! 0)\<lparr>last_avail_idx := pos + 3, last_used_idx := upos + 3\<rparr>"
    using w'(2) wf(1) assms(5,6) by simp
  obtain go b' es where c: "enq_count took (w_bk w') = (go, b', es)" by (cases "enq_count took (w_bk w')")
  then have "vq b' = vq (w_bk w')" by (auto simp: enq_count_def Let_def split: if_splits)
  moreover have "es = snd (snd (enq_count took b))"
    using c w'(2) by (auto simp: enq_count_def Let_def split: if_splits)
  moreover have kick: "enq_kick (w_bk w') (w_mem w') = Inr (rx_kick (vq b ! 0) fl)"
    using q fl wf(1) w'(2) by (simp add: enq_kick_def rx_kick_def)
  moreover have "enq_packet took l b m = Inr (go, b', w_mem w', rx_kick (vq b ! 0) fl @ es)"
    using wf(1) slot d0 bv(1) w'(1) c kick assms(5,6)
    by (simp add: enq_packet_def RX_NBUFS_def)
  ultimately show ?thesis using w'(3-5) q by (auto simp: lessThan_atLeast0)
qed

section \<open>Properties\<close>

text \<open>One step of the receive thread delivers the packet. If the available index has moved and the
  available ring holds three single writable buffers, mapped and apart from each other and from
  the rings, the first of at least 48 bytes, on a ring whose size is a power of two, then the step
  succeeds: the packet (48 bytes of metadata followed by 10240 bytes of frame) is split over the
  buffers by their lengths, element after element of the used ring names the buffer and the number
  of bytes in it, both indices advance by three, the used index is published, the guest is notified
  unless it has switched that off, and no other memory changes.\<close>

theorem enq_step_delivers:
  assumes "rx_wf sz l b" "3 \<le> sz" "length (buf_vec b) = 16" "rxcnt b < NUM_RX_FRAMES"
    and "pos = last_avail_idx (vq b ! 0)" "upos = last_used_idx (vq b ! 0)"
    and "load16 m (avail_idx_at (r_avail l)) = Inr aidx" "aidx \<noteq> pos"
    and "rx_offer sz l pos m 3 d addr len" "rx_room sz l b m 3 addr len va" "48 \<le> unat (len 0)"
    and "load16 m (avail_flags_at (vq_avail (vq b ! 0))) = Inr fl"
    and "\<forall>i<3. span (avail_flags_at (vq_avail (vq b ! 0))) 2 \<inter>
      (span (va i) (unat (len i)) \<union> span (used_idx_at (r_used l)) 2 \<union> used_area (r_used l) sz) = {}"
  shows "\<exists>go b' m' es. enq_step took l b m = Inr (go, b', m', es) \<and>
    (\<forall>i<3. rx_filled (r_used l) m' (unat (upos + of_nat i) mod sz) (va i) (ucast (d i))
       (take (unat (len i)) (drop (\<Sum>k<i. unat (len k)) (take 10288 (r_pkt l))))) \<and>
    load16 m' (used_idx_at (r_used l)) = Inr (upos + 3) \<and>
    last_avail_idx (vq b' ! 0) = pos + 3 \<and> last_used_idx (vq b' ! 0) = upos + 3 \<and>
    agree_off (\<Union>i<3. span (va i) (unat (len i)) \<union> rx_ring_fp l (unat (upos + of_nat i) mod sz)) m m' \<and>
    es = rx_kick (vq b ! 0) fl @ snd (snd (enq_count took b))"
proof -
  have "enq_step took l b m = enq_packet took l b m"
    using assms(1,4,5,7,8) by (auto simp: enq_step_def rx_wf_def)
  then show ?thesis
    using enq_packet_ok[where took = took, OF assms(1-3,11,5,6,9,10,12,13)] by simp
qed

text \<open>The receive thread does not count the buffers it takes. If the guest has offered one buffer
  and a packet is sent, the position in the available ring advances by three, two entries past
  everything the guest ever offered, so the next step sees 65534 buffers that do not exist.\<close>

theorem enq_takes_unoffered_buffers:
  assumes "enq_step took l b m = Inr (go, b', m', es)" "vq b \<noteq> []" "rxcnt b < NUM_RX_FRAMES"
    and "load16 m (avail_idx_at (r_avail l)) = Inr (last_avail_idx (vq b ! 0) + 1)"
  shows "last_avail_idx (vq b' ! 0) = last_avail_idx (vq b ! 0) + 3 \<and>
    unat (last_avail_idx (vq b ! 0) + 1 - last_avail_idx (vq b' ! 0)) = 65534"
proof -
  have "enq_packet took l b m = Inr (go, b', m', es)"
    using assms by (simp add: enq_step_def)
  then obtain bv where "b' = (rx_advance 3 b)\<lparr>buf_vec := bv, rxcnt := rxcnt (fst (snd (enq_count took b)))\<rparr>"
    by (rule enq_packet_advance)
  with assms(2) have a: "last_avail_idx (vq b' ! 0) = last_avail_idx (vq b ! 0) + 3" by simp
  moreover have "last_avail_idx (vq b ! 0) + 1 - (last_avail_idx (vq b ! 0) + 3) = (65534 :: u16)"
    by simp
  ultimately show ?thesis by simp
qed

text \<open>The first buffer must hold the 48 bytes of metadata, and the code does not check it: for a
  shorter first buffer the subtraction \<^verbatim>\<open>buf_len-meta_len\<close> wraps, so the whole packet of 10288
  bytes is written from the start of the buffer on, whatever its length is.\<close>

theorem enq_short_buffer_overrun:
  assumes "0 < length (buf_vec (w_bk w))" "gpa_to_va (buf_addr (buf_vec (w_bk w) ! 0)) 0 (w_bk w) = Inr va"
    and "buf_len (buf_vec (w_bk w) ! 0) < META_LEN" "length (r_pkt l) = DUMMY_PKT_SIZE"
    and "w_remaining w = RX_FRAME_LEN" "w_written w = 0"
  shows "enq_one l 0 w =
    bindE (store (w_mem w) va (take 10288 (r_pkt l))) (\<lambda>m.
    bindE (put_used l (w_uidx w) (desc_idx (buf_vec (w_bk w) ! 0)) 10288 m) (\<lambda>m.
      enq_publish l (w\<lparr>w_remaining := 0, w_written := RX_FRAME_LEN, w_mem := m\<rparr>)))"
proof -
  let ?L = "buf_len (buf_vec (w_bk w) ! 0)"
  have lt: "unat ?L < 48" using assms(3) by (simp add: META_LEN_def word_less_nat_alt)
  have "unat (?L - 48) = 2 ^ 32 - 48 + unat ?L"
    using lt by (simp add: unat_sub_if' word_le_nat_alt)
  with lt have "RX_FRAME_LEN \<le> ?L - META_LEN"
    by (simp add: RX_FRAME_LEN_def META_LEN_def word_le_nat_alt)
  then have "min RX_FRAME_LEN (?L - META_LEN) = RX_FRAME_LEN" by simp
  moreover have "take 10288 (r_pkt l) = take 48 (r_pkt l) @ take 10240 (drop 48 (r_pkt l))"
    using take_add[of 48 10240 "r_pkt l"] by simp
  moreover have "length (take 48 (r_pkt l)) = 48" using assms(4) by (simp add: DUMMY_PKT_SIZE_def)
  ultimately show ?thesis using assms
    by (simp del: length_take take_append
        add: enq_one_def pkt_bytes_def DUMMY_PKT_SIZE_def Let_def store_append
        bindE_assoc META_LEN_def RX_FRAME_LEN_def)
qed

text \<open>The receive thread ends exactly with the last frame: a step that starts below \<^verbatim>\<open>NUM_RX_FRAMES\<close>
  frames leaves the counter below it, and it ends the thread (with the counter back at 0) exactly
  when it sent the frame number \<^verbatim>\<open>NUM_RX_FRAMES\<close>; otherwise a step that finds a buffer counts one
  frame and a step that finds none counts nothing.\<close>

theorem enq_counts_frames:
  assumes "enq_step took l b m = Inr (go, b', m', es)" "vq b \<noteq> []" "rxcnt b < NUM_RX_FRAMES"
    and "load16 m (avail_idx_at (r_avail l)) = Inr aidx"
  shows "rxcnt b' < NUM_RX_FRAMES \<and>
    (\<not> go \<longleftrightarrow> aidx \<noteq> last_avail_idx (vq b ! 0) \<and> rxcnt b + 1 = NUM_RX_FRAMES) \<and>
    rxcnt b' = (if aidx = last_avail_idx (vq b ! 0) then rxcnt b else if go then rxcnt b + 1 else 0)"
proof (cases "aidx = last_avail_idx (vq b ! 0)")
  case True
  with assms show ?thesis by (simp add: enq_step_def)
next
  case False
  with assms have "enq_packet took l b m = Inr (go, b', m', es)" by (simp add: enq_step_def)
  then have c: "go = fst (enq_count took b)" "rxcnt b' = rxcnt (fst (snd (enq_count took b)))"
    by (auto elim!: enq_packet_advance)
  have lt: "unat (rxcnt b) < 1000000" using assms(3) by (simp add: NUM_RX_FRAMES_def word_less_nat_alt)
  then have un: "unat (rxcnt b + 1) = unat (rxcnt b) + 1" by (simp add: unat_word_ariths)
  have "rxcnt b + 1 \<noteq> NUM_RX_FRAMES \<Longrightarrow> rxcnt b + 1 < NUM_RX_FRAMES"
    using un lt by (simp add: NUM_RX_FRAMES_def word_less_nat_alt word_unat_eq_iff)
  with False c show ?thesis
    by (auto simp: enq_count_def Let_def NUM_RX_FRAMES_def)
qed

section \<open>A concrete guest\<close>

text \<open>
  One region at guest address 0 mapped at 65536, a receive queue of size 4, descriptors 0 to 2 with
  buffers of 64, 10 and 4 bytes, and an available index of 1: one buffer is offered.
\<close>

definition rx_demo_b :: backend where
  "rx_demo_b = zero_backend\<lparr>nregions := 1,
     regions := (regions zero_backend)[0 := zero_region\<lparr>reg_size := 4096, mmap_addr := 65536\<rparr>],
     vq := [zero_vq\<lparr>vq_size := 4, vq_desc := 65536, vq_avail := 65664, vq_used := 65728\<rparr>, zero_vq]\<rparr>"

definition rx_demo_mem :: mem where
  "rx_demo_mem a =
     (if 65536 \<le> a \<and> a < 66048 then
        Some (if a = 65537 \<or> a = 65553 \<or> a = 65569 \<or> a = 65664 \<or> a = 65666 \<or> a = 65670 then 1
              else if a = 65548 \<or> a = 65564 \<or> a = 65580 \<or> a = 65672 then 2
              else if a = 65544 then 64 else if a = 65560 then 10 else if a = 65576 then 4
              else if a = 65552 then 128 else if a = 65568 then 160 else 0)
      else None)"

definition rx_demo_l :: rx_local where
  "rx_demo_l = \<lparr>r_avail = 65664, r_used = 65728, r_desc = 65536, r_size = 4,
     r_pkt = ixverify_meta 3 0 6 (replicate 12325 0)\<rparr>"

definition rx_demo_d :: "nat \<Rightarrow> u16" where
  "rx_demo_d i = (if i = 1 then 1 else if i = 2 then 2 else 0)"

definition rx_demo_addr :: "nat \<Rightarrow> u64" where
  "rx_demo_addr i = (if i = 1 then 384 else if i = 2 then 416 else 256)"

definition rx_demo_len :: "nat \<Rightarrow> u32" where
  "rx_demo_len i = (if i = 1 then 10 else if i = 2 then 4 else 64)"

lemma lt3: "(i::nat) < 3 \<longleftrightarrow> i = 0 \<or> i = 1 \<or> i = 2"
  by auto

lemma rx_demo_start: "enq_start (replicate DUMMY_PKT_SIZE 0) rx_demo_b = Inr rx_demo_l"
  by (simp add: enq_start_def rx_demo_b_def rx_demo_l_def zero_vq_def buf_write_def DUMMY_PKT_SIZE_def
      RX_FRAME_LEN_def META_LEN_def RX_NBUFS_def flip: replicate_add)

lemma rx_demo_wf: "rx_wf 4 rx_demo_l rx_demo_b" "length (buf_vec rx_demo_b) = 16"
  "rxcnt rx_demo_b < NUM_RX_FRAMES" "vq rx_demo_b \<noteq> []"
  by (simp_all add: rx_wf_def rx_demo_l_def rx_demo_b_def ixverify_meta_def DUMMY_PKT_SIZE_def
      zero_backend_def NUM_RX_FRAMES_def)

lemma rx_demo_avail: "load16 rx_demo_mem (avail_idx_at (r_avail rx_demo_l)) = Inr 1"
  "load16 rx_demo_mem (avail_flags_at (vq_avail (vq rx_demo_b ! 0))) = Inr 1"
  by (simp_all add: load16_def mem_simps rx_demo_mem_def avail_idx_at_def avail_flags_at_def
      rx_demo_l_def rx_demo_b_def)

lemma rx_demo_offer: "rx_offer 4 rx_demo_l 0 rx_demo_mem 3 rx_demo_d rx_demo_addr rx_demo_len"
proof -
  have "load16 rx_demo_mem (avail_ring_at 65664 (unat (0 + of_nat i :: u16) mod 4)) = Inr (rx_demo_d i)"
    if "i \<le> 3" for i
  proof -
    from that have "i = 0 \<or> i = 1 \<or> i = 2 \<or> i = 3" by auto
    then show ?thesis
      by (elim disjE) (simp_all add: load16_def mem_simps rx_demo_mem_def avail_ring_at_def rx_demo_d_def)
  qed
  moreover have "load16 rx_demo_mem (desc_flags_at 65536 (unat (rx_demo_d i))) = Inr VRING_DESC_F_WRITE \<and>
        load64 rx_demo_mem (desc_addr_at 65536 (unat (rx_demo_d i))) = Inr (rx_demo_addr i) \<and>
        load32 rx_demo_mem (desc_len_at 65536 (unat (rx_demo_d i))) = Inr (rx_demo_len i)" if "i < 3" for i
    using that unfolding lt3
    by (elim disjE) (simp_all add: load16_def load32_def load64_def mem_simps rx_demo_mem_def
        rx_demo_d_def desc_flags_at_def desc_addr_at_def desc_len_at_def rx_demo_addr_def rx_demo_len_def
        VRING_DESC_F_WRITE_def)
  ultimately show ?thesis by (simp add: rx_offer_def rx_demo_l_def)
qed

lemma rx_demo_dom: "65536 \<le> unat a \<Longrightarrow> unat a + n \<le> 66048 \<Longrightarrow> span a n \<subseteq> dom rx_demo_mem"
proof
  fix x assume a: "65536 \<le> unat a" "unat a + n \<le> 66048" and "x \<in> span a n"
  have "unat a + n \<le> 2 ^ 64" using a(2) by simp
  from span_below[OF this \<open>x \<in> span a n\<close>] a have "65536 \<le> unat x \<and> unat x < 66048" by linarith
  then show "x \<in> dom rx_demo_mem"
    by (simp add: rx_demo_mem_def dom_def word_le_nat_alt word_less_nat_alt)
qed

definition rx_demo_va :: "nat \<Rightarrow> u64" where
  "rx_demo_va i = rx_demo_addr i + 65536"

lemmas rx_demo_fun_defs = rx_demo_va_def rx_demo_addr_def rx_demo_len_def rx_demo_l_def used_idx_at_def
  used_area_def used_id_at_def avail_flags_at_def

lemma rx_demo_gpa: "a < 4096 \<Longrightarrow> gpa_to_va a 0 rx_demo_b = Inr (a + 65536)"
  by (simp add: gpa_to_va_def rx_demo_b_def zero_backend_def zero_region_def
      VHOST_MEMORY_MAX_NREGIONS_def region_loop.simps)

lemma rx_demo_room:
  "rx_room 4 rx_demo_l rx_demo_b rx_demo_mem 3 rx_demo_addr rx_demo_len rx_demo_va"
proof -
  have "gpa_to_va (rx_demo_addr i) 0 rx_demo_b = Inr (rx_demo_va i)" for i
    by (simp add: rx_demo_addr_def rx_demo_va_def rx_demo_gpa)
  moreover have "span (rx_demo_va i) (unat (rx_demo_len i)) \<subseteq> dom rx_demo_mem" for i
    by (rule rx_demo_dom) (simp_all add: rx_demo_fun_defs)
  moreover have "span (rx_demo_va i) (unat (rx_demo_len i)) \<inter>
      (span (used_idx_at (r_used rx_demo_l)) 2 \<union> used_area (r_used rx_demo_l) 4) = {}" for i
    unfolding Int_Un_distrib used_area_def
    by (simp add: rx_demo_fun_defs span_apart_abs)
  moreover have "span (rx_demo_va k) (unat (rx_demo_len k)) \<inter> span (rx_demo_va i) (unat (rx_demo_len i)) = {}"
    if "i < 3" "k < i" for i k
    using that by (intro span_apart_abs(1)) (auto simp: lt3 rx_demo_fun_defs)
  moreover have "span (used_idx_at (r_used rx_demo_l)) 2 \<union> used_area (r_used rx_demo_l) 4 \<subseteq> dom rx_demo_mem"
    unfolding used_area_def by (intro Un_least rx_demo_dom) (simp_all add: rx_demo_fun_defs)
  ultimately show ?thesis by (simp add: rx_room_def)
qed

lemma rx_demo_flags_apart:
  "\<forall>i<3. span (avail_flags_at (vq_avail (vq rx_demo_b ! 0))) 2 \<inter>
     (span (rx_demo_va i) (unat (rx_demo_len i)) \<union> span (used_idx_at (r_used rx_demo_l)) 2 \<union>
      used_area (r_used rx_demo_l) 4) = {}"
  unfolding Int_Un_distrib used_area_def
  by (simp add: rx_demo_fun_defs rx_demo_b_def span_apart_abs)

lemma rx_demo_pos: "0 = last_avail_idx (vq rx_demo_b ! 0)" "0 = last_used_idx (vq rx_demo_b ! 0)"
  by (simp_all add: rx_demo_b_def zero_vq_def)

theorem enq_step_delivers_witness:
  "\<exists>go b' m' es. enq_step '''' rx_demo_l rx_demo_b rx_demo_mem = Inr (go, b', m', es) \<and>
     load m' 65792 64 = Inr ([3, 0, 0, 6, 0, 0, 0, 0, 0, 0, 0] @ replicate 53 0) \<and> load16 m' 65730 = Inr 3"
proof -
  have fl: "(1 :: u16) \<noteq> 0" "48 \<le> unat (rx_demo_len 0)" by (simp_all add: rx_demo_len_def)
  obtain go b' m' es where r: "enq_step '''' rx_demo_l rx_demo_b rx_demo_mem = Inr (go, b', m', es)"
    "\<forall>i<3. rx_filled (r_used rx_demo_l) m' (unat (0 + of_nat i :: u16) mod 4) (rx_demo_va i) (ucast (rx_demo_d i))
       (take (unat (rx_demo_len i)) (drop (\<Sum>k<i. unat (rx_demo_len k)) (take 10288 (r_pkt rx_demo_l))))"
    "load16 m' (used_idx_at (r_used rx_demo_l)) = Inr (0 + 3)"
    using enq_step_delivers[where took = "''''", OF rx_demo_wf(1) _ rx_demo_wf(2,3) rx_demo_pos
        rx_demo_avail(1) fl(1) rx_demo_offer rx_demo_room fl(2) rx_demo_avail(2) rx_demo_flags_apart]
    by auto
  have "rx_filled 65728 m' 0 65792 0 (take 64 (take 10288 (ixverify_meta 3 0 6 (replicate 12325 0))))"
    using r(2)[rule_format, of 0] by (simp add: rx_demo_fun_defs rx_demo_d_def)
  then have "load m' 65792 64 = Inr ([3, 0, 0, 6, 0, 0, 0, 0, 0, 0, 0] @ replicate 53 0)"
    by (simp add: rx_filled_def ixverify_meta_def le_bytes_unfold flip: replicate_add)
  with r(1,3) show ?thesis by (auto simp: rx_demo_l_def used_idx_at_def)
qed

lemma rx_demo_step:
  "\<exists>go b' m' es. enq_packet '''' rx_demo_l rx_demo_b rx_demo_mem = Inr (go, b', m', es)"
proof -
  have fl: "48 \<le> unat (rx_demo_len 0)" by (simp add: rx_demo_len_def)
  show ?thesis
    using enq_packet_ok[where took = "''''", OF rx_demo_wf(1) _ rx_demo_wf(2) fl rx_demo_pos
        rx_demo_offer rx_demo_room rx_demo_avail(2) rx_demo_flags_apart]
    by auto
qed

lemma rx_demo_enq_step:
  "enq_step '''' rx_demo_l rx_demo_b rx_demo_mem = enq_packet '''' rx_demo_l rx_demo_b rx_demo_mem"
  using rx_demo_wf(3,4) rx_demo_avail(1) rx_demo_pos(1) by (simp add: enq_step_def)

theorem enq_takes_unoffered_buffers_witness:
  "\<exists>go b' m' es. enq_step '''' rx_demo_l rx_demo_b rx_demo_mem = Inr (go, b', m', es) \<and>
     last_avail_idx (vq b' ! 0) = 3 \<and> unat (1 - last_avail_idx (vq b' ! 0)) = 65534"
proof -
  obtain go b' m' es where "enq_step '''' rx_demo_l rx_demo_b rx_demo_mem = Inr (go, b', m', es)"
    using rx_demo_step rx_demo_enq_step by auto
  with enq_takes_unoffered_buffers[OF this rx_demo_wf(4,3)] rx_demo_avail(1) rx_demo_pos(1)[symmetric]
  show ?thesis by auto
qed

theorem enq_counts_frames_witness:
  "\<exists>go b' m' es. enq_step '''' rx_demo_l rx_demo_b rx_demo_mem = Inr (go, b', m', es) \<and> go \<and> rxcnt b' = 1"
proof -
  obtain go b' m' es where st: "enq_step '''' rx_demo_l rx_demo_b rx_demo_mem = Inr (go, b', m', es)"
    using rx_demo_step rx_demo_enq_step by auto
  have "rxcnt rx_demo_b = 0" by (simp add: rx_demo_b_def zero_backend_def)
  with enq_counts_frames[OF st rx_demo_wf(4,3) rx_demo_avail(1)] rx_demo_pos(1)[symmetric] st
  show ?thesis by (auto simp: NUM_RX_FRAMES_def)
qed

text \<open>A first buffer of one byte.\<close>

definition rx_short_w :: rx_write where
  "rx_short_w = \<lparr>w_written = 0, w_remaining = RX_FRAME_LEN, w_uidx = 0,
     w_bk = rx_demo_b\<lparr>buf_vec := (buf_vec rx_demo_b)[0 := \<lparr>buf_addr = 256, buf_len = 1, desc_idx = 0\<rparr>]\<rparr>,
     w_mem = rx_demo_mem\<rparr>"

theorem enq_short_buffer_overrun_witness:
  "enq_one rx_demo_l 0 rx_short_w =
    bindE (store rx_demo_mem 65792 (take 10288 (r_pkt rx_demo_l))) (\<lambda>m.
    bindE (put_used rx_demo_l 0 0 10288 m) (\<lambda>m.
      enq_publish rx_demo_l (rx_short_w\<lparr>w_remaining := 0, w_written := RX_FRAME_LEN, w_mem := m\<rparr>)))"
proof -
  have b: "buf_vec (w_bk rx_short_w) ! 0 = \<lparr>buf_addr = 256, buf_len = 1, desc_idx = 0\<rparr>"
    "0 < length (buf_vec (w_bk rx_short_w))"
    using rx_demo_wf(2) by (simp_all add: rx_short_w_def)
  have "gpa_to_va (buf_addr (buf_vec (w_bk rx_short_w) ! 0)) 0 (w_bk rx_short_w) = Inr 65792"
    using rx_demo_gpa[of 256] unfolding b(1) by (simp add: rx_short_w_def gpa_to_va_def)
  from enq_short_buffer_overrun[OF b(2) this, of rx_demo_l] show ?thesis
    unfolding b(1) using rx_demo_wf(1) by (simp add: rx_short_w_def META_LEN_def rx_wf_def)
qed

end
