(* ===== verification/RxBurst.thy ===== *)
theory RxBurst
  imports EnqProps
begin

text \<open>
  The receive thread (\<^verbatim>\<open>enqueue\<close> of src/code_dump/bkend/bkend.c) over many packets. \<open>enq_run\<close> is its
  loop, with a bound on the number of iterations because an idle thread polls for ever; \<open>enqueue\<close> is the
  whole function. \<open>rx_burst\<close> describes a guest that offers the buffers of \<open>k\<close> packets at once, and
  \<open>enq_run_burst\<close> shows by induction on \<open>k\<close> that the loop sends all of them, one after the other, with
  every buffer and every element of the used ring kept as the later packets are written.
\<close>

section \<open>The loop\<close>

fun enq_run ::
  "nat \<Rightarrow> string \<Rightarrow> rx_local \<Rightarrow> backend \<Rightarrow> mem \<Rightarrow> (bool \<times> backend \<times> mem \<times> event list) res" where
  "enq_run 0 took l b m = Inr (True, b, m, [])"
| "enq_run (Suc n) took l b m =
     bindE (enq_step took l b m) (\<lambda>(go, b, m, es).
       if go then
         bindE (enq_run n took l b m) (\<lambda>(go, b, m, es'). Inr (go, b, m, es @ es'))
       else Inr (False, b, m, es))"

definition enqueue ::
  "nat \<Rightarrow> string \<Rightarrow> u8 list \<Rightarrow> backend \<Rightarrow> mem \<Rightarrow> (bool \<times> backend \<times> mem \<times> event list) res" where
  "enqueue n took garbage b m = bindE (enq_start garbage b) (\<lambda>l. enq_run n took l b m)"

section \<open>A burst of packets\<close>

text \<open>The cells that the driver owns while the device works: the available ring and the descriptors
  of the offered buffers.\<close>

definition rx_driver :: "nat \<Rightarrow> rx_local \<Rightarrow> nat \<Rightarrow> (nat \<Rightarrow> u16) \<Rightarrow> u64 set" where
  "rx_driver sz l n d =
     span (avail_flags_at (r_avail l)) (4 + 2 * sz) \<union>
     (\<Union>i<n. span (desc_addr_at (r_desc l) (unat (d i))) 16)"

text \<open>What the device writes for the buffers \<open>A\<close>.\<close>

definition rx_touched ::
  "nat \<Rightarrow> rx_local \<Rightarrow> u16 \<Rightarrow> nat set \<Rightarrow> (nat \<Rightarrow> u32) \<Rightarrow> (nat \<Rightarrow> u64) \<Rightarrow> u64 set" where
  "rx_touched sz l upos A len va =
     (\<Union>i\<in>A. span (va i) (unat (len i)) \<union> rx_ring_fp l (unat (upos + of_nat i) mod sz))"

definition rx_burst ::
  "nat \<Rightarrow> rx_local \<Rightarrow> backend \<Rightarrow> mem \<Rightarrow> nat \<Rightarrow> (nat \<Rightarrow> u16) \<Rightarrow> (nat \<Rightarrow> u64) \<Rightarrow> (nat \<Rightarrow> u32) \<Rightarrow> (nat \<Rightarrow> u64) \<Rightarrow> bool"
  where
  "rx_burst sz l b m k d addr len va \<longleftrightarrow>
     rx_wf sz l b \<and> length (buf_vec b) = 16 \<and> vq_avail (vq b ! 0) = r_avail l \<and> 3 * k \<le> sz \<and>
     load16 m (avail_idx_at (r_avail l)) = Inr (last_avail_idx (vq b ! 0) + of_nat (3 * k)) \<and>
     rx_offer sz l (last_avail_idx (vq b ! 0)) m (3 * k) d addr len \<and>
     rx_room sz l b m (3 * k) addr len va \<and> (\<forall>j<k. 48 \<le> unat (len (3 * j))) \<and>
     rx_driver sz l (3 * k) d \<inter> (span (used_idx_at (r_used l)) 2 \<union> used_area (r_used l) sz) = {} \<and>
     (\<forall>i<3 * k. rx_driver sz l (3 * k) d \<inter> span (va i) (unat (len i)) = {})"

text \<open>The part of the packet that buffer \<open>i\<close> gets: the buffers are used in groups of three.\<close>

definition rx_piece :: "rx_local \<Rightarrow> (nat \<Rightarrow> u32) \<Rightarrow> nat \<Rightarrow> u8 list" where
  "rx_piece l len i =
     take (unat (len i)) (drop (\<Sum>t\<in>{3 * (i div 3)..<i}. unat (len t)) (take 10288 (r_pkt l)))"

lemma rx_piece_shift: "rx_piece l (\<lambda>i. len (i + 3)) i = rx_piece l len (i + 3)"
proof -
  have "(i + 3) div 3 = i div 3 + 1" by simp
  then have "3 * ((i + 3) div 3) = 3 * (i div 3) + 3" by simp
  then show ?thesis
    using sum.shift_bounds_nat_ivl[of "\<lambda>t. unat (len t)" "3 * (i div 3)" 3 i] by (simp add: rx_piece_def)
qed

lemma rx_piece_first:
  "i < 3 \<Longrightarrow> rx_piece l len i = take (unat (len i)) (drop (\<Sum>k<i. unat (len k)) (take 10288 (r_pkt l)))"
  by (simp add: rx_piece_def lessThan_atLeast0)

text \<open>Three buffers that are long enough together hold the whole packet.\<close>

lemma rx_pieces_packet:
  assumes "10288 \<le> (\<Sum>t\<in>{3 * j..<3 * j + 3}. unat (len t))"
  shows "concat (map (rx_piece l len) [3 * j..<3 * j + 3]) = take 10288 (r_pkt l)"
proof -
  let ?p = "take 10288 (r_pkt l)" and ?n = "\<lambda>t. unat (len (3 * j + t))"
  have S: "(\<Sum>t\<in>{3 * j..<3 * j + 3}. unat (len t)) = ?n 0 + ?n 1 + ?n 2"
    by (simp add: numeral_3_eq_3 numeral_2_eq_2 sum.atLeastLessThan_Suc)
  have "[3 * j..<3 * j + 3] = [3 * j, 3 * j + 1, 3 * j + 2]" by (simp add: upt_rec)
  moreover have "rx_piece l len (3 * j) = take (?n 0) ?p" by (simp add: rx_piece_def)
  moreover have "rx_piece l len (3 * j + 1) = take (?n 1) (drop (?n 0) ?p)"
  proof -
    have "{3 * j..<3 * j + 1} = {3 * j}" "(3 * j + 1) div 3 = j" by auto
    then show ?thesis unfolding rx_piece_def by simp
  qed
  moreover have "rx_piece l len (3 * j + 2) = take (?n 2) (drop (?n 0 + ?n 1) ?p)"
  proof -
    have "{3 * j..<3 * j + 2} = {3 * j, 3 * j + 1}" "(3 * j + 2) div 3 = j" by auto
    then show ?thesis unfolding rx_piece_def by simp
  qed
  moreover have "take (?n 0) ?p @ take (?n 1) (drop (?n 0) ?p) @ take (?n 2) (drop (?n 0 + ?n 1) ?p) = ?p"
  proof -
    have "take (?n 0 + ?n 1 + ?n 2) ?p = take (?n 0) ?p @ take (?n 1) (drop (?n 0) ?p) @ take (?n 2) (drop (?n 0 + ?n 1) ?p)"
      by (simp only: take_add append_assoc)
    moreover have "take (?n 0 + ?n 1 + ?n 2) ?p = ?p" using assms S by simp
    ultimately show ?thesis by simp
  qed
  ultimately show ?thesis by (simp only: list.map concat.simps append_Nil2)
qed

section \<open>The rest of a burst\<close>

lemma rx_driver_cells:
  assumes "0 < sz"
  shows "span (avail_flags_at (r_avail l)) 2 \<subseteq> rx_driver sz l n d"
    "span (avail_idx_at (r_avail l)) 2 \<subseteq> rx_driver sz l n d"
    "span (avail_ring_at (r_avail l) (unat (p :: u16) mod sz)) 2 \<subseteq> rx_driver sz l n d"
    "i < n \<Longrightarrow> span (desc_addr_at (r_desc l) (unat (d i))) 16 \<subseteq> rx_driver sz l n d"
  using avail_in(1,2)[of "r_avail l" sz] avail_in(3)[of "unat p mod sz" sz "r_avail l"] assms unfolding rx_driver_def by auto

lemma rx_offer_agree:
  assumes "rx_offer sz l pos m n d addr len" "agree_off S m m'" "rx_driver sz l n d \<inter> S = {}" "0 < sz"
  shows "rx_offer sz l pos m' n d addr len"
proof -
  note D = rx_driver_cells[OF assms(4), where l = l]
  have "load16 m' (avail_ring_at (r_avail l) (unat p mod sz)) = load16 m (avail_ring_at (r_avail l) (unat p mod sz))"
    for p :: u16 by (rule c16.ld_agree[OF assms(2) disjoint_mono[OF D(3) assms(3)]])
  moreover note desc_fields_agree[OF assms(2) disjoint_mono[OF D(4) assms(3)]]
  ultimately show ?thesis using assms(1) by (simp add: rx_offer_def)
qed

lemma rx_offer_tail:
  "rx_offer sz l pos m (3 + n) d addr len \<Longrightarrow>
   rx_offer sz l (pos + 3) m n (\<lambda>i. d (i + 3)) (\<lambda>i. addr (i + 3)) (\<lambda>i. len (i + 3))"
proof -
  assume a: "rx_offer sz l pos m (3 + n) d addr len"
  have "load16 m (avail_ring_at (r_avail l) (unat (pos + 3 + of_nat i) mod sz)) = Inr (d (i + 3))"
    if "i \<le> n" for i
  proof -
    have "pos + 3 + of_nat i = pos + of_nat (i + 3)" by simp
    then show ?thesis using a that unfolding rx_offer_def by (metis add.commute add_le_cancel_left)
  qed
  with a show ?thesis by (simp add: rx_offer_def)
qed

lemma rx_offer_init: "rx_offer sz l pos m (k + n) d addr len \<Longrightarrow> rx_offer sz l pos m k d addr len"
  by (simp add: rx_offer_def)

lemma rx_room_init: "rx_room sz l b m (k + n) addr len va \<Longrightarrow> rx_room sz l b m k addr len va"
  by (simp add: rx_room_def)

lemma rx_room_tail:
  "rx_room sz l b m (3 + n) addr len va \<Longrightarrow>
   rx_room sz l b m n (\<lambda>i. addr (i + 3)) (\<lambda>i. len (i + 3)) (\<lambda>i. va (i + 3))"
  by (simp add: rx_room_def)

lemma rx_driver_tail: "rx_driver sz l n (\<lambda>i. d (i + 3)) \<subseteq> rx_driver sz l (3 + n) d"
  by (force simp: rx_driver_def)

lemma rx_touched_tail:
  "rx_touched sz l (upos + 3) {..<n} (\<lambda>i. len (i + 3)) (\<lambda>i. va (i + 3)) = rx_touched sz l upos {3..<3 + n} len va"
proof -
  have *: "{3..<3 + n} = (\<lambda>i. i + 3) ` {..<n}"
    using image_add_atLeastLessThan'[of 3 0 n] by (simp add: lessThan_atLeast0 add.commute)
  show ?thesis unfolding rx_touched_def * by (simp add: ac_simps)
qed

lemma rx_touched_mono: "A \<subseteq> B \<Longrightarrow> rx_touched sz l upos A len va \<subseteq> rx_touched sz l upos B len va"
  unfolding rx_touched_def by (rule UN_mono) auto

lemma rx_driver_touched:
  assumes "rx_burst sz l b m k d addr len va" "A \<subseteq> {..<3 * k}"
  shows "rx_driver sz l (3 * k) d \<inter> rx_touched sz l upos A len va = {}"
proof -
  have "0 < sz" using assms(1) by (simp add: rx_burst_def rx_wf_def)
  then have fp: "rx_ring_fp l (unat (p :: u16) mod sz) \<subseteq> span (used_idx_at (r_used l)) 2 \<union> used_area (r_used l) sz" for p
    by (intro rx_ring_fp_in) simp
  have "rx_driver sz l (3 * k) d \<inter> (span (va i) (unat (len i)) \<union> rx_ring_fp l (unat (upos + of_nat i) mod sz)) = {}"
    if "i \<in> A" for i
    using assms that fp[of "upos + of_nat i"] unfolding rx_burst_def by blast
  then show ?thesis unfolding rx_touched_def Int_UN_distrib by simp
qed

lemma rx_filled_later:
  assumes "rx_burst sz l b m k d addr len va" "j < 3" "3 \<le> 3 * k" "agree_off (rx_touched sz l upos {3..<3 * k} len va) m1 m2"
    and "rx_filled (r_used l) m1 (unat (upos + of_nat j) mod sz) (va j) e (rx_piece l len j)"
  shows "rx_filled (r_used l) m2 (unat (upos + of_nat j) mod sz) (va j) e (rx_piece l len j)"
proof -
  from assms(1) have b: "rx_room sz l b m (3 * k) addr len va" "3 * k \<le> sz" "0 < sz" "sz \<le> 32768" "sz dvd 65536"
    by (simp_all add: rx_burst_def rx_wf_def)
  have "j < 3 * k" using assms(2,3) by simp
  note ap = rx_apart[OF b(1) this b(2-5), of upos]
  have sub: "rx_touched sz l upos {3..<3 * k} len va \<subseteq>
      (\<Union>i\<in>{Suc j..<3 * k}. span (va i) (unat (len i)) \<union> rx_ring_fp l (unat (upos + of_nat i) mod sz))"
    unfolding rx_touched_def using assms(2) by (intro UN_mono) auto
  have "length (rx_piece l len j) \<le> unat (len j)" by (simp add: rx_piece_def)
  from disjoint_mono[OF span_mono[OF this] ap(1)] have
    "span (va j) (length (rx_piece l len j)) \<inter> rx_touched sz l upos {3..<3 * k} len va = {}"
    using sub by blast
  moreover have "span (used_id_at (r_used l) (unat (upos + of_nat j) mod sz)) 8 \<inter>
      rx_touched sz l upos {3..<3 * k} len va = {}" using ap(2) sub by blast
  ultimately show ?thesis by (rule rx_filled_agree[OF assms(5,4)])
qed

text \<open>One packet of a burst, and what remains of the burst.\<close>

lemma rx_burst_step:
  assumes bu: "rx_burst sz l b m (Suc k) d addr len va" and cnt: "unat (rxcnt b) + 1 < 1000000"
    and fl: "load16 m (avail_flags_at (r_avail l)) = Inr fl"
  defines "u \<equiv> last_used_idx (vq b ! 0)"
  obtains b' m' where "enq_step took l b m = Inr (True, b', m', rx_kick (vq b ! 0) fl)"
    "rx_burst sz l b' m' k (\<lambda>i. d (i + 3)) (\<lambda>i. addr (i + 3)) (\<lambda>i. len (i + 3)) (\<lambda>i. va (i + 3))"
    "agree_off (rx_touched sz l u {..<3} len va) m m'"
    "\<forall>i<3. rx_filled (r_used l) m' (unat (u + of_nat i) mod sz) (va i) (ucast (d i)) (rx_piece l len i)"
    "vq b' ! 0 = (vq b ! 0)\<lparr>last_avail_idx := last_avail_idx (vq b ! 0) + 3, last_used_idx := u + 3\<rparr>"
    "rxcnt b' = rxcnt b + 1" "load16 m' (used_idx_at (r_used l)) = Inr (u + 3)"
proof -
  let ?p = "last_avail_idx (vq b ! 0)" and ?n = "3 * k"
  have n: "3 * Suc k = 3 + ?n" by simp
  note B = bu[unfolded rx_burst_def n]
  from B have w: "rx_wf sz l b" "3 \<le> sz" "0 < sz" "vq b \<noteq> []" by (auto simp: rx_wf_def)
  have av: "vq_avail (vq b ! 0) = r_avail l" using B by simp
  note D = rx_driver_cells[OF w(3), where l = l and n = "3 + ?n" and d = d]
  have flags: "\<forall>i<3. span (avail_flags_at (vq_avail (vq b ! 0))) 2 \<inter>
      (span (va i) (unat (len i)) \<union> span (used_idx_at (r_used l)) 2 \<union> used_area (r_used l) sz) = {}"
  proof (intro allI impI)
    fix i :: nat assume "i < 3"
    with B have "rx_driver sz l (3 + ?n) d \<inter> span (va i) (unat (len i)) = {}"
      "rx_driver sz l (3 + ?n) d \<inter> (span (used_idx_at (r_used l)) 2 \<union> used_area (r_used l) sz) = {}" by simp_all
    from disjoint_mono[OF D(1) this(1)] disjoint_mono[OF D(1) this(2)]
    show "span (avail_flags_at (vq_avail (vq b ! 0))) 2 \<inter>
      (span (va i) (unat (len i)) \<union> span (used_idx_at (r_used l)) 2 \<union> used_area (r_used l) sz) = {}"
      unfolding av by (simp add: Int_Un_distrib)
  qed
  have ex: "\<exists>go b' m' es. enq_packet took l b m = Inr (go, b', m', es) \<and>
    (\<forall>i<3. rx_filled (r_used l) m' (unat (u + of_nat i) mod sz) (va i) (ucast (d i))
       (take (unat (len i)) (drop (\<Sum>k<i. unat (len k)) (take 10288 (r_pkt l))))) \<and>
    load16 m' (used_idx_at (r_used l)) = Inr (u + 3) \<and>
    last_avail_idx (vq b' ! 0) = ?p + 3 \<and> last_used_idx (vq b' ! 0) = u + 3 \<and>
    agree_off (\<Union>i<3. span (va i) (unat (len i)) \<union> rx_ring_fp l (unat (u + of_nat i) mod sz)) m m' \<and>
    es = rx_kick (vq b ! 0) fl @ snd (snd (enq_count took b))"
    by (rule enq_packet_ok[OF w(1,2) _ _ refl u_def[THEN meta_eq_to_obj_eq] rx_offer_init rx_room_init _ flags])
       (use B fl av in auto)
  then obtain go b' m' es where e: "enq_packet took l b m = Inr (go, b', m', es)"
    and f: "\<forall>i<3. rx_filled (r_used l) m' (unat (u + of_nat i) mod sz) (va i) (ucast (d i)) (rx_piece l len i)"
    and ui: "load16 m' (used_idx_at (r_used l)) = Inr (u + 3)"
    and ag: "agree_off (rx_touched sz l u {..<3} len va) m m'"
    and es: "es = rx_kick (vq b ! 0) fl @ snd (snd (enq_count took b))"
    by (auto simp: rx_piece_first rx_touched_def)
  have un: "unat (rxcnt b + 1) = unat (rxcnt b) + 1" using cnt by (simp add: unat_word_ariths)
  then have c: "enq_count took b = (True, b\<lparr>rxcnt := rxcnt b + 1\<rparr>, [])"
    using cnt by (auto simp: enq_count_def Let_def NUM_RX_FRAMES_def word_unat_eq_iff)
  obtain bv where b': "b' = (rx_advance 3 b)\<lparr>buf_vec := bv, rxcnt := rxcnt b + 1\<rparr>"
    "length bv = length (buf_vec b)" "go"
    by (rule enq_packet_advance[OF e]) (simp add: c)
  have q: "vq b' ! 0 = (vq b ! 0)\<lparr>last_avail_idx := ?p + 3, last_used_idx := u + 3\<rparr>"
    using w(4) by (simp add: b'(1) u_def)
  show ?thesis
  proof (rule that[OF _ _ ag f q _ ui])
    have "?p \<noteq> ?p + of_nat (3 + ?n)" using pending_differs[of "3 + ?n" ?p] B by (simp add: rx_wf_def)
    moreover have "rxcnt b < NUM_RX_FRAMES" using cnt by (simp add: NUM_RX_FRAMES_def word_less_nat_alt)
    ultimately show "enq_step took l b m = Inr (True, b', m', rx_kick (vq b ! 0) fl)"
      using B e es c b'(3) w(4) by (simp add: enq_step_def)
    show "rxcnt b' = rxcnt b + 1" by (simp add: b'(1))
    have off: "rx_driver sz l (3 + ?n) d \<inter> rx_touched sz l u {..<3} len va = {}"
      using rx_driver_touched[OF bu, of "{..<3}" u] by simp
    have "rx_offer sz l ?p m' (3 + ?n) d addr len" by (rule rx_offer_agree[OF _ ag off w(3)]) (use B in simp)
    from rx_offer_tail[OF this]
    have o: "rx_offer sz l (?p + 3) m' ?n (\<lambda>i. d (i + 3)) (\<lambda>i. addr (i + 3)) (\<lambda>i. len (i + 3))" .
    have "rx_room sz l b' m' (3 + ?n) addr len va"
      using B ag by (simp add: b'(1) rx_room_def agree_off_def gpa_to_va_def)
    from rx_room_tail[OF this]
    have ro: "rx_room sz l b' m' ?n (\<lambda>i. addr (i + 3)) (\<lambda>i. len (i + 3)) (\<lambda>i. va (i + 3))" .
    have ai: "load16 m' (avail_idx_at (r_avail l)) = Inr (?p + 3 + of_nat ?n)"
      using c16.ld_agree[OF ag disjoint_mono[OF D(2) off]] B by (simp add: ac_simps)
    have drv: "rx_driver sz l ?n (\<lambda>i. d (i + 3)) \<inter> X = {}" if "rx_driver sz l (3 + ?n) d \<inter> X = {}" for X
      using that rx_driver_tail[of sz l ?n d] by blast
    have len48: "\<forall>j<k. 48 \<le> unat (len (3 * j + 3))"
      using B by (metis Suc_less_eq add.commute mult_Suc_right)
    show "rx_burst sz l b' m' k (\<lambda>i. d (i + 3)) (\<lambda>i. addr (i + 3)) (\<lambda>i. len (i + 3)) (\<lambda>i. va (i + 3))"
      unfolding rx_burst_def q
      using B o ro ai len48 b'(2) drv by (auto simp: b'(1) rx_wf_def)
  qed
qed

section \<open>All packets of a burst\<close>

lemma rx_kick_indices [simp]: "rx_kick (q\<lparr>last_avail_idx := x, last_used_idx := y\<rparr>) fl = rx_kick q fl"
  by (simp add: rx_kick_def)

lemma enq_run_burst:
  assumes "rx_burst sz l b m k d addr len va" "unat (rxcnt b) + k < 1000000"
    and "load16 m (avail_flags_at (r_avail l)) = Inr fl" "u = last_used_idx (vq b ! 0)"
  shows "\<exists>b' m'. enq_run k took l b m = Inr (True, b', m', concat (replicate k (rx_kick (vq b ! 0) fl))) \<and>
    (\<forall>i<3 * k. rx_filled (r_used l) m' (unat (u + of_nat i) mod sz) (va i) (ucast (d i)) (rx_piece l len i)) \<and>
    agree_off (rx_touched sz l u {..<3 * k} len va) m m' \<and>
    vq b' ! 0 = (vq b ! 0)\<lparr>last_avail_idx := last_avail_idx (vq b ! 0) + of_nat (3 * k), last_used_idx := u + of_nat (3 * k)\<rparr> \<and>
    rxcnt b' = rxcnt b + of_nat k \<and> vq b' \<noteq> [] \<and>
    load16 m' (avail_idx_at (r_avail l)) = Inr (last_avail_idx (vq b' ! 0)) \<and>
    (0 < k \<longrightarrow> load16 m' (used_idx_at (r_used l)) = Inr (u + of_nat (3 * k)))"
  using assms
proof (induction k arbitrary: b m d addr len va u)
  case 0
  then show ?case by (simp add: rx_burst_def rx_wf_def)
next
  case (Suc k)
  let ?d = "\<lambda>i. d (i + 3)" and ?addr = "\<lambda>i. addr (i + 3)" and ?len = "\<lambda>i. len (i + 3)" and ?va = "\<lambda>i. va (i + 3)"
  obtain b1 m1 where s1: "enq_step took l b m = Inr (True, b1, m1, rx_kick (vq b ! 0) fl)"
    and bu: "rx_burst sz l b1 m1 k ?d ?addr ?len ?va"
    and ag: "agree_off (rx_touched sz l u {..<3} len va) m m1"
    and f: "\<forall>i<3. rx_filled (r_used l) m1 (unat (u + of_nat i) mod sz) (va i) (ucast (d i)) (rx_piece l len i)"
    and q: "vq b1 ! 0 = (vq b ! 0)\<lparr>last_avail_idx := last_avail_idx (vq b ! 0) + 3, last_used_idx := u + 3\<rparr>"
    and c: "rxcnt b1 = rxcnt b + 1" and ui: "load16 m1 (used_idx_at (r_used l)) = Inr (u + 3)"
    by (rule rx_burst_step[where took = took, OF Suc.prems(1) _ Suc.prems(3)])
       (use Suc.prems(2,4) in auto)
  have sz: "0 < sz" using Suc.prems(1) by (simp add: rx_burst_def rx_wf_def)
  have off: "rx_driver sz l (3 * Suc k) d \<inter> rx_touched sz l u {..<3} len va = {}"
    by (rule rx_driver_touched[OF Suc.prems(1)]) auto
  have fl: "load16 m1 (avail_flags_at (r_avail l)) = Inr fl"
    using c16.ld_agree[OF ag disjoint_mono[OF rx_driver_cells(1)[OF sz] off]] Suc.prems(3) by simp
  have "unat (rxcnt b1) + k < 1000000" using Suc.prems(2) by (simp add: c unat_word_ariths)
  from Suc.IH[OF bu this fl, of "u + 3"] q obtain b' m' where
    r: "enq_run k took l b1 m1 = Inr (True, b', m', concat (replicate k (rx_kick (vq b ! 0) fl)))"
    and rf: "\<forall>i<3 * k. rx_filled (r_used l) m' (unat (u + 3 + of_nat i) mod sz) (va (i + 3)) (ucast (d (i + 3)))
      (rx_piece l ?len i)"
    and rag: "agree_off (rx_touched sz l (u + 3) {..<3 * k} ?len ?va) m1 m'"
    and rq: "vq b' ! 0 = (vq b ! 0)\<lparr>last_avail_idx := last_avail_idx (vq b ! 0) + 3 + of_nat (3 * k), last_used_idx := u + 3 + of_nat (3 * k)\<rparr>"
    and rc: "rxcnt b' = rxcnt b + 1 + of_nat k" "vq b' \<noteq> []"
      "load16 m' (avail_idx_at (r_avail l)) = Inr (last_avail_idx (vq b' ! 0))"
      "0 < k \<longrightarrow> load16 m' (used_idx_at (r_used l)) = Inr (u + 3 + of_nat (3 * k))"
    by (auto simp: c)
  note rag' = rag[unfolded rx_touched_tail]
  have "enq_run (Suc k) took l b m = Inr (True, b', m', concat (replicate (Suc k) (rx_kick (vq b ! 0) fl)))"
    using s1 r by simp
  moreover have "rx_filled (r_used l) m' (unat (u + of_nat i) mod sz) (va i) (ucast (d i)) (rx_piece l len i)"
    if "i < 3 * Suc k" for i
  proof (cases "i < 3")
    case True
    have "agree_off (rx_touched sz l u {3..<3 * Suc k} len va) m1 m'" using rag' by simp
    from rx_filled_later[OF Suc.prems(1) True _ this f[rule_format, OF True]] show ?thesis by simp
  next
    case False
    define j where "j = i - 3"
    have j: "i = j + 3" "j < 3 * k" using False that by (simp_all add: j_def)
    have "u + 3 + of_nat j = u + of_nat (j + 3)" by simp
    then show ?thesis using rf[rule_format, OF j(2)] unfolding j(1) rx_piece_shift by (simp only:)
  qed
  moreover have "agree_off (rx_touched sz l u {..<3 * Suc k} len va) m m'"
    by (rule agree_off_mono[OF agree_off_trans[OF ag rag']]) (intro Un_least rx_touched_mono; auto)
  moreover have "load16 m' (used_idx_at (r_used l)) = Inr (u + of_nat (3 * Suc k))"
  proof (cases "k = 0")
    case True
    with r have "m' = m1" by simp
    with True ui show ?thesis by simp
  qed (use rc(4) in \<open>simp add: ac_simps\<close>)
  moreover have "x + 3 + of_nat (3 * k) = x + of_nat (3 * Suc k)" for x :: u16 by simp
  with rq have "vq b' ! 0 = (vq b ! 0)\<lparr>last_avail_idx := last_avail_idx (vq b ! 0) + of_nat (3 * Suc k),
      last_used_idx := u + of_nat (3 * Suc k)\<rparr>" by metis
  moreover have "rxcnt b' = rxcnt b + of_nat (Suc k)" using rc(1) by simp
  ultimately show ?case using rc(2,3) by blast
qed

lemma enq_run_idle:
  assumes "vq b \<noteq> []" "rxcnt b < NUM_RX_FRAMES"
    and "load16 m (avail_idx_at (r_avail l)) = Inr (last_avail_idx (vq b ! 0))"
  shows "enq_run n took l b m = Inr (True, b, m, [])"
  using assms by (induction n) (simp_all add: enq_step_def)

lemma enq_run_add:
  assumes "enq_run k took l b m = Inr (True, b', m', es)" "enq_run n took l b' m' = Inr (go, b'', m'', es')"
  shows "enq_run (k + n) took l b m = Inr (go, b'', m'', es @ es')"
  using assms
proof (induction k arbitrary: b m es)
  case (Suc k)
  then show ?case by (auto simp: bindE_eq_Inr_iff split: if_splits)
qed simp

section \<open>The property\<close>

text \<open>C10: A burst of packets. Started on queue 0 of a device whose guest offers the buffers of \<open>k\<close>
  packets, three writable buffers each, apart from each other and from the rings, the receive thread
  sends all \<open>k\<close> packets and then polls without changing anything, however many iterations follow. At the end
  every buffer still holds its part of its packet and every element of the used ring names its buffer
  and its length, in the order in which the guest offered the buffers; both indices have advanced by
  \<open>3 * k\<close> and the used index is published; the guest was notified once per packet unless it has
  switched that off; nothing else in memory has changed. Three buffers that are long enough together
  hold the whole packet.\<close>

theorem enqueue_burst:
  assumes "enq_start garbage b = Inr l" "rx_burst sz l b m k d addr len va" "0 < k"
    and "unat (rxcnt b) + k < 1000000" "load16 m (avail_flags_at (r_avail l)) = Inr fl"
    and "p = last_avail_idx (vq b ! 0)" "u = last_used_idx (vq b ! 0)"
  shows "\<exists>b' m'. enqueue (k + n) took garbage b m =
      Inr (True, b', m', concat (replicate k (rx_kick (vq b ! 0) fl))) \<and>
    (\<forall>i<3 * k. rx_filled (r_used l) m' (unat (u + of_nat i) mod sz) (va i) (ucast (d i)) (rx_piece l len i)) \<and>
    load16 m' (used_idx_at (r_used l)) = Inr (u + of_nat (3 * k)) \<and>
    last_avail_idx (vq b' ! 0) = p + of_nat (3 * k) \<and> last_used_idx (vq b' ! 0) = u + of_nat (3 * k) \<and>
    rxcnt b' = rxcnt b + of_nat k \<and> agree_off (rx_touched sz l u {..<3 * k} len va) m m' \<and>
    (\<forall>j<k. 10288 \<le> (\<Sum>t\<in>{3 * j..<3 * j + 3}. unat (len t)) \<longrightarrow>
       concat (map (rx_piece l len) [3 * j..<3 * j + 3]) = take 10288 (r_pkt l))"
proof -
  from enq_run_burst[where took = took, OF assms(2,4,5,7)] assms(3,6) obtain b' m' where
    r: "enq_run k took l b m = Inr (True, b', m', concat (replicate k (rx_kick (vq b ! 0) fl)))"
    and f: "\<forall>i<3 * k. rx_filled (r_used l) m' (unat (u + of_nat i) mod sz) (va i) (ucast (d i)) (rx_piece l len i)"
    and q: "last_avail_idx (vq b' ! 0) = p + of_nat (3 * k)" "last_used_idx (vq b' ! 0) = u + of_nat (3 * k)"
    and a: "agree_off (rx_touched sz l u {..<3 * k} len va) m m'" and c: "rxcnt b' = rxcnt b + of_nat k"
    and i: "vq b' \<noteq> []" "load16 m' (avail_idx_at (r_avail l)) = Inr (last_avail_idx (vq b' ! 0))"
    and ui: "load16 m' (used_idx_at (r_used l)) = Inr (u + of_nat (3 * k))"
    by auto
  have "unat (rxcnt b') = unat (rxcnt b) + k" using assms(4) by (simp add: c unat_word_ariths unat_of_nat)
  with assms(4) have "rxcnt b' < NUM_RX_FRAMES" by (simp add: NUM_RX_FRAMES_def word_less_nat_alt)
  from enq_run_add[OF r enq_run_idle[OF i(1) this i(2)]]
  have "enqueue (k + n) took garbage b m = Inr (True, b', m', concat (replicate k (rx_kick (vq b ! 0) fl)))"
    using assms(1) by (simp add: enqueue_def)
  with f ui q c a rx_pieces_packet show ?thesis by blast
qed

section \<open>A concrete guest\<close>

text \<open>One region at guest address 0 mapped at 65536, a receive queue of size 8, and six descriptors with
  buffers of 64 bytes, all of them offered: two packets.\<close>

definition rx_two_b :: backend where
  "rx_two_b = zero_backend\<lparr>nregions := 1,
     regions := (regions zero_backend)[0 := zero_region\<lparr>reg_size := 4096, mmap_addr := 65536\<rparr>],
     vq := [zero_vq\<lparr>vq_size := 8, vq_desc := 65536, vq_avail := 65664, vq_used := 65728\<rparr>, zero_vq]\<rparr>"

definition rx_two_byte :: "nat \<Rightarrow> nat" where
  "rx_two_byte a =
     (if a < 96 \<and> a mod 16 = 0 then 64 * (a div 16) else if a < 96 \<and> a mod 16 = 1 then 2 + a div 64
      else if a < 96 \<and> a mod 16 = 8 then 64 else if a < 96 \<and> a mod 16 = 12 then 2
      else if a = 130 then 6 else if 132 \<le> a \<and> a < 146 \<and> even a then (a - 132) div 2 else 0)"

definition rx_two_mem :: mem where
  "rx_two_mem a = (if 65536 \<le> a \<and> a < 66560 then Some (of_nat (rx_two_byte (unat a - 65536))) else None)"

definition rx_two_l :: rx_local where
  "rx_two_l = \<lparr>r_avail = 65664, r_used = 65728, r_desc = 65536, r_size = 8,
     r_pkt = ixverify_meta 3 0 6 (replicate 12325 0)\<rparr>"

definition rx_two_va :: "nat \<Rightarrow> u64" where
  "rx_two_va i = 66048 + of_nat (64 * i)"

lemmas rx_two_defs = rx_two_b_def rx_two_l_def rx_two_mem_def rx_two_byte_def rx_two_va_def

lemma lt6: "(i::nat) < 6 \<longleftrightarrow> i = 0 \<or> i = 1 \<or> i = 2 \<or> i = 3 \<or> i = 4 \<or> i = 5"
  by auto

lemma rx_two_start: "enq_start (replicate DUMMY_PKT_SIZE 0) rx_two_b = Inr rx_two_l"
  by (simp add: enq_start_def rx_two_b_def rx_two_l_def zero_vq_def buf_write_def DUMMY_PKT_SIZE_def
      RX_FRAME_LEN_def META_LEN_def RX_NBUFS_def flip: replicate_add)

lemma rx_two_load:
  "load16 rx_two_mem (avail_idx_at 65664) = Inr 6" "load16 rx_two_mem (avail_flags_at 65664) = Inr 0"
  by (simp_all add: load16_def mem_simps rx_two_mem_def rx_two_byte_def avail_idx_at_def avail_flags_at_def)

lemma rx_two_offer:
  "rx_offer 8 rx_two_l 0 rx_two_mem 6 of_nat (\<lambda>i. 512 + of_nat (64 * i)) (\<lambda>i. 64)"
proof -
  have "load16 rx_two_mem (avail_ring_at 65664 (unat (0 + of_nat i :: u16) mod 8)) = Inr (of_nat i)"
    if "i \<le> 6" for i
  proof -
    from that have "i = 6 \<or> i < 6" by auto
    then show ?thesis unfolding lt6
      by (elim disjE) (simp_all add: load16_def mem_simps rx_two_mem_def rx_two_byte_def avail_ring_at_def)
  qed
  moreover have "load16 rx_two_mem (desc_flags_at 65536 (unat (of_nat i :: u16))) = Inr VRING_DESC_F_WRITE \<and>
        load64 rx_two_mem (desc_addr_at 65536 (unat (of_nat i :: u16))) = Inr (512 + of_nat (64 * i)) \<and>
        load32 rx_two_mem (desc_len_at 65536 (unat (of_nat i :: u16))) = Inr 64" if "i < 6" for i
    using that unfolding lt6
    by (elim disjE) (simp_all add: load16_def load32_def load64_def mem_simps rx_two_mem_def rx_two_byte_def
        desc_flags_at_def desc_addr_at_def desc_len_at_def VRING_DESC_F_WRITE_def)
  ultimately show ?thesis by (simp add: rx_offer_def rx_two_l_def)
qed

lemma rx_two_span:
  "65536 \<le> unat a \<Longrightarrow> unat a + n \<le> 66560 \<Longrightarrow> span a n \<subseteq> dom rx_two_mem"
proof
  fix x assume a: "65536 \<le> unat a" "unat a + n \<le> 66560" and "x \<in> span a n"
  have "unat a + n \<le> 2 ^ 64" using a(2) by simp
  from span_below[OF this \<open>x \<in> span a n\<close>] a have "65536 \<le> unat x \<and> unat x < 66560" by linarith
  then show "x \<in> dom rx_two_mem"
    by (simp add: rx_two_mem_def dom_def word_le_nat_alt word_less_nat_alt)
qed

lemma rx_two_va_unat: "i < 6 \<Longrightarrow> unat (rx_two_va i) = 66048 + 64 * i"
  unfolding lt6 by (elim disjE) (simp_all add: rx_two_va_def)

lemma rx_two_ring: "span (used_idx_at 65728) 2 \<union> used_area 65728 8 \<subseteq> span 65728 68"
  using span_shift[of 2 2 68 65728] span_shift[of 4 64 68 65728]
  by (simp add: used_area_def used_idx_at_def used_id_at_def)

lemma rx_two_driver: "rx_driver 8 rx_two_l 6 of_nat \<subseteq> span 65536 148"
proof -
  have "span (desc_addr_at 65536 (unat (of_nat i :: u16))) 16 \<subseteq> span 65536 148" if "i < 6" for i
    using that span_shift[of "16 * i" 16 148 65536]
    by (simp add: desc_addr_at_def unat_of_nat)
  then show ?thesis
    using span_shift[of 128 20 148 65536]
    by (auto simp: rx_driver_def rx_two_l_def avail_flags_at_def)
qed

lemma rx_two_apart:
  "i < 6 \<Longrightarrow> span (rx_two_va i) 64 \<inter> span 65536 512 = {}"
  "i < 6 \<Longrightarrow> k < i \<Longrightarrow> span (rx_two_va k) 64 \<inter> span (rx_two_va i) 64 = {}"
  by (rule span_apart_abs; simp add: rx_two_va_unat)+

lemma rx_two_burst:
  "rx_burst 8 rx_two_l rx_two_b rx_two_mem 2 of_nat (\<lambda>i. 512 + of_nat (64 * i)) (\<lambda>i. 64) rx_two_va"
proof -
  have lo: "span 65728 68 \<subseteq> span 65536 512" "span 65536 148 \<subseteq> span 65536 512" "span 65536 148 \<inter> span 65728 68 = {}"
    using span_shift[of 192 68 512 65536] span_mono[of 148 512 65536] by (simp_all add: span_apart_abs)
  have gpa: "gpa_to_va (512 + of_nat (64 * i)) 0 rx_two_b = Inr (rx_two_va i)" if "i < 6" for i
    using that unfolding lt6
    by (elim disjE) (simp_all add: gpa_to_va_def rx_two_b_def rx_two_va_def zero_backend_def zero_region_def
      VHOST_MEMORY_MAX_NREGIONS_def region_loop.simps)
  have "rx_room 8 rx_two_l rx_two_b rx_two_mem 6 (\<lambda>i. 512 + of_nat (64 * i)) (\<lambda>i. 64) rx_two_va"
  proof -
    have "span (rx_two_va i) 64 \<subseteq> dom rx_two_mem" if "i < 6" for i
      by (rule rx_two_span) (use that in \<open>simp_all add: rx_two_va_unat\<close>)
    moreover have "span (rx_two_va i) 64 \<inter> (span (used_idx_at 65728) 2 \<union> used_area 65728 8) = {}" if "i < 6" for i
      using rx_two_apart(1)[OF that] rx_two_ring lo(1) by blast
    moreover have "span (used_idx_at 65728) 2 \<union> used_area 65728 8 \<subseteq> dom rx_two_mem"
      by (rule order_trans[OF rx_two_ring rx_two_span]) simp_all
    ultimately show ?thesis using gpa rx_two_apart(2) by (simp add: rx_room_def rx_two_l_def)
  qed
  moreover have "rx_driver 8 rx_two_l 6 of_nat \<inter> (span (used_idx_at 65728) 2 \<union> used_area 65728 8) = {}"
    using rx_two_driver rx_two_ring lo(3) by blast
  moreover have "rx_driver 8 rx_two_l 6 of_nat \<inter> span (rx_two_va i) 64 = {}" if "i < 6" for i
    using rx_two_driver rx_two_apart(1)[OF that] lo(2) by blast
  moreover have "rx_wf 8 rx_two_l rx_two_b" "length (buf_vec rx_two_b) = 16"
    by (simp_all add: rx_wf_def rx_two_l_def rx_two_b_def ixverify_meta_def DUMMY_PKT_SIZE_def zero_backend_def)
  moreover have "last_avail_idx (vq rx_two_b ! 0) = 0" "vq_avail (vq rx_two_b ! 0) = 65664"
    "r_avail rx_two_l = 65664" "r_used rx_two_l = 65728"
    by (simp_all add: rx_two_b_def rx_two_l_def zero_vq_def)
  ultimately show ?thesis using rx_two_load(1) rx_two_offer by (simp add: rx_burst_def)
qed

theorem enqueue_burst_witness:
  "\<exists>b' m' es. enqueue 5 '''' (replicate DUMMY_PKT_SIZE 0) rx_two_b rx_two_mem = Inr (True, b', m', es) \<and>
     length es = 2 \<and> load16 m' 65730 = Inr 6 \<and> rxcnt b' = 2 \<and>
     load m' 66240 64 = Inr ([3, 0, 0, 6, 0, 0, 0, 0, 0, 0, 0] @ replicate 53 0)"
proof -
  have c: "unat (rxcnt rx_two_b) + 2 < 1000000" "rxcnt rx_two_b = 0" "last_used_idx (vq rx_two_b ! 0) = 0"
    "last_avail_idx (vq rx_two_b ! 0) = 0" by (simp_all add: rx_two_b_def zero_backend_def zero_vq_def)
  have fl: "load16 rx_two_mem (avail_flags_at (r_avail rx_two_l)) = Inr 0"
    using rx_two_load(2) by (simp add: rx_two_l_def)
  from enqueue_burst[where n = 3 and took = "''''", OF rx_two_start rx_two_burst _ c(1) fl refl refl] c
  obtain b' m' where r:
    "enqueue 5 '''' (replicate DUMMY_PKT_SIZE 0) rx_two_b rx_two_mem =
      Inr (True, b', m', concat (replicate 2 (rx_kick (vq rx_two_b ! 0) 0)))"
    "\<forall>i<6. rx_filled (r_used rx_two_l) m' (unat (0 + of_nat i :: u16) mod 8) (rx_two_va i) (ucast (of_nat i :: u16))
      (rx_piece rx_two_l (\<lambda>i. 64) i)"
    "load16 m' (used_idx_at (r_used rx_two_l)) = Inr 6" "rxcnt b' = 2" by auto
  have "rx_filled 65728 m' 3 66240 3 (take 64 (take 10288 (ixverify_meta 3 0 6 (replicate 12325 0))))"
    using r(2)[rule_format, of 3] by (simp add: rx_piece_def rx_two_va_def rx_two_l_def)
  then have "load m' 66240 64 = Inr ([3, 0, 0, 6, 0, 0, 0, 0, 0, 0, 0] @ replicate 53 0)"
    by (simp add: rx_filled_def ixverify_meta_def le_bytes_unfold flip: replicate_add)
  moreover have "length (concat (replicate 2 (rx_kick (vq rx_two_b ! 0) 0))) = 2"
    by (simp add: rx_kick_def numeral_2_eq_2)
  ultimately show ?thesis using r(1,3,4) by (auto simp: rx_two_l_def used_idx_at_def)
qed

end
