(* ===== verification/RxRing.thy ===== *)
theory RxRing
  imports RxBurst
begin

text \<open>
  The receive thread and the guest driver running at the same time on the rings they share.

  \<open>rx_thread\<close> cuts the loop of \<^verbatim>\<open>enqueue\<close> (src/code_dump/bkend/bkend.c) at the points where the driver
  can notice it: the test of \<^verbatim>\<open>avail->idx\<close> with the collection of the three buffers, the work on one
  buffer, which ends with the store of \<^verbatim>\<open>used->idx\<close>, and the notification. \<open>run_packet\<close> shows that without
  a driver the pieces add up to \<open>enq_packet\<close>. The driver is not code of the repository: \<open>rx_step\<close> lets it write
  what it owns, offer three buffers at a time and take back used ones, in any interleaving with
  the thread. It may take a buffer back while the thread still works on the packet.

  \<open>rxq_step\<close> is the abstract stream of packets. The invariant \<open>rx_inv\<close> holds in every state that can be
  reached, and the system refines the stream: the driver reads the packets in pieces as long as its
  buffers, in the order in which it offered them, each once.
\<close>

section \<open>The thread in steps\<close>

text \<open>\<open>RxFill cnt written remaining u_idx\<close>: the thread is about to fill buffer \<open>cnt\<close> of the three.\<close>

datatype rx_pc = RxCheck | RxFill nat u32 u32 nat | RxKick | RxDone

text \<open>A buffer as the driver offers it: its descriptor, its place in the memory of the process, and
  its length.\<close>

record rx_buf =
  bf_idx :: u16
  bf_va :: u64
  bf_len :: u32

text \<open>The last four components are histories: the value of both ring indices at the start, the
  buffers offered so far, the number of buffers filled, and what the driver has read.\<close>

record rx_sys =
  y_pc :: rx_pc
  y_l :: rx_local
  y_b :: backend
  y_m :: mem
  y_base :: u16
  y_sub :: "rx_buf list"
  y_done :: nat
  y_read :: "(u32 \<times> u8 list) list"

definition rx_collect :: "rx_local \<Rightarrow> backend \<Rightarrow> mem \<Rightarrow> (nat \<times> backend \<times> event list) res" where
  "rx_collect l b m =
     bindE (arr_get (vq b) 0) (\<lambda>q.
     bindE (rx_slot (last_avail_idx q) (r_size l)) (\<lambda>a_idx.
     bindE (rx_slot (last_used_idx q) (r_size l)) (\<lambda>u_idx.
     bindE (load16 m (avail_ring_at (r_avail l) a_idx)) (\<lambda>d_idx.
     bindE (enq_collect RX_NBUFS l m d_idx (of_nat a_idx) 0 (buf_vec b)) (\<lambda>(cnt, bv, es).
       if cnt \<noteq> RX_NBUFS then Inl (AssertFail ''nbufs_cnt==nbufs'')
       else Inr (u_idx, b\<lparr>buf_vec := bv\<rparr>, es))))))"

definition rx_thread :: "string \<Rightarrow> rx_sys \<Rightarrow> (rx_sys \<times> event list) res" where
  "rx_thread took s =
     (case y_pc s of
        RxCheck \<Rightarrow>
          if rxcnt (y_b s) < NUM_RX_FRAMES then
            bindE (arr_get (vq (y_b s)) 0) (\<lambda>q.
            bindE (load16 (y_m s) (avail_idx_at (r_avail (y_l s)))) (\<lambda>avail_index.
              if last_avail_idx q \<noteq> avail_index then
                bindE (rx_collect (y_l s) (y_b s) (y_m s)) (\<lambda>(u_idx, b, es).
                  Inr (s\<lparr>y_pc := RxFill 0 0 RX_FRAME_LEN u_idx, y_b := b\<rparr>, es))
              else Inr (s, [])))
          else Inr (s\<lparr>y_pc := RxDone\<rparr>, [])
      | RxFill cnt wr rm u \<Rightarrow>
          bindE (enq_one (y_l s) cnt \<lparr>w_written = wr, w_remaining = rm, w_uidx = u, w_bk = y_b s, w_mem = y_m s\<rparr>) (\<lambda>w.
            Inr (s\<lparr>y_pc := (if Suc cnt < RX_NBUFS
                            then RxFill (Suc cnt) (w_written w) (w_remaining w) (w_uidx w) else RxKick),
                   y_b := w_bk w, y_m := w_mem w, y_done := Suc (y_done s)\<rparr>, []))
      | RxKick \<Rightarrow>
          bindE (enq_kick (y_b s) (y_m s)) (\<lambda>es.
            case enq_count took (y_b s) of (go, b, es') \<Rightarrow>
              Inr (s\<lparr>y_pc := (if go then RxCheck else RxDone), y_b := b\<rparr>, es @ es'))
      | RxDone \<Rightarrow> Inr (s, []))"

fun rx_run :: "nat \<Rightarrow> string \<Rightarrow> rx_sys \<Rightarrow> (rx_sys \<times> event list) res" where
  "rx_run 0 took s = Inr (s, [])"
| "rx_run (Suc n) took s =
     bindE (rx_thread took s) (\<lambda>(s, es). bindE (rx_run n took s) (\<lambda>(s, es'). Inr (s, es @ es')))"

text \<open>With no driver in between, five steps are one iteration of the loop of \<^verbatim>\<open>enqueue\<close> that finds a
  buffer.\<close>

lemma rx_write_eta [simp]:
  "\<lparr>w_written = w_written w, w_remaining = w_remaining w, w_uidx = w_uidx w, w_bk = w_bk w, w_mem = w_mem w\<rparr> = w"
  by simp

lemma enq_packet_collect:
  "enq_packet took l b m =
     bindE (rx_collect l b m) (\<lambda>(u_idx, b, es1).
     bindE (enq_fill l [0, 1, 2] \<lparr>w_written = 0, w_remaining = RX_FRAME_LEN, w_uidx = u_idx, w_bk = b, w_mem = m\<rparr>) (\<lambda>w.
     bindE (enq_kick (w_bk w) (w_mem w)) (\<lambda>es2.
       case enq_count took (w_bk w) of (go, b, es3) \<Rightarrow> Inr (go, b, w_mem w, es1 @ es2 @ es3))))"
proof -
  have n: "[0..<RX_NBUFS] = [0, 1, 2]" by (simp add: RX_NBUFS_def upt_rec)
  show ?thesis
    unfolding enq_packet_def rx_collect_def bindE_assoc n
    by (intro arg_cong2[where f = bindE] refl ext) (auto simp: bindE_assoc split: prod.splits)
qed

lemma run_packet:
  assumes "y_pc s = RxCheck" "enq_step took (y_l s) (y_b s) (y_m s) = Inr (go, b', m', es)"
    and "rxcnt (y_b s) < NUM_RX_FRAMES" "load16 (y_m s) (avail_idx_at (r_avail (y_l s))) = Inr i"
    and "vq (y_b s) \<noteq> []" "i \<noteq> last_avail_idx (vq (y_b s) ! 0)"
  shows "rx_run 5 took s =
    Inr (s\<lparr>y_pc := (if go then RxCheck else RxDone), y_b := b', y_m := m', y_done := y_done s + 3\<rparr>, es)"
proof -
  have step: "enq_step took (y_l s) (y_b s) (y_m s) = enq_packet took (y_l s) (y_b s) (y_m s)"
    using assms(3-6) by (auto simp: enq_step_def)
  note e = assms(2)[unfolded step enq_packet_collect]
  from e obtain u b1 es1 where c: "rx_collect (y_l s) (y_b s) (y_m s) = Inr (u, b1, es1)"
    unfolding bindE_eq_Inr_iff by (metis prod_cases3)
  note e' = e[unfolded c bindE_Inr prod.case]
  from e' obtain w3 where
    f: "enq_fill (y_l s) [0, 1, 2] \<lparr>w_written = 0, w_remaining = RX_FRAME_LEN, w_uidx = u, w_bk = b1, w_mem = y_m s\<rparr> = Inr w3"
    unfolding bindE_eq_Inr_iff by blast
  note e'' = e'[unfolded f bindE_Inr]
  from e'' obtain es2 where k1: "enq_kick (w_bk w3) (w_mem w3) = Inr es2" unfolding bindE_eq_Inr_iff by blast
  from e''[unfolded k1 bindE_Inr] obtain es3 where
    k: "enq_count took (w_bk w3) = (go, b', es3)" and r: "m' = w_mem w3" "es = es1 @ es2 @ es3"
    by (cases "enq_count took (w_bk w3)") auto
  from f obtain w1 w2 where
    w: "enq_one (y_l s) 0 \<lparr>w_written = 0, w_remaining = RX_FRAME_LEN, w_uidx = u, w_bk = b1, w_mem = y_m s\<rparr> = Inr w1"
      "enq_one (y_l s) 1 w1 = Inr w2" "enq_one (y_l s) 2 w2 = Inr w3"
    by (auto simp: bindE_eq_Inr_iff)
  let ?s1 = "s\<lparr>y_pc := RxFill 0 0 RX_FRAME_LEN u, y_b := b1\<rparr>"
  let ?s2 = "s\<lparr>y_pc := RxFill 1 (w_written w1) (w_remaining w1) (w_uidx w1), y_b := w_bk w1, y_m := w_mem w1, y_done := y_done s + 1\<rparr>"
  let ?s3 = "s\<lparr>y_pc := RxFill 2 (w_written w2) (w_remaining w2) (w_uidx w2), y_b := w_bk w2, y_m := w_mem w2, y_done := y_done s + 2\<rparr>"
  let ?s4 = "s\<lparr>y_pc := RxKick, y_b := w_bk w3, y_m := w_mem w3, y_done := y_done s + 3\<rparr>"
  have "rx_thread took s = Inr (?s1, es1)" using assms c by (auto simp: rx_thread_def)
  moreover have "rx_thread took ?s1 = Inr (?s2, [])" "rx_thread took ?s2 = Inr (?s3, [])" "rx_thread took ?s3 = Inr (?s4, [])"
    using w by (simp_all add: rx_thread_def RX_NBUFS_def numeral_2_eq_2)
  moreover have "rx_thread took ?s4 = Inr (s\<lparr>y_pc := (if go then RxCheck else RxDone), y_b := b', y_m := m', y_done := y_done s + 3\<rparr>, es2 @ es3)"
    using k1 k r by (simp add: rx_thread_def)
  moreover have "(5 :: nat) = Suc (Suc (Suc (Suc (Suc 0))))" by simp
  ultimately show ?thesis using r by (simp only: rx_run.simps bindE_Inr prod.case) simp
qed

section \<open>The guest driver\<close>

definition ring_pos :: "nat \<Rightarrow> u16 \<Rightarrow> nat \<Rightarrow> nat" where
  "ring_pos sz base j = unat (base + of_nat j) mod sz"

text \<open>What the device writes in the rings, the available ring, and the areas of a buffer.\<close>

definition rx_dev :: "nat \<Rightarrow> rx_local \<Rightarrow> u64 set" where
  "rx_dev sz l = span (used_idx_at (r_used l)) 2 \<union> used_area (r_used l) sz"

definition rx_avail :: "nat \<Rightarrow> rx_local \<Rightarrow> u64 set" where
  "rx_avail sz l = span (avail_flags_at (r_avail l)) (4 + 2 * sz)"

definition buf_span :: "rx_buf \<Rightarrow> u64 set" where
  "buf_span x = span (bf_va x) (unat (bf_len x))"

definition desc_span :: "rx_local \<Rightarrow> rx_buf \<Rightarrow> u64 set" where
  "desc_span l x = span (desc_addr_at (r_desc l) (unat (bf_idx x))) 16"

text \<open>The descriptor of a buffer: writable, not linked, with the address and the length of the buffer.\<close>

definition rx_good :: "rx_local \<Rightarrow> backend \<Rightarrow> mem \<Rightarrow> rx_buf \<Rightarrow> bool" where
  "rx_good l b m x \<longleftrightarrow>
     load16 m (desc_flags_at (r_desc l) (unat (bf_idx x))) = Inr VRING_DESC_F_WRITE \<and>
     (\<exists>a. load64 m (desc_addr_at (r_desc l) (unat (bf_idx x))) = Inr a \<and> gpa_to_va a 0 b = Inr (bf_va x)) \<and>
     load32 m (desc_len_at (r_desc l) (unat (bf_idx x))) = Inr (bf_len x)"

text \<open>The buffers from number \<open>n\<close> on are mapped and apart from each other, from the rings and from the
  descriptors.\<close>

definition rx_live :: "nat \<Rightarrow> rx_local \<Rightarrow> mem \<Rightarrow> nat \<Rightarrow> rx_buf list \<Rightarrow> bool" where
  "rx_live sz l m n bs \<longleftrightarrow>
     (\<forall>i. n \<le> i \<longrightarrow> i < length bs \<longrightarrow>
        buf_span (bs ! i) \<subseteq> dom m \<and> buf_span (bs ! i) \<inter> (rx_dev sz l \<union> rx_avail sz l) = {} \<and>
        desc_span l (bs ! i) \<inter> (rx_dev sz l \<union> rx_avail sz l) = {} \<and>
        (\<forall>j. n \<le> j \<longrightarrow> j < length bs \<longrightarrow>
           desc_span l (bs ! i) \<inter> buf_span (bs ! j) = {} \<and> (i \<noteq> j \<longrightarrow> buf_span (bs ! i) \<inter> buf_span (bs ! j) = {})))"

text \<open>What the driver leaves alone: the used ring, the available index, the slots and descriptors of
  the buffers that are not yet filled, and the buffers that it has not yet read.\<close>

definition rx_keeps :: "nat \<Rightarrow> rx_sys \<Rightarrow> u64 set" where
  "rx_keeps sz s =
     rx_dev sz (y_l s) \<union> span (avail_idx_at (r_avail (y_l s))) 2 \<union>
     (\<Union>j \<in> {y_done s ..< length (y_sub s)}.
        span (avail_ring_at (r_avail (y_l s)) (ring_pos sz (y_base s) j)) 2 \<union> desc_span (y_l s) (y_sub s ! j)) \<union>
     (\<Union>j \<in> {length (y_read s) ..< length (y_sub s)}. buf_span (y_sub s ! j))"

inductive rx_step :: "nat \<Rightarrow> rx_sys \<Rightarrow> rx_sys \<Rightarrow> bool" for sz :: nat where
  rx_thread_step: "rx_thread took s = Inr (s', es) \<Longrightarrow> rx_step sz s s'"
| rx_guest_write:
    "agree_off G (y_m s) m' \<Longrightarrow> G \<inter> rx_keeps sz s = {} \<Longrightarrow> rx_step sz s (s\<lparr>y_m := m'\<rparr>)"
| rx_guest_offer:
    "length xs = 3 \<Longrightarrow> length (y_sub s) + 3 \<le> length (y_read s) + sz \<Longrightarrow> 48 \<le> unat (bf_len (xs ! 0)) \<Longrightarrow>
     \<forall>k<3. load16 (y_m s) (avail_ring_at (r_avail (y_l s)) (ring_pos sz (y_base s) (length (y_sub s) + k))) = Inr (bf_idx (xs ! k)) \<and>
       rx_good (y_l s) (y_b s) (y_m s) (xs ! k) \<Longrightarrow>
     rx_live sz (y_l s) (y_m s) (length (y_read s)) (y_sub s @ xs) \<Longrightarrow>
     load16 (y_m s) (avail_idx_at (r_avail (y_l s))) = Inr i \<Longrightarrow>
     store16 (y_m s) (avail_idx_at (r_avail (y_l s))) (i + 3) = Inr m' \<Longrightarrow>
     rx_step sz s (s\<lparr>y_m := m', y_sub := y_sub s @ xs\<rparr>)"
| rx_guest_read:
    "load16 (y_m s) (used_idx_at (r_used (y_l s))) = Inr u \<Longrightarrow> u \<noteq> y_base s + of_nat (length (y_read s)) \<Longrightarrow>
     load32 (y_m s) (used_id_at (r_used (y_l s)) (ring_pos sz (y_base s) (length (y_read s)))) = Inr d \<Longrightarrow>
     load32 (y_m s) (used_len_at (r_used (y_l s)) (ring_pos sz (y_base s) (length (y_read s)))) = Inr n \<Longrightarrow>
     find (\<lambda>x. ucast (bf_idx x) = d) (drop (length (y_read s)) (y_sub s)) = Some x \<Longrightarrow>
     load (y_m s) (bf_va x) (unat n) = Inr bs \<Longrightarrow>
     rx_step sz s (s\<lparr>y_read := y_read s @ [(d, bs)]\<rparr>)"

inductive rx_reach :: "nat \<Rightarrow> rx_sys \<Rightarrow> rx_sys \<Rightarrow> bool" for sz :: nat and s :: rx_sys where
  rx_reach_refl: "rx_reach sz s s"
| rx_reach_step: "rx_reach sz s s' \<Longrightarrow> rx_step sz s' s'' \<Longrightarrow> rx_reach sz s s''"

section \<open>The invariant\<close>

abbreviation blens :: "rx_buf list \<Rightarrow> nat \<Rightarrow> u32" where
  "blens bs \<equiv> \<lambda>i. bf_len (bs ! i)"

definition rx_layout :: "nat \<Rightarrow> rx_local \<Rightarrow> backend \<Rightarrow> mem \<Rightarrow> bool" where
  "rx_layout sz l b m \<longleftrightarrow>
     rx_wf sz l b \<and> 3 \<le> sz \<and> length (buf_vec b) = 16 \<and> vq_avail (vq b ! 0) = r_avail l \<and>
     rx_dev sz l \<subseteq> dom m \<and> rx_avail sz l \<subseteq> dom m \<and> rx_avail sz l \<inter> rx_dev sz l = {}"

text \<open>\<open>rx_front\<close> is what the driver has offered, \<open>rx_back\<close> what it finds in the used ring and the buffers that it
  has not yet read.\<close>

definition rx_front :: "nat \<Rightarrow> rx_local \<Rightarrow> backend \<Rightarrow> mem \<Rightarrow> u16 \<Rightarrow> rx_buf list \<Rightarrow> nat \<Rightarrow> bool" where
  "rx_front sz l b m base bs n \<longleftrightarrow>
     load16 m (avail_idx_at (r_avail l)) = Inr (base + of_nat (length bs)) \<and>
     (\<forall>j. n \<le> j \<longrightarrow> j < length bs \<longrightarrow>
        load16 m (avail_ring_at (r_avail l) (ring_pos sz base j)) = Inr (bf_idx (bs ! j)) \<and> rx_good l b m (bs ! j)) \<and>
     (\<forall>j < length bs. j mod 3 = 0 \<longrightarrow> 48 \<le> unat (bf_len (bs ! j))) \<and> length bs mod 3 = 0"

definition rx_back :: "nat \<Rightarrow> rx_local \<Rightarrow> mem \<Rightarrow> u16 \<Rightarrow> rx_buf list \<Rightarrow> nat \<Rightarrow> nat \<Rightarrow> bool" where
  "rx_back sz l m base bs k n \<longleftrightarrow>
     load16 m (used_idx_at (r_used l)) = Inr (base + of_nat n) \<and>
     (\<forall>j. k \<le> j \<longrightarrow> j < n \<longrightarrow>
        rx_filled (r_used l) m (ring_pos sz base j) (bf_va (bs ! j)) (ucast (bf_idx (bs ! j))) (rx_piece l (blens bs) j))"

text \<open>The local variables of the loop that fills the three buffers.\<close>

fun rx_mid :: "nat \<Rightarrow> backend \<Rightarrow> u16 \<Rightarrow> rx_buf list \<Rightarrow> nat \<Rightarrow> rx_pc \<Rightarrow> bool" where
  "rx_mid sz b base bs n (RxFill c wr rm u) \<longleftrightarrow>
     n mod 3 = c \<and> n < length bs \<and> u = ring_pos sz base n \<and>
     (let t = (\<Sum>i\<in>{3 * (n div 3)..<n}. unat (bf_len (bs ! i))) in
      wr = of_nat (min 10240 (t - 48)) \<and> rm = of_nat (10240 - (t - 48))) \<and>
     (\<forall>k. c \<le> k \<longrightarrow> k < 3 \<longrightarrow>
        (\<exists>a. buf_vec b ! k = \<lparr>buf_addr = a, buf_len = bf_len (bs ! (3 * (n div 3) + k)),
                              desc_idx = ucast (bf_idx (bs ! (3 * (n div 3) + k)))\<rparr> \<and>
             gpa_to_va a 0 b = Inr (bf_va (bs ! (3 * (n div 3) + k)))))"
| "rx_mid sz b base bs n pc \<longleftrightarrow> n mod 3 = 0"

text \<open>What the driver has read: each buffer with its part of the packet.\<close>

definition rx_hist :: "rx_local \<Rightarrow> rx_buf list \<Rightarrow> (u32 \<times> u8 list) list \<Rightarrow> bool" where
  "rx_hist l bs rd \<longleftrightarrow> rd = map (\<lambda>j. (ucast (bf_idx (bs ! j)), rx_piece l (blens bs) j)) [0..<length rd]"

definition rx_inv :: "nat \<Rightarrow> rx_sys \<Rightarrow> bool" where
  "rx_inv sz s \<longleftrightarrow>
     rx_layout sz (y_l s) (y_b s) (y_m s) \<and>
     rx_front sz (y_l s) (y_b s) (y_m s) (y_base s) (y_sub s) (y_done s) \<and>
     rx_live sz (y_l s) (y_m s) (length (y_read s)) (y_sub s) \<and>
     rx_back sz (y_l s) (y_m s) (y_base s) (y_sub s) (length (y_read s)) (y_done s) \<and>
     rx_mid sz (y_b s) (y_base s) (y_sub s) (y_done s) (y_pc s) \<and>
     last_avail_idx (vq (y_b s) ! 0) = y_base s + of_nat (y_done s) \<and>
     last_used_idx (vq (y_b s) ! 0) = y_base s + of_nat (y_done s) \<and>
     length (y_read s) \<le> y_done s \<and> y_done s \<le> length (y_sub s) \<and> length (y_sub s) \<le> length (y_read s) + sz \<and>
     rx_hist (y_l s) (y_sub s) (y_read s)"

section \<open>The parts of the invariant and the memory\<close>

lemma ring_pos_less [simp]: "0 < sz \<Longrightarrow> ring_pos sz base j < sz"
  by (simp add: ring_pos_def)

lemma rx_avail_cells:
  assumes "0 < sz"
  shows "span (avail_flags_at (r_avail l)) 2 \<subseteq> rx_avail sz l" "span (avail_idx_at (r_avail l)) 2 \<subseteq> rx_avail sz l"
    "span (avail_ring_at (r_avail l) (ring_pos sz base j)) 2 \<subseteq> rx_avail sz l"
  using avail_in(1,2)[of "r_avail l" sz] avail_in(3)[of "ring_pos sz base j" sz "r_avail l"] assms
  by (simp_all add: rx_avail_def)

lemma avail_ring_idx_apart: "k < 32768 \<Longrightarrow> span (avail_ring_at a k) 2 \<inter> span (avail_idx_at a) 2 = {}"
  using span_apart[of 0 2 "2 + 2 * k" 2 "avail_idx_at a"]
  by (auto simp: avail_idx_at_def avail_ring_at_def ac_simps)

lemma rx_dev_cells:
  "0 < sz \<Longrightarrow> span (used_id_at (r_used l) (ring_pos sz base j)) 8 \<subseteq> rx_dev sz l"
  "span (used_idx_at (r_used l)) 2 \<subseteq> rx_dev sz l"
  "0 < sz \<Longrightarrow> rx_ring_fp l (ring_pos sz base j) \<subseteq> rx_dev sz l"
  using used_elem_in[of "ring_pos sz base j" sz "r_used l"] rx_ring_fp_in[of "ring_pos sz base j" sz l]
  by (auto simp: rx_dev_def)

lemma ring_pos_distinct:
  assumes "sz dvd 65536" "i < j" "j < i + sz"
  shows "ring_pos sz base i \<noteq> ring_pos sz base j"
proof -
  have "base + of_nat j = (base + of_nat i) + of_nat (j - i)" using assms(2) by (simp add: of_nat_diff)
  then show ?thesis
    using slot_distinct[OF assms(1), of "j - i" "base + of_nat i"] assms(2,3) by (simp add: ring_pos_def)
qed

lemma rx_good_agree:
  assumes "rx_good l b m x" "agree_off S m m'" "desc_span l x \<inter> S = {}"
  shows "rx_good l b m' x"
  using assms(1) desc_fields_agree[OF assms(2)] assms(3) by (simp add: rx_good_def desc_span_def)

lemma rx_good_advance: "rx_good l b m x \<Longrightarrow> regions b' = regions b \<Longrightarrow> nregions b' = nregions b \<Longrightarrow> rx_good l b' m x"
  by (simp add: rx_good_def gpa_to_va_def)

lemma rx_front_agree:
  assumes "rx_front sz l b m base bs n" "agree_off S m m'" "n \<le> n'"
    and "span (avail_idx_at (r_avail l)) 2 \<inter> S = {}"
    and "\<And>j. n' \<le> j \<Longrightarrow> j < length bs \<Longrightarrow>
      span (avail_ring_at (r_avail l) (ring_pos sz base j)) 2 \<inter> S = {} \<and> desc_span l (bs ! j) \<inter> S = {}"
  shows "rx_front sz l b m' base bs n'"
proof -
  have "load16 m' (avail_idx_at (r_avail l)) = load16 m (avail_idx_at (r_avail l))"
    by (rule c16.ld_agree[OF assms(2,4)])
  moreover have "load16 m' (avail_ring_at (r_avail l) (ring_pos sz base j)) = Inr (bf_idx (bs ! j)) \<and> rx_good l b m' (bs ! j)"
    if "n' \<le> j" "j < length bs" for j
    using assms(1,3,5) that c16.ld_agree[OF assms(2)] rx_good_agree[OF _ assms(2)] by (simp add: rx_front_def)
  ultimately show ?thesis using assms(1) by (simp add: rx_front_def)
qed

lemma rx_piece_length: "length (rx_piece l len j) \<le> unat (len j)" "length (rx_piece l len j) \<le> 10288"
  by (simp_all add: rx_piece_def)

lemma rx_piece_cong: "(\<And>t. t \<le> j \<Longrightarrow> len' t = len t) \<Longrightarrow> rx_piece l len' j = rx_piece l len j"
  by (simp add: rx_piece_def)

lemma rx_filled_keep:
  assumes "rx_filled (r_used l) m u (bf_va (bs ! j)) d (rx_piece l (blens bs) j)" "agree_off S m m'"
    and "buf_span (bs ! j) \<inter> S = {}" "span (used_id_at (r_used l) u) 8 \<inter> S = {}"
  shows "rx_filled (r_used l) m' u (bf_va (bs ! j)) d (rx_piece l (blens bs) j)"
proof (rule rx_filled_agree[OF assms(1,2) _ assms(4)])
  from disjoint_mono[OF span_mono[OF rx_piece_length(1)[of l "blens bs" j]] assms(3)[unfolded buf_span_def]]
  show "span (bf_va (bs ! j)) (length (rx_piece l (blens bs) j)) \<inter> S = {}" .
qed

lemma rx_back_agree:
  assumes "rx_back sz l m base bs k n" "agree_off S m m'" "rx_dev sz l \<inter> S = {}" "0 < sz"
    and "\<And>j. k \<le> j \<Longrightarrow> j < n \<Longrightarrow> buf_span (bs ! j) \<inter> S = {}"
  shows "rx_back sz l m' base bs k n"
proof -
  have "load16 m' (used_idx_at (r_used l)) = load16 m (used_idx_at (r_used l))"
    by (rule c16.ld_agree[OF assms(2) disjoint_mono[OF rx_dev_cells(2) assms(3)]])
  moreover have "rx_filled (r_used l) m' (ring_pos sz base j) (bf_va (bs ! j)) (ucast (bf_idx (bs ! j))) (rx_piece l (blens bs) j)"
    if "k \<le> j" "j < n" for j
    using assms(1) that
    by (intro rx_filled_keep[OF _ assms(2) assms(5)[OF that] disjoint_mono[OF rx_dev_cells(1)[OF assms(4)] assms(3)]])
       (simp add: rx_back_def)
  ultimately show ?thesis using assms(1) by (simp add: rx_back_def)
qed

lemma rx_layout_dom: "rx_layout sz l b m \<Longrightarrow> dom m' = dom m \<Longrightarrow> rx_layout sz l b m'"
  by (simp add: rx_layout_def)

lemma rx_live_dom: "rx_live sz l m n bs \<Longrightarrow> dom m' = dom m \<Longrightarrow> rx_live sz l m' n bs"
  by (simp add: rx_live_def)

lemma rx_layoutD:
  assumes "rx_layout sz l b m"
  shows "0 < sz" "sz \<le> 32768" "sz dvd 65536" "3 \<le> sz" "vq b \<noteq> []" "length (r_pkt l) = DUMMY_PKT_SIZE" "r_size l = of_nat sz"
    "rx_dev sz l \<subseteq> dom m" "rx_avail sz l \<subseteq> dom m" "rx_avail sz l \<inter> rx_dev sz l = {}"
  using assms by (simp_all add: rx_layout_def rx_wf_def)

lemmas rx_invD = rx_inv_def[THEN iffD1]

section \<open>The driver keeps the invariant\<close>

lemma rx_inv_guest_write:
  assumes inv: "rx_inv sz s" and ag: "agree_off G (y_m s) m'" and G: "G \<inter> rx_keeps sz s = {}"
  shows "rx_inv sz (s\<lparr>y_m := m'\<rparr>)"
proof -
  note I = rx_invD[OF inv]
  have lay: "rx_layout sz (y_l s) (y_b s) (y_m s)" using I by simp
  have d: "dom m' = dom (y_m s)" using ag by (simp add: agree_off_def)
  have dev: "rx_dev sz (y_l s) \<inter> G = {}" "span (avail_idx_at (r_avail (y_l s))) 2 \<inter> G = {}"
    using G unfolding rx_keeps_def by blast+
  have "rx_front sz (y_l s) (y_b s) m' (y_base s) (y_sub s) (y_done s)"
  proof (rule rx_front_agree[OF _ ag order_refl dev(2)])
    fix j assume "y_done s \<le> j" "j < length (y_sub s)"
    then have "j \<in> {y_done s ..< length (y_sub s)}" by simp
    with G show "span (avail_ring_at (r_avail (y_l s)) (ring_pos sz (y_base s) j)) 2 \<inter> G = {} \<and> desc_span (y_l s) (y_sub s ! j) \<inter> G = {}"
      unfolding rx_keeps_def by blast
  qed (use I in simp)
  moreover have "rx_back sz (y_l s) m' (y_base s) (y_sub s) (length (y_read s)) (y_done s)"
  proof (rule rx_back_agree[OF _ ag dev(1) rx_layoutD(1)[OF lay]])
    fix j assume "length (y_read s) \<le> j" "j < y_done s"
    with I have "j \<in> {length (y_read s) ..< length (y_sub s)}" by simp
    with G show "buf_span (y_sub s ! j) \<inter> G = {}" unfolding rx_keeps_def by blast
  qed (use I in simp)
  ultimately show ?thesis
    using I rx_layout_dom[OF lay d] rx_live_dom[OF _ d] by (simp add: rx_inv_def)
qed

lemma rx_inv_guest_read:
  assumes inv: "rx_inv sz s"
    and u: "load16 (y_m s) (used_idx_at (r_used (y_l s))) = Inr u" "u \<noteq> y_base s + of_nat (length (y_read s))"
    and id: "load32 (y_m s) (used_id_at (r_used (y_l s)) (ring_pos sz (y_base s) (length (y_read s)))) = Inr d"
    and n: "load32 (y_m s) (used_len_at (r_used (y_l s)) (ring_pos sz (y_base s) (length (y_read s)))) = Inr n"
    and x: "find (\<lambda>x. ucast (bf_idx x) = d) (drop (length (y_read s)) (y_sub s)) = Some x"
    and bs: "load (y_m s) (bf_va x) (unat n) = Inr bs"
  defines "k \<equiv> length (y_read s)"
  shows "(d, bs) = (ucast (bf_idx (y_sub s ! k)), rx_piece (y_l s) (blens (y_sub s)) k)" "k < y_done s"
    "rx_inv sz (s\<lparr>y_read := y_read s @ [(d, bs)]\<rparr>)"
proof -
  note I = rx_invD[OF inv, folded k_def]
  let ?p = "rx_piece (y_l s) (blens (y_sub s)) k"
  from I u have "k \<noteq> y_done s" by (auto simp: rx_back_def k_def)
  with I show k: "k < y_done s" by simp
  with I have f: "rx_filled (r_used (y_l s)) (y_m s) (ring_pos sz (y_base s) k) (bf_va (y_sub s ! k)) (ucast (bf_idx (y_sub s ! k))) ?p"
    by (simp add: rx_back_def)
  then have dn: "d = ucast (bf_idx (y_sub s ! k))" "n = of_nat (length ?p)"
    using id n by (simp_all add: rx_filled_def k_def)
  have "k < length (y_sub s)" using k I by simp
  then have "drop k (y_sub s) = y_sub s ! k # drop (Suc k) (y_sub s)" by (rule Cons_nth_drop_Suc[symmetric])
  with x dn(1) have xx: "x = y_sub s ! k" by (simp add: k_def)
  have "unat n = length ?p" using dn(2) rx_piece_length(2)[of "y_l s" "blens (y_sub s)" k] by (simp add: unat_of_nat)
  with bs f xx have "bs = ?p" by (simp add: rx_filled_def)
  with dn(1) show db: "(d, bs) = (ucast (bf_idx (y_sub s ! k)), ?p)" by simp
  have "rx_live sz (y_l s) (y_m s) (Suc k) (y_sub s)" using I by (simp add: rx_live_def)
  moreover have "rx_back sz (y_l s) (y_m s) (y_base s) (y_sub s) (Suc k) (y_done s)" using I by (simp add: rx_back_def)
  moreover have "rx_hist (y_l s) (y_sub s) (y_read s @ [(d, bs)])"
  proof -
    have "y_read s = map (\<lambda>j. (ucast (bf_idx (y_sub s ! j)), rx_piece (y_l s) (blens (y_sub s)) j)) [0..<k]"
      using I by (simp add: rx_hist_def k_def)
    then have "y_read s @ [(d, bs)] =
        map (\<lambda>j. (ucast (bf_idx (y_sub s ! j)), rx_piece (y_l s) (blens (y_sub s)) j)) [0..<Suc k]"
      unfolding db by (metis (no_types, lifting) map_append list.map upt_Suc_append zero_le)
    then show ?thesis by (simp add: rx_hist_def k_def)
  qed
  ultimately show "rx_inv sz (s\<lparr>y_read := y_read s @ [(d, bs)]\<rparr>)"
    using I k unfolding rx_inv_def by (simp add: k_def)
qed

lemma group_bound:
  assumes "n < (len :: nat)" "len mod 3 = 0" "k < 3"
  shows "3 * (n div 3) + k < len"
proof -
  have "3 * (len div 3) = len" using assms(2) by presburger
  moreover have "n div 3 < len div 3" using assms(1,2) by presburger
  ultimately show ?thesis using assms(3) by linarith
qed

lemma rx_mid_append:
  assumes "rx_mid sz b base bs n pc" "length bs mod 3 = 0"
  shows "rx_mid sz b base (bs @ xs) n pc"
proof (cases pc)
  case (RxFill c wr rm u)
  with assms(1) have n: "n < length bs" by simp
  have g: "(bs @ xs) ! (3 * (n div 3) + k) = bs ! (3 * (n div 3) + k)" if "k < 3" for k
    using group_bound[OF n assms(2) that] by (simp add: nth_append)
  have "(\<Sum>i\<in>{3 * (n div 3)..<n}. unat (bf_len ((bs @ xs) ! i))) = (\<Sum>i\<in>{3 * (n div 3)..<n}. unat (bf_len (bs ! i)))"
    using n by (intro sum.cong) (auto simp: nth_append)
  with assms(1) g n RxFill show ?thesis by simp
qed (use assms in simp_all)

lemma rx_hist_append:
  assumes "rx_hist l bs rd" "length rd \<le> length bs"
  shows "rx_hist l (bs @ xs) rd"
proof -
  have "map (\<lambda>j. (ucast (bf_idx ((bs @ xs) ! j)), rx_piece l (blens (bs @ xs)) j)) [0..<length rd] =
      map (\<lambda>j. (ucast (bf_idx (bs ! j)) :: u32, rx_piece l (blens bs) j)) [0..<length rd]"
    using assms(2) by (intro map_cong refl) (auto simp: nth_append intro!: rx_piece_cong)
  with assms(1) show ?thesis unfolding rx_hist_def by simp
qed

lemma rx_back_append:
  assumes "rx_back sz l m base bs k n" "n \<le> length bs"
  shows "rx_back sz l m base (bs @ xs) k n"
proof -
  have "(bs @ xs) ! j = bs ! j" "rx_piece l (blens (bs @ xs)) j = rx_piece l (blens bs) j" if "j < n" for j
    using that assms(2) by (auto simp: nth_append intro!: rx_piece_cong)
  with assms(1) show ?thesis by (simp add: rx_back_def)
qed

lemma rx_live_parts:
  assumes "rx_live sz l m n bs" "n \<le> j" "j < length bs"
  shows "buf_span (bs ! j) \<subseteq> dom m" "buf_span (bs ! j) \<inter> rx_dev sz l = {}" "buf_span (bs ! j) \<inter> rx_avail sz l = {}"
    "desc_span l (bs ! j) \<inter> rx_dev sz l = {}" "desc_span l (bs ! j) \<inter> rx_avail sz l = {}"
    "n \<le> i \<Longrightarrow> i < length bs \<Longrightarrow> desc_span l (bs ! i) \<inter> buf_span (bs ! j) = {}"
    "n \<le> i \<Longrightarrow> i < length bs \<Longrightarrow> i \<noteq> j \<Longrightarrow> buf_span (bs ! i) \<inter> buf_span (bs ! j) = {}"
  using assms unfolding rx_live_def Int_Un_distrib by (simp_all add: Int_Un_distrib)

lemma rx_inv_guest_offer:
  assumes inv: "rx_inv sz s" and xs: "length xs = 3" "length (y_sub s) + 3 \<le> length (y_read s) + sz" "48 \<le> unat (bf_len (xs ! 0))"
    and off: "\<forall>k<3. load16 (y_m s) (avail_ring_at (r_avail (y_l s)) (ring_pos sz (y_base s) (length (y_sub s) + k))) = Inr (bf_idx (xs ! k)) \<and>
       rx_good (y_l s) (y_b s) (y_m s) (xs ! k)"
    and live: "rx_live sz (y_l s) (y_m s) (length (y_read s)) (y_sub s @ xs)"
    and i: "load16 (y_m s) (avail_idx_at (r_avail (y_l s))) = Inr i"
    and st: "store16 (y_m s) (avail_idx_at (r_avail (y_l s))) (i + 3) = Inr m'"
  shows "rx_inv sz (s\<lparr>y_m := m', y_sub := y_sub s @ xs\<rparr>)"
proof -
  note I = rx_invD[OF inv]
  let ?l = "y_l s" and ?bs = "y_sub s" and ?S = "span (avail_idx_at (r_avail (y_l s))) 2"
  from I have lay: "rx_layout sz ?l (y_b s) (y_m s)" and front: "rx_front sz ?l (y_b s) (y_m s) (y_base s) ?bs (y_done s)" by simp_all
  note L = rx_layoutD[OF lay] and ag = c16.st_agree[OF st] and av = rx_avail_cells(2)[OF rx_layoutD(1)[OF lay], of ?l]
  have d: "dom m' = dom (y_m s)" using ag by (simp add: agree_off_def)
  have ii: "i = y_base s + of_nat (length ?bs)" using front i by (simp add: rx_front_def)
  have slot: "load16 m' (avail_ring_at (r_avail ?l) (ring_pos sz (y_base s) j)) = load16 (y_m s) (avail_ring_at (r_avail ?l) (ring_pos sz (y_base s) j))" for j
    by (rule c16.ld_agree[OF ag avail_ring_idx_apart]) (use ring_pos_less[OF L(1), of "y_base s" j] L(2) in linarith)
  have good: "rx_good ?l (y_b s) m' ((?bs @ xs) ! j)"
    if "rx_good ?l (y_b s) (y_m s) ((?bs @ xs) ! j)" "length (y_read s) \<le> j" "j < length (?bs @ xs)" for j
    by (rule rx_good_agree[OF that(1) ag]) (use rx_live_parts(5)[OF live that(2,3)] av in blast)
  have "rx_front sz ?l (y_b s) m' (y_base s) (?bs @ xs) (y_done s)"
    unfolding rx_front_def
  proof (intro conjI allI impI)
    show "load16 m' (avail_idx_at (r_avail ?l)) = Inr (y_base s + of_nat (length (?bs @ xs)))"
      using c16.ld_st[OF st] ii xs(1) by simp
    show "length (?bs @ xs) mod 3 = 0" using front xs(1) by (simp add: rx_front_def)
    fix j assume j: "j < length (?bs @ xs)"
    show "48 \<le> unat (bf_len ((?bs @ xs) ! j))" if "j mod 3 = 0"
    proof (cases "j < length ?bs")
      case True
      with front that show ?thesis by (simp add: rx_front_def nth_append)
    next
      case False
      moreover have "length ?bs mod 3 = 0" "j < length ?bs + 3" using front j xs(1) by (simp_all add: rx_front_def)
      ultimately have "j = length ?bs" using that by presburger
      with xs(3) show ?thesis by (simp add: nth_append)
    qed
    assume dn: "y_done s \<le> j"
    have o: "load16 (y_m s) (avail_ring_at (r_avail ?l) (ring_pos sz (y_base s) j)) = Inr (bf_idx ((?bs @ xs) ! j)) \<and>
        rx_good ?l (y_b s) (y_m s) ((?bs @ xs) ! j)"
    proof (cases "j < length ?bs")
      case True
      with front dn show ?thesis by (simp add: rx_front_def nth_append)
    next
      case False
      with off[rule_format, of "j - length ?bs"] j xs(1) show ?thesis by (simp add: nth_append)
    qed
    then show "load16 m' (avail_ring_at (r_avail ?l) (ring_pos sz (y_base s) j)) = Inr (bf_idx ((?bs @ xs) ! j))"
      using slot by simp
    show "rx_good ?l (y_b s) m' ((?bs @ xs) ! j)" using good o j dn I by simp
  qed
  moreover have "rx_back sz ?l m' (y_base s) (?bs @ xs) (length (y_read s)) (y_done s)"
  proof (rule rx_back_append[OF rx_back_agree[OF _ ag _ L(1)]])
    show "rx_dev sz ?l \<inter> ?S = {}" using L(10) av by blast
    show "buf_span (?bs ! j) \<inter> ?S = {}" if "length (y_read s) \<le> j" "j < y_done s" for j
      using rx_live_parts(3)[of sz ?l "y_m s" "length (y_read s)" ?bs j] that I av by auto
  qed (use I in simp_all)
  moreover have "rx_mid sz (y_b s) (y_base s) (?bs @ xs) (y_done s) (y_pc s)"
    using rx_mid_append I front by (simp add: rx_front_def)
  ultimately show ?thesis
    using I xs(1,2) rx_layout_dom[OF lay d] rx_live_dom[OF live d] rx_hist_append by (simp add: rx_inv_def)
qed

section \<open>The thread keeps the invariant\<close>

text \<open>Filling buffer \<open>n\<close>: the areas that change, seen from the other buffers.\<close>

definition fill_area :: "nat \<Rightarrow> rx_local \<Rightarrow> u16 \<Rightarrow> rx_buf list \<Rightarrow> nat \<Rightarrow> u64 set" where
  "fill_area sz l base bs n = buf_span (bs ! n) \<union> rx_ring_fp l (ring_pos sz base n)"

lemma fill_area_apart:
  assumes lay: "rx_layout sz l b m" and live: "rx_live sz l m k bs" and n: "k \<le> n" "n < length bs"
  shows "rx_avail sz l \<inter> fill_area sz l base bs n = {}"
    "k \<le> j \<Longrightarrow> j < length bs \<Longrightarrow> desc_span l (bs ! j) \<inter> fill_area sz l base bs n = {}"
    "k \<le> j \<Longrightarrow> j < length bs \<Longrightarrow> j \<noteq> n \<Longrightarrow> buf_span (bs ! j) \<inter> fill_area sz l base bs n = {}"
    "k \<le> j \<Longrightarrow> j < n \<Longrightarrow> n < j + sz \<Longrightarrow> span (used_id_at (r_used l) (ring_pos sz base j)) 8 \<inter> fill_area sz l base bs n = {}"
proof -
  note L = rx_layoutD[OF lay] and P = rx_live_parts[OF live]
  have fp: "rx_ring_fp l (ring_pos sz base n) \<subseteq> rx_dev sz l" by (rule rx_dev_cells(3)[OF L(1)])
  show "rx_avail sz l \<inter> fill_area sz l base bs n = {}"
    unfolding fill_area_def using fp L(10) P(3)[OF n] by blast
  show "desc_span l (bs ! j) \<inter> fill_area sz l base bs n = {}" if "k \<le> j" "j < length bs"
    unfolding fill_area_def using fp P(4)[OF that] P(6)[OF n that] by blast
  show "buf_span (bs ! j) \<inter> fill_area sz l base bs n = {}" if "k \<le> j" "j < length bs" "j \<noteq> n"
    unfolding fill_area_def using fp P(2)[OF that(1,2)] P(7)[OF n that] by blast
  show "span (used_id_at (r_used l) (ring_pos sz base j)) 8 \<inter> fill_area sz l base bs n = {}" if "k \<le> j" "j < n" "n < j + sz"
  proof -
    have lt: "ring_pos sz base i < 32768" for i using ring_pos_less[OF L(1), of base i] L(2) by linarith
    have "ring_pos sz base j \<noteq> ring_pos sz base n" by (rule ring_pos_distinct[OF L(3) that(2,3)])
    from used_elem_apart[OF this lt lt, of "r_used l"] used_idx_apart[OF lt[of j], of "r_used l"]
    show ?thesis
      unfolding fill_area_def rx_ring_fp_def
      using P(2)[OF n] rx_dev_cells(1)[OF L(1), of l base j] by blast
  qed
qed

lemma rx_back_fill:
  assumes lay: "rx_layout sz l b m" and live: "rx_live sz l m k bs" and n: "k \<le> n" "n < length bs" "length bs \<le> k + sz"
    and bk: "rx_back sz l m base bs k n" and ag: "agree_off (fill_area sz l base bs n) m m'"
    and fil: "rx_filled (r_used l) m' (ring_pos sz base n) (bf_va (bs ! n)) (ucast (bf_idx (bs ! n))) (rx_piece l (blens bs) n)"
    and ui: "load16 m' (used_idx_at (r_used l)) = Inr (base + of_nat (Suc n))"
  shows "rx_back sz l m' base bs k (Suc n)"
proof -
  note A = fill_area_apart[OF lay live n(1,2)]
  have "rx_filled (r_used l) m' (ring_pos sz base j) (bf_va (bs ! j)) (ucast (bf_idx (bs ! j))) (rx_piece l (blens bs) j)"
    if j: "k \<le> j" "j < Suc n" for j
  proof (cases "j = n")
    case False
    with j n have "j < n" "j < length bs" "n < j + sz" by simp_all
    with bk j False show ?thesis
      by (intro rx_filled_keep[OF _ ag A(3)[OF j(1)] A(4)[OF j(1)]]) (auto simp: rx_back_def)
  qed (use fil in simp)
  with ui show ?thesis by (simp add: rx_back_def)
qed

lemma rx_front_bk:
  "rx_front sz l b m base bs n \<Longrightarrow> regions b' = regions b \<Longrightarrow> nregions b' = nregions b \<Longrightarrow> rx_front sz l b' m base bs n"
  by (auto simp: rx_front_def intro: rx_good_advance[of l b m _ b'])

lemma rx_front_fill:
  assumes lay: "rx_layout sz l b m" and live: "rx_live sz l m k bs" and n: "k \<le> n" "n < length bs"
    and fr: "rx_front sz l b m base bs n" and ag: "agree_off (fill_area sz l base bs n) m m'"
  shows "rx_front sz l (rx_advance 1 b) m' base bs (Suc n)"
proof (rule rx_front_bk[OF rx_front_agree[OF fr ag]])
  note A = fill_area_apart[OF lay live n] and C = rx_avail_cells[OF rx_layoutD(1)[OF lay], of l]
  show "span (avail_idx_at (r_avail l)) 2 \<inter> fill_area sz l base bs n = {}" by (rule disjoint_mono[OF C(2) A(1)])
  show "span (avail_ring_at (r_avail l) (ring_pos sz base j)) 2 \<inter> fill_area sz l base bs n = {} \<and>
      desc_span l (bs ! j) \<inter> fill_area sz l base bs n = {}" if "Suc n \<le> j" "j < length bs" for j
    using disjoint_mono[OF C(3) A(1)] A(2)[of j] n that by simp
qed simp_all

text \<open>The place and the local variables of the thread after buffer \<open>n\<close>, which is number \<open>c\<close> of its packet.\<close>

definition packet_sum :: "rx_buf list \<Rightarrow> nat \<Rightarrow> nat" where
  "packet_sum bs n = (\<Sum>i\<in>{3 * (n div 3)..<n}. unat (bf_len (bs ! i)))"

definition fill_next :: "nat \<Rightarrow> u16 \<Rightarrow> rx_buf list \<Rightarrow> nat \<Rightarrow> nat \<Rightarrow> rx_pc" where
  "fill_next sz base bs n c =
     (let t = packet_sum bs n + unat (bf_len (bs ! n)) in
      if Suc c < 3 then RxFill (Suc c) (of_nat (min 10240 (t - 48))) (of_nat (10240 - (t - 48))) (ring_pos sz base (Suc n))
      else RxKick)"

lemma rx_mid_next:
  assumes "rx_mid sz b base bs n (RxFill c wr rm u)" "length bs mod 3 = 0"
  shows "rx_mid sz (rx_advance 1 b) base bs (Suc n) (fill_next sz base bs n c)"
proof -
  from assms(1) have c: "n mod 3 = c" "n < length bs" by simp_all
  show ?thesis
  proof (cases "Suc c < 3")
    case True
    then have g: "Suc n mod 3 = Suc c" "Suc n div 3 = n div 3" using c(1) by presburger+
    have "Suc n < length bs" using group_bound[OF c(2) assms(2), of "Suc c"] True c(1) by presburger
    moreover have "\<not> n < 3 * (n div 3)" by simp
    ultimately show ?thesis using assms(1) True g by (simp add: fill_next_def packet_sum_def Let_def gpa_to_va_def)
  next
    case False
    have "n mod 3 < 3" by simp
    with False c(1) have "Suc n mod 3 = 0" by presburger
    with False show ?thesis by (simp add: fill_next_def)
  qed
qed

lemma packet_sum_48:
  assumes "rx_front sz l b m base bs k" "n < length bs" "n mod 3 = c"
  shows "if c = 0 then packet_sum bs n = 0 \<and> 48 \<le> unat (bf_len (bs ! n)) else 48 \<le> packet_sum bs n"
proof (cases "c = 0")
  case True
  then have "3 * (n div 3) = n" using assms(3) by presburger
  with True assms show ?thesis by (simp add: rx_front_def packet_sum_def)
next
  case False
  let ?f = "3 * (n div 3)"
  have "?f \<in> {?f..<n}" using assms(3) False by simp presburger
  then have "unat (bf_len (bs ! ?f)) \<le> packet_sum bs n" unfolding packet_sum_def by (intro member_le_sum) auto
  moreover have "48 \<le> unat (bf_len (bs ! ?f))" using assms(1,2) by (simp add: rx_front_def)
  ultimately show ?thesis using False by simp
qed

lemma fill_result:
  assumes inv: "rx_inv sz s" and pc: "y_pc s = RxFill c wr rm u"
  obtains m' where "rx_thread took s = Inr (s\<lparr>y_pc := fill_next sz (y_base s) (y_sub s) (y_done s) c,
      y_b := rx_advance 1 (y_b s), y_m := m', y_done := Suc (y_done s)\<rparr>, [])"
    "agree_off (fill_area sz (y_l s) (y_base s) (y_sub s) (y_done s)) (y_m s) m'"
    "rx_filled (r_used (y_l s)) m' (ring_pos sz (y_base s) (y_done s)) (bf_va (y_sub s ! y_done s))
       (ucast (bf_idx (y_sub s ! y_done s))) (rx_piece (y_l s) (blens (y_sub s)) (y_done s))"
    "load16 m' (used_idx_at (r_used (y_l s))) = Inr (y_base s + of_nat (Suc (y_done s)))"
proof -
  note I = rx_invD[OF inv]
  let ?l = "y_l s" and ?b = "y_b s" and ?m = "y_m s" and ?bs = "y_sub s" and ?n = "y_done s"
  let ?x = "?bs ! ?n" and ?t = "packet_sum (y_sub s) (y_done s)"
  from I have lay: "rx_layout sz ?l ?b ?m" and live: "rx_live sz ?l ?m (length (y_read s)) ?bs"
    and front: "rx_front sz ?l ?b ?m (y_base s) ?bs ?n" and rd: "length (y_read s) \<le> ?n" by simp_all
  note L = rx_layoutD[OF lay]
  from I pc have mid: "rx_mid sz ?b (y_base s) ?bs ?n (RxFill c wr rm u)" by simp
  then have c: "?n mod 3 = c" "?n < length ?bs" "u = ring_pos sz (y_base s) ?n"
    "wr = of_nat (min 10240 (?t - 48))" "rm = of_nat (10240 - (?t - 48))" by (simp_all add: Let_def packet_sum_def)
  have g: "3 * (?n div 3) + c = ?n" "c < 3" using c(1) by presburger+
  from mid g obtain a where a: "buf_vec ?b ! c = \<lparr>buf_addr = a, buf_len = bf_len ?x, desc_idx = ucast (bf_idx ?x)\<rparr>"
    "gpa_to_va a 0 ?b = Inr (bf_va ?x)" by (metis order_refl rx_mid.simps(1))
  define w where "w = \<lparr>w_written = wr, w_remaining = rm, w_uidx = u, w_bk = ?b, w_mem = ?m\<rparr>"
  have W: "w_bk w = ?b" "w_mem w = ?m" "w_uidx w = u" "w_written w = wr" "w_remaining w = rm" by (simp_all add: w_def)
  note P = rx_live_parts[OF live rd c(2), unfolded buf_span_def]
  have "rx_ring_fp ?l u \<subseteq> rx_dev sz ?l" unfolding c(3) by (rule rx_dev_cells(3)[OF L(1)])
  then have room: "c < length (buf_vec ?b)" "u < sz" "rx_ring_fp ?l u \<subseteq> dom ?m"
    "span (bf_va ?x) (unat (bf_len ?x)) \<inter> rx_ring_fp ?l u = {}"
    using lay g(2) c(3) L(1) L(8) P(2) by (auto simp: rx_layout_def)
  obtain m' where e: "enq_one ?l c w = Inr \<lparr>w_written = of_nat (min 10240 (?t + unat (bf_len ?x) - 48)),
       w_remaining = of_nat (10240 - (?t + unat (bf_len ?x) - 48)),
       w_uidx = unat (last_used_idx (vq ?b ! 0) + 1) mod sz, w_bk = rx_advance 1 ?b, w_mem = m'\<rparr>"
    and ag: "agree_off (span (bf_va ?x) (unat (bf_len ?x)) \<union> rx_ring_fp ?l u) ?m m'"
    and fil: "rx_filled (r_used ?l) m' u (bf_va ?x) (ucast (bf_idx ?x)) (take (unat (bf_len ?x)) (drop ?t (take 10288 (r_pkt ?l))))"
    and ui: "load16 m' (used_idx_at (r_used ?l)) = Inr (last_used_idx (vq ?b ! 0) + 1)"
    by (rule enq_stage[of c w a "bf_len ?x" "ucast (bf_idx ?x)" "bf_va ?x" ?l ?t sz, unfolded W,
        OF room(1) a L(6) packet_sum_48[OF front c(2,1)] c(4,5) L(5,7,1,2) room(2) P(1) room(3,4)])
  have used: "last_used_idx (vq ?b ! 0) + 1 = y_base s + of_nat (Suc ?n)" using I by simp
  show ?thesis
    by (rule that[of m'])
       (use pc e[unfolded w_def] used ag fil ui in
         \<open>simp_all add: rx_thread_def fill_next_def RX_NBUFS_def ring_pos_def fill_area_def buf_span_def c(3) rx_piece_def packet_sum_def Let_def\<close>)
qed

lemma thread_fill:
  assumes inv: "rx_inv sz s" and pc: "y_pc s = RxFill c wr rm u"
  obtains b' m' pc' where "rx_thread took s = Inr (s\<lparr>y_pc := pc', y_b := b', y_m := m', y_done := Suc (y_done s)\<rparr>, [])"
    "rx_inv sz (s\<lparr>y_pc := pc', y_b := b', y_m := m', y_done := Suc (y_done s)\<rparr>)" "y_done s < length (y_sub s)"
    "pc' = RxKick \<or> (\<exists>w r v. pc' = RxFill (Suc c) w r v \<and> Suc c < 3)" "rxcnt b' = rxcnt (y_b s)"
proof -
  note I = rx_invD[OF inv]
  let ?l = "y_l s" and ?b = "y_b s" and ?bs = "y_sub s" and ?n = "y_done s" and ?base = "y_base s"
  let ?pc = "fill_next sz ?base ?bs ?n c"
  from I have lay: "rx_layout sz ?l ?b (y_m s)" and live: "rx_live sz ?l (y_m s) (length (y_read s)) ?bs"
    and front: "rx_front sz ?l ?b (y_m s) ?base ?bs ?n" and rd: "length (y_read s) \<le> ?n" by simp_all
  from I pc have mid: "rx_mid sz ?b ?base ?bs ?n (RxFill c wr rm u)" by simp
  then have n: "?n < length ?bs" by simp
  obtain m' where t: "rx_thread took s = Inr (s\<lparr>y_pc := ?pc, y_b := rx_advance 1 ?b, y_m := m', y_done := Suc ?n\<rparr>, [])"
    and ag: "agree_off (fill_area sz ?l ?base ?bs ?n) (y_m s) m'"
    and fil: "rx_filled (r_used ?l) m' (ring_pos sz ?base ?n) (bf_va (?bs ! ?n)) (ucast (bf_idx (?bs ! ?n))) (rx_piece ?l (blens ?bs) ?n)"
    and ui: "load16 m' (used_idx_at (r_used ?l)) = Inr (?base + of_nat (Suc ?n))"
    by (rule fill_result[OF inv pc])
  have d: "dom m' = dom (y_m s)" using ag by (simp add: agree_off_def)
  have vq: "vq ?b \<noteq> []" by (rule rx_layoutD(5)[OF lay])
  have "rx_layout sz ?l (rx_advance 1 ?b) m'"
    using rx_layout_dom[OF lay d] vq by (simp add: rx_layout_def rx_wf_def)
  moreover have "rx_front sz ?l (rx_advance 1 ?b) m' ?base ?bs (Suc ?n)" by (rule rx_front_fill[OF lay live rd n front ag])
  moreover have "rx_live sz ?l m' (length (y_read s)) ?bs" by (rule rx_live_dom[OF live d])
  moreover have "rx_back sz ?l m' ?base ?bs (length (y_read s)) (Suc ?n)"
    by (rule rx_back_fill[OF lay live rd n _ _ ag fil ui]) (use I in simp_all)
  moreover have "rx_mid sz (rx_advance 1 ?b) ?base ?bs (Suc ?n) ?pc"
    by (rule rx_mid_next[OF mid]) (use front in \<open>simp add: rx_front_def\<close>)
  ultimately have "rx_inv sz (s\<lparr>y_pc := ?pc, y_b := rx_advance 1 ?b, y_m := m', y_done := Suc ?n\<rparr>)"
    using I n vq by (simp add: rx_inv_def ac_simps)
  with t n show ?thesis using that by (auto simp: fill_next_def Let_def)
qed

lemma collect_pending:
  assumes lay: "rx_layout sz l b m" and front: "rx_front sz l b m base bs n" and n: "n + 3 \<le> length bs"
    and pos: "last_avail_idx (vq b ! 0) = base + of_nat n" "last_used_idx (vq b ! 0) = base + of_nat n"
  obtains bv where "rx_collect l b m = Inr (ring_pos sz base n, b\<lparr>buf_vec := bv\<rparr>, [])" "length bv = length (buf_vec b)"
    "\<forall>k<3. \<exists>a. bv ! k = \<lparr>buf_addr = a, buf_len = bf_len (bs ! (n + k)), desc_idx = ucast (bf_idx (bs ! (n + k)))\<rparr> \<and>
       gpa_to_va a 0 b = Inr (bf_va (bs ! (n + k)))"
proof -
  note L = rx_layoutD[OF lay]
  have F: "load16 m (avail_ring_at (r_avail l) (ring_pos sz base (n + k))) = Inr (bf_idx (bs ! (n + k))) \<and> rx_good l b m (bs ! (n + k))"
    if "k < 3" for k using front n that by (simp add: rx_front_def)
  have "\<exists>a. load64 m (desc_addr_at (r_desc l) (unat (bf_idx (bs ! (n + k))))) = Inr a \<and> gpa_to_va a 0 b = Inr (bf_va (bs ! (n + k)))"
    if "k < 3" for k using F[OF that] by (auto simp: rx_good_def)
  then obtain addr where addr: "load64 m (desc_addr_at (r_desc l) (unat (bf_idx (bs ! (n + k))))) = Inr (addr k)"
    "gpa_to_va (addr k) 0 b = Inr (bf_va (bs ! (n + k)))" if "k < 3" for k by metis
  have "span (avail_ring_at (r_avail l) (ring_pos sz base (n + 3))) 2 \<subseteq> dom m"
    using rx_avail_cells(3)[OF L(1)] L(9) by blast
  then obtain v where v: "load16 m (avail_ring_at (r_avail l) (ring_pos sz base (n + 3))) = Inr v" using c16.ld_ok by blast
  define d where "d = (\<lambda>k. if k < 3 then bf_idx (bs ! (n + k)) else v)"
  have slot: "unat (base + of_nat n + of_nat k) mod sz = ring_pos sz base (n + k)" for k
    by (simp add: ring_pos_def ac_simps)
  have "load16 m (avail_ring_at (r_avail l) (ring_pos sz base (n + k))) = Inr (d k)" if "k \<le> 3" for k
    using F[of k] v that by (cases "k = 3") (simp_all add: d_def)
  then have off: "rx_offer sz l (base + of_nat n) m 3 d addr (\<lambda>k. bf_len (bs ! (n + k)))"
    using F addr(1) unfolding rx_offer_def slot by (simp add: d_def rx_good_def)
  have rs: "rx_slot (base + of_nat n) (r_size l) = Inr (ring_pos sz base n)"
    using L(1,2,7) by (auto simp: rx_slot_def ring_pos_def unat_of_nat dest: arg_cong[of _ _ unat])
  have d0: "load16 m (avail_ring_at (r_avail l) (ring_pos sz base n)) = Inr (d 0)" using F[of 0] by (simp add: d_def)
  have len: "3 \<le> length (buf_vec b)" using lay by (simp add: rx_layout_def)
  obtain bv where bv: "enq_collect 3 l m (d 0) (of_nat (ring_pos sz base n)) 0 (buf_vec b) = Inr (3, bv, [])"
    "length bv = length (buf_vec b)"
    "\<forall>i. 0 \<le> i \<and> i < 3 \<longrightarrow> bv ! i = \<lparr>buf_addr = addr i, buf_len = bf_len (bs ! (n + i)), desc_idx = ucast (d i)\<rparr>"
    using enq_collect_ok[OF off, of 0 3 "buf_vec b" "d 0" "of_nat (ring_pos sz base n)"] len L(1,2,3,7)
    by (auto simp: ring_pos_def)
  show ?thesis
  proof (rule that[OF _ bv(2)])
    show "rx_collect l b m = Inr (ring_pos sz base n, b\<lparr>buf_vec := bv\<rparr>, [])"
      using L(5) pos rs d0 bv(1) by (simp add: rx_collect_def RX_NBUFS_def)
    show "\<forall>k<3. \<exists>a. bv ! k = \<lparr>buf_addr = a, buf_len = bf_len (bs ! (n + k)), desc_idx = ucast (bf_idx (bs ! (n + k)))\<rparr> \<and>
       gpa_to_va a 0 b = Inr (bf_va (bs ! (n + k)))"
      using bv(3) addr(2) by (auto simp: d_def)
  qed
qed

lemma thread_check_more:
  assumes inv: "rx_inv sz s" and pc: "y_pc s = RxCheck" and cnt: "rxcnt (y_b s) < NUM_RX_FRAMES" and more: "y_done s \<noteq> length (y_sub s)"
  obtains b' u where "rx_thread took s = Inr (s\<lparr>y_pc := RxFill 0 0 RX_FRAME_LEN u, y_b := b'\<rparr>, [])"
    "rx_inv sz (s\<lparr>y_pc := RxFill 0 0 RX_FRAME_LEN u, y_b := b'\<rparr>)" "rxcnt b' = rxcnt (y_b s)"
proof -
  note I = rx_invD[OF inv]
  let ?b = "y_b s" and ?n = "y_done s" and ?bs = "y_sub s"
  from I have lay: "rx_layout sz (y_l s) ?b (y_m s)" and front: "rx_front sz (y_l s) ?b (y_m s) (y_base s) ?bs ?n" by simp_all
  note L = rx_layoutD[OF lay]
  have m3: "?n mod 3 = 0" "length ?bs mod 3 = 0" using I pc front by (simp_all add: rx_front_def)
  have lt: "?n < length ?bs" using I more by simp
  with m3 have n3: "?n + 3 \<le> length ?bs" by presburger
  have "y_base s + of_nat ?n \<noteq> y_base s + of_nat ?n + of_nat (length ?bs - ?n)"
    by (rule pending_differs) (use I lt L(2) in linarith)+
  then have ne: "last_avail_idx (vq ?b ! 0) \<noteq> y_base s + of_nat (length ?bs)"
    using I lt by (simp add: of_nat_diff)
  obtain bv where c: "rx_collect (y_l s) ?b (y_m s) = Inr (ring_pos sz (y_base s) ?n, ?b\<lparr>buf_vec := bv\<rparr>, [])"
    and len: "length bv = length (buf_vec ?b)"
    and bv: "\<forall>k<3. \<exists>a. bv ! k = \<lparr>buf_addr = a, buf_len = bf_len (?bs ! (?n + k)), desc_idx = ucast (bf_idx (?bs ! (?n + k)))\<rparr> \<and>
       gpa_to_va a 0 ?b = Inr (bf_va (?bs ! (?n + k)))"
    by (rule collect_pending[OF lay front n3]) (use I in auto)
  have g: "3 * (?n div 3) = ?n" using m3(1) by presburger
  have "rx_thread took s = Inr (s\<lparr>y_pc := RxFill 0 0 RX_FRAME_LEN (ring_pos sz (y_base s) ?n), y_b := ?b\<lparr>buf_vec := bv\<rparr>\<rparr>, [])"
    using pc cnt c ne front L(5) by (simp add: rx_thread_def rx_front_def)
  moreover have "rx_mid sz (?b\<lparr>buf_vec := bv\<rparr>) (y_base s) ?bs ?n (RxFill 0 0 RX_FRAME_LEN (ring_pos sz (y_base s) ?n))"
    using m3(1) lt bv by (simp add: g RX_FRAME_LEN_def gpa_to_va_def)
  moreover have "rx_layout sz (y_l s) (?b\<lparr>buf_vec := bv\<rparr>) (y_m s)" using lay len by (simp add: rx_layout_def rx_wf_def)
  moreover have "rx_front sz (y_l s) (?b\<lparr>buf_vec := bv\<rparr>) (y_m s) (y_base s) ?bs ?n" by (rule rx_front_bk[OF front]) simp_all
  ultimately show ?thesis using that I by (simp add: rx_inv_def)
qed

lemma thread_check_idle:
  assumes "rx_inv sz s" "y_pc s = RxCheck" "rxcnt (y_b s) < NUM_RX_FRAMES" "y_done s = length (y_sub s)"
  shows "rx_thread took s = Inr (s, [])"
  using rx_invD[OF assms(1)] assms(2-4) by (simp add: rx_thread_def rx_front_def rx_layout_def rx_wf_def)

lemma rx_inv_pc: "rx_inv sz s \<Longrightarrow> rx_mid sz (y_b s) (y_base s) (y_sub s) (y_done s) pc \<Longrightarrow> rx_inv sz (s\<lparr>y_pc := pc\<rparr>)"
  by (simp add: rx_inv_def)

lemma thread_kick:
  assumes inv: "rx_inv sz s" and pc: "y_pc s = RxKick"
  obtains es where "rx_thread took s =
      Inr (s\<lparr>y_pc := (if fst (enq_count took (y_b s)) then RxCheck else RxDone), y_b := fst (snd (enq_count took (y_b s)))\<rparr>, es)"
    "rx_inv sz (s\<lparr>y_pc := (if fst (enq_count took (y_b s)) then RxCheck else RxDone), y_b := fst (snd (enq_count took (y_b s)))\<rparr>)"
proof -
  note I = rx_invD[OF inv]
  from I have lay: "rx_layout sz (y_l s) (y_b s) (y_m s)" and front: "rx_front sz (y_l s) (y_b s) (y_m s) (y_base s) (y_sub s) (y_done s)" by simp_all
  note L = rx_layoutD[OF lay]
  have "span (avail_flags_at (r_avail (y_l s))) 2 \<subseteq> dom (y_m s)" using rx_avail_cells(1)[OF L(1)] L(9) by blast
  then obtain fl where "load16 (y_m s) (avail_flags_at (r_avail (y_l s))) = Inr fl" using c16.ld_ok by blast
  then obtain es where k: "enq_kick (y_b s) (y_m s) = Inr es" using lay L(5) by (simp add: enq_kick_def rx_layout_def)
  obtain go b' es' where c: "enq_count took (y_b s) = (go, b', es')" by (cases "enq_count took (y_b s)")
  then obtain n where b': "b' = (y_b s)\<lparr>rxcnt := n\<rparr>" by (auto simp: enq_count_def Let_def split: if_splits)
  have "rx_layout sz (y_l s) b' (y_m s)" using lay by (simp add: b' rx_layout_def rx_wf_def)
  moreover have "rx_front sz (y_l s) b' (y_m s) (y_base s) (y_sub s) (y_done s)" by (rule rx_front_bk[OF front]) (simp_all add: b')
  ultimately have "rx_inv sz (s\<lparr>y_pc := (if go then RxCheck else RxDone), y_b := b'\<rparr>)"
    using I pc by (simp add: rx_inv_def b')
  then show ?thesis using that[of "es @ es'"] pc k c by (simp add: rx_thread_def)
qed

text \<open>The next step of the thread, wherever it stands: it succeeds, keeps the invariant, and fills at most one
  buffer.\<close>

lemma rx_thread_total:
  assumes inv: "rx_inv sz s"
  shows "\<exists>s' es. rx_thread took s = Inr (s', es) \<and> rx_inv sz s' \<and>
    y_l s' = y_l s \<and> y_base s' = y_base s \<and> y_sub s' = y_sub s \<and> y_read s' = y_read s \<and>
    (y_done s' = y_done s \<or> y_done s' = Suc (y_done s) \<and> y_done s < length (y_sub s))"
proof (cases "y_pc s")
  case RxCheck
  consider "\<not> rxcnt (y_b s) < NUM_RX_FRAMES" | "rxcnt (y_b s) < NUM_RX_FRAMES" "y_done s = length (y_sub s)"
    | "rxcnt (y_b s) < NUM_RX_FRAMES" "y_done s \<noteq> length (y_sub s)" by blast
  then show ?thesis
  proof cases
    case 1
    have "rx_inv sz (s\<lparr>y_pc := RxDone\<rparr>)" by (rule rx_inv_pc[OF inv]) (use rx_invD[OF inv] RxCheck in simp)
    with 1 RxCheck show ?thesis by (simp add: rx_thread_def)
  next
    case 2
    with thread_check_idle[OF inv RxCheck] inv show ?thesis by simp
  next
    case 3
    from thread_check_more[where took = took, OF inv RxCheck 3] obtain b' u where
      "rx_thread took s = Inr (s\<lparr>y_pc := RxFill 0 0 RX_FRAME_LEN u, y_b := b'\<rparr>, [])"
      "rx_inv sz (s\<lparr>y_pc := RxFill 0 0 RX_FRAME_LEN u, y_b := b'\<rparr>)" by metis
    then show ?thesis by simp
  qed
next
  case (RxFill c wr rm u)
  from thread_fill[where took = took, OF inv this] obtain b' m' pc' where
    "rx_thread took s = Inr (s\<lparr>y_pc := pc', y_b := b', y_m := m', y_done := Suc (y_done s)\<rparr>, [])"
    "rx_inv sz (s\<lparr>y_pc := pc', y_b := b', y_m := m', y_done := Suc (y_done s)\<rparr>)" "y_done s < length (y_sub s)" by metis
  then show ?thesis by simp
next
  case RxKick
  obtain es where "rx_thread took s =
      Inr (s\<lparr>y_pc := (if fst (enq_count took (y_b s)) then RxCheck else RxDone), y_b := fst (snd (enq_count took (y_b s)))\<rparr>, es)"
    "rx_inv sz (s\<lparr>y_pc := (if fst (enq_count took (y_b s)) then RxCheck else RxDone), y_b := fst (snd (enq_count took (y_b s)))\<rparr>)"
    by (rule thread_kick[OF inv RxKick])
  then show ?thesis by simp
next
  case RxDone
  with inv show ?thesis by (simp add: rx_thread_def)
qed

section \<open>The abstract stream of packets\<close>

text \<open>The driver offers the descriptors and lengths of three buffers, the device fills the next buffer,
  the driver reads the oldest filled one. What it reads is the next part of the packet that is sent over
  and over again, each time into three buffers.\<close>

record rxq =
  q_off :: "(u16 \<times> u32) list"
  q_filled :: nat
  q_in :: "(u32 \<times> u8 list) list"

definition rxq_empty :: rxq where
  "rxq_empty = \<lparr>q_off = [], q_filled = 0, q_in = []\<rparr>"

inductive rxq_step :: "nat \<Rightarrow> rx_local \<Rightarrow> rxq \<Rightarrow> rxq \<Rightarrow> bool" for sz :: nat and l :: rx_local where
  q_offer: "length xs = 3 \<Longrightarrow> length (q_off q) + 3 \<le> length (q_in q) + sz \<Longrightarrow> 48 \<le> unat (snd (xs ! 0)) \<Longrightarrow>
     rxq_step sz l q (q\<lparr>q_off := q_off q @ xs\<rparr>)"
| q_fill: "q_filled q < length (q_off q) \<Longrightarrow> rxq_step sz l q (q\<lparr>q_filled := Suc (q_filled q)\<rparr>)"
| q_read: "length (q_in q) < q_filled q \<Longrightarrow>
     rxq_step sz l q (q\<lparr>q_in := q_in q @
       [(ucast (fst (q_off q ! length (q_in q))), rx_piece l (\<lambda>i. snd (q_off q ! i)) (length (q_in q)))]\<rparr>)"

inductive rxq_reach :: "nat \<Rightarrow> rx_local \<Rightarrow> rxq \<Rightarrow> bool" for sz :: nat and l :: rx_local where
  rxq_start: "rxq_reach sz l rxq_empty"
| rxq_more: "rxq_reach sz l q \<Longrightarrow> rxq_step sz l q q' \<Longrightarrow> rxq_reach sz l q'"

definition rx_abs :: "rx_sys \<Rightarrow> rxq" where
  "rx_abs s = \<lparr>q_off = map (\<lambda>x. (bf_idx x, bf_len x)) (y_sub s), q_filled = y_done s, q_in = y_read s\<rparr>"

text \<open>What the two sides can observe of the stream in the shared memory.\<close>

definition rx_shows :: "nat \<Rightarrow> rx_sys \<Rightarrow> rxq \<Rightarrow> bool" where
  "rx_shows sz s q \<longleftrightarrow>
     rx_abs s = q \<and>
     load16 (y_m s) (avail_idx_at (r_avail (y_l s))) = Inr (y_base s + of_nat (length (q_off q))) \<and>
     load16 (y_m s) (used_idx_at (r_used (y_l s))) = Inr (y_base s + of_nat (q_filled q)) \<and>
     (\<forall>j. length (q_in q) \<le> j \<longrightarrow> j < q_filled q \<longrightarrow>
        rx_filled (r_used (y_l s)) (y_m s) (ring_pos sz (y_base s) j) (bf_va (y_sub s ! j)) (ucast (fst (q_off q ! j)))
          (rx_piece (y_l s) (\<lambda>i. snd (q_off q ! i)) j))"

definition rx_init :: "nat \<Rightarrow> rx_sys \<Rightarrow> bool" where
  "rx_init sz s \<longleftrightarrow>
     rx_layout sz (y_l s) (y_b s) (y_m s) \<and> y_pc s = RxCheck \<and> y_sub s = [] \<and> y_done s = 0 \<and> y_read s = [] \<and>
     last_avail_idx (vq (y_b s) ! 0) = y_base s \<and> last_used_idx (vq (y_b s) ! 0) = y_base s \<and>
     load16 (y_m s) (avail_idx_at (r_avail (y_l s))) = Inr (y_base s) \<and>
     load16 (y_m s) (used_idx_at (r_used (y_l s))) = Inr (y_base s)"

lemma rx_init_inv: "rx_init sz s \<Longrightarrow> rx_inv sz s \<and> rx_abs s = rxq_empty"
  by (simp add: rx_init_def rx_inv_def rx_front_def rx_live_def rx_back_def rx_hist_def rx_abs_def rxq_empty_def)

lemma rx_step_sim:
  assumes "rx_step sz s s'" "rx_inv sz s"
  shows "rx_inv sz s' \<and> y_l s' = y_l s \<and> (rx_abs s' = rx_abs s \<or> rxq_step sz (y_l s) (rx_abs s) (rx_abs s'))"
  using assms
proof (induction rule: rx_step.induct)
  case (rx_thread_step took s s' es)
  from rx_thread_total[OF rx_thread_step.prems, of took] rx_thread_step.hyps
  have t: "rx_inv sz s'" "y_l s' = y_l s" "y_sub s' = y_sub s" "y_read s' = y_read s"
    "y_done s' = y_done s \<or> y_done s' = Suc (y_done s) \<and> y_done s < length (y_sub s)" by auto
  have "rxq_step sz (y_l s) (rx_abs s) ((rx_abs s)\<lparr>q_filled := Suc (q_filled (rx_abs s))\<rparr>)" if "y_done s < length (y_sub s)"
    by (rule q_fill) (use that in \<open>simp add: rx_abs_def\<close>)
  with t show ?case by (auto simp: rx_abs_def)
next
  case (rx_guest_write G s m')
  from rx_inv_guest_write[OF rx_guest_write.prems rx_guest_write.hyps] show ?case by (simp add: rx_abs_def)
next
  case (rx_guest_offer xs s i m')
  let ?xs = "map (\<lambda>x. (bf_idx x, bf_len x)) xs"
  have "rxq_step sz (y_l s) (rx_abs s) ((rx_abs s)\<lparr>q_off := q_off (rx_abs s) @ ?xs\<rparr>)"
    by (rule q_offer) (use rx_guest_offer.hyps in \<open>simp_all add: rx_abs_def\<close>)
  with rx_inv_guest_offer[OF rx_guest_offer.prems rx_guest_offer.hyps] show ?case by (simp add: rx_abs_def)
next
  case (rx_guest_read s u d n x bs)
  note R = rx_inv_guest_read[OF rx_guest_read.prems rx_guest_read.hyps]
  let ?k = "length (y_read s)"
  have k: "?k < length (y_sub s)" using R(2) rx_invD[OF rx_guest_read.prems] by simp
  have p: "rx_piece (y_l s) (\<lambda>i. snd (q_off (rx_abs s) ! i)) ?k = rx_piece (y_l s) (blens (y_sub s)) ?k"
    by (rule rx_piece_cong) (use k in \<open>simp add: rx_abs_def\<close>)
  have "rxq_step sz (y_l s) (rx_abs s) ((rx_abs s)\<lparr>q_in := q_in (rx_abs s) @
      [(ucast (fst (q_off (rx_abs s) ! length (q_in (rx_abs s)))),
        rx_piece (y_l s) (\<lambda>i. snd (q_off (rx_abs s) ! i)) (length (q_in (rx_abs s))))]\<rparr>)"
    by (rule q_read) (use R(2) in \<open>simp add: rx_abs_def\<close>)
  moreover have "length (q_in (rx_abs s)) = ?k" "fst (q_off (rx_abs s) ! ?k) = bf_idx (y_sub s ! ?k)"
    using k by (simp_all add: rx_abs_def)
  ultimately have "rxq_step sz (y_l s) (rx_abs s) ((rx_abs s)\<lparr>q_in := q_in (rx_abs s) @ [(d, bs)]\<rparr>)"
    unfolding R(1) p[symmetric] by simp
  with R(3) show ?case by (simp add: rx_abs_def)
qed

lemma rx_reach_sim:
  assumes "rx_reach sz s0 s" "rx_init sz s0"
  shows "rx_inv sz s \<and> y_l s = y_l s0 \<and> rxq_reach sz (y_l s0) (rx_abs s)"
  using assms
proof (induction rule: rx_reach.induct)
  case rx_reach_refl
  then show ?case using rx_init_inv rxq_start by metis
next
  case (rx_reach_step s' s'')
  with rx_step_sim[of sz s' s''] show ?case by (metis rxq_more)
qed

lemma rx_inv_shows: "rx_inv sz s \<Longrightarrow> rx_shows sz s (rx_abs s)"
proof -
  assume "rx_inv sz s"
  note I = rx_invD[OF this]
  have "rx_piece (y_l s) (\<lambda>i. snd (q_off (rx_abs s) ! i)) j = rx_piece (y_l s) (blens (y_sub s)) j" if "j < y_done s" for j
    by (rule rx_piece_cong) (use I that in \<open>simp add: rx_abs_def\<close>)
  moreover have "fst (q_off (rx_abs s) ! j) = bf_idx (y_sub s ! j)" if "j < y_done s" for j
    using I that by (simp add: rx_abs_def)
  ultimately show ?thesis using I unfolding rx_shows_def rx_front_def rx_back_def by (simp add: rx_abs_def)
qed

section \<open>Progress\<close>

fun pc_cost :: "rx_pc \<Rightarrow> nat" where
  "pc_cost RxCheck = 2"
| "pc_cost (RxFill c wr rm u) = 1"
| "pc_cost RxKick = 3"
| "pc_cost RxDone = 0"

definition rx_cost :: "rx_sys \<Rightarrow> nat" where
  "rx_cost s = 5 * (length (y_sub s) - y_done s) + pc_cost (y_pc s)"

text \<open>The buffers that a thread fills before it ends, when its counter of frames starts at \<open>c\<close>, and how the
  counter, the buffers filled so far and the position of the thread go together.\<close>

definition rx_limit :: "nat \<Rightarrow> nat" where
  "rx_limit c = 3 * (1000000 - c)"

fun rx_tally :: "nat \<Rightarrow> backend \<Rightarrow> nat \<Rightarrow> rx_pc \<Rightarrow> bool" where
  "rx_tally c b n RxCheck \<longleftrightarrow> unat (rxcnt b) = c + n div 3 \<and> (n < rx_limit c \<or> n = 0 \<and> 1000000 \<le> c)"
| "rx_tally c b n (RxFill k wr rm u) \<longleftrightarrow> unat (rxcnt b) = c + n div 3 \<and> n < rx_limit c"
| "rx_tally c b n RxKick \<longleftrightarrow> unat (rxcnt b) + 1 = c + n div 3 \<and> 0 < n \<and> n \<le> rx_limit c"
| "rx_tally c b n RxDone \<longleftrightarrow> n = rx_limit c"

lemma rx_tally_limit: "rx_tally c b n pc \<Longrightarrow> n \<le> rx_limit c"
  by (cases pc) auto

definition same_offers :: "rx_sys \<Rightarrow> rx_sys \<Rightarrow> bool" where
  "same_offers s s' \<longleftrightarrow> y_l s' = y_l s \<and> y_base s' = y_base s \<and> y_sub s' = y_sub s \<and> y_read s' = y_read s"

text \<open>The counter after a packet: the thread ends with the millionth frame and not before.\<close>

lemma enq_count_tally:
  assumes "rx_tally c b n RxKick" "n mod 3 = 0"
  shows "rx_tally c (fst (snd (enq_count took b))) n (if fst (enq_count took b) then RxCheck else RxDone)"
proof -
  obtain k where k: "n = 3 * k" using assms(2) by auto
  have t: "unat (rxcnt b) + 1 = c + k" "0 < k" "k \<le> 1000000 - c" using assms(1) by (simp_all add: k rx_limit_def)
  have "unat (rxcnt b) < 1000000" using t by simp
  then have un: "unat (rxcnt b + 1) = unat (rxcnt b) + 1" by (simp add: unat_word_ariths)
  show ?thesis
    using t un by (auto simp: enq_count_def Let_def NUM_RX_FRAMES_def word_unat_eq_iff k rx_limit_def)
qed

lemma rx_thread_count:
  assumes inv: "rx_inv sz s" and tal: "rx_tally c (y_b s) (y_done s) (y_pc s)"
  shows "\<exists>s' es. rx_thread took s = Inr (s', es) \<and> rx_inv sz s' \<and> rx_tally c (y_b s') (y_done s') (y_pc s') \<and> same_offers s s' \<and>
    (y_done s < length (y_sub s) \<and> y_done s < rx_limit c \<longrightarrow> rx_cost s' < rx_cost s)"
proof (cases "y_pc s")
  case RxCheck
  have u: "rxcnt (y_b s) < NUM_RX_FRAMES \<longleftrightarrow> c + y_done s div 3 < 1000000"
    using tal RxCheck by (simp add: NUM_RX_FRAMES_def word_less_nat_alt)
  consider "\<not> rxcnt (y_b s) < NUM_RX_FRAMES" | "rxcnt (y_b s) < NUM_RX_FRAMES" "y_done s = length (y_sub s)"
    | "rxcnt (y_b s) < NUM_RX_FRAMES" "y_done s \<noteq> length (y_sub s)" by blast
  then show ?thesis
  proof cases
    case 1
    have z: "y_done s = rx_limit c" using tal RxCheck 1 unfolding u by (auto simp: rx_limit_def)
    have "rx_inv sz (s\<lparr>y_pc := RxDone\<rparr>)" by (rule rx_inv_pc[OF inv]) (use rx_invD[OF inv] RxCheck in simp)
    with 1 RxCheck z show ?thesis by (simp add: rx_thread_def same_offers_def)
  next
    case 2
    with thread_check_idle[OF inv RxCheck] inv tal show ?thesis by (simp add: same_offers_def)
  next
    case 3
    from thread_check_more[where took = took, OF inv RxCheck 3] obtain b' u' where
      "rx_thread took s = Inr (s\<lparr>y_pc := RxFill 0 0 RX_FRAME_LEN u', y_b := b'\<rparr>, [])"
      "rx_inv sz (s\<lparr>y_pc := RxFill 0 0 RX_FRAME_LEN u', y_b := b'\<rparr>)" "rxcnt b' = rxcnt (y_b s)" by metis
    moreover have "y_done s < rx_limit c" using tal RxCheck 3(1) unfolding u by auto
    ultimately show ?thesis using tal RxCheck by (simp add: same_offers_def rx_cost_def)
  qed
next
  case (RxFill k wr rm u)
  obtain b' m' pc' where t: "rx_thread took s = Inr (s\<lparr>y_pc := pc', y_b := b', y_m := m', y_done := Suc (y_done s)\<rparr>, [])"
    "rx_inv sz (s\<lparr>y_pc := pc', y_b := b', y_m := m', y_done := Suc (y_done s)\<rparr>)" "y_done s < length (y_sub s)"
    "pc' = RxKick \<or> (\<exists>w r v. pc' = RxFill (Suc k) w r v \<and> Suc k < 3)" "rxcnt b' = rxcnt (y_b s)"
    by (rule thread_fill[where took = took, OF inv RxFill])
  have mid: "rx_mid sz b' (y_base s) (y_sub s) (Suc (y_done s)) pc'" using rx_invD[OF t(2)] by simp
  from tal RxFill have n: "unat (rxcnt b') = c + y_done s div 3" "y_done s < rx_limit c" using t(5) by simp_all
  have "rx_tally c b' (Suc (y_done s)) pc'"
  proof (cases "pc' = RxKick")
    case True
    with mid have "Suc (y_done s) mod 3 = 0" by simp
    then have "Suc (y_done s) div 3 = y_done s div 3 + 1" by presburger
    with n True show ?thesis by simp
  next
    case False
    with t(4) obtain w r v where p: "pc' = RxFill (Suc k) w r v" "Suc k < 3" by blast
    with mid have m: "Suc (y_done s) mod 3 \<noteq> 0" by simp
    then have "Suc (y_done s) div 3 = y_done s div 3" by presburger
    moreover have "Suc (y_done s) \<noteq> rx_limit c" using m by (auto simp: rx_limit_def)
    ultimately show ?thesis using n p by simp
  qed
  moreover have "pc_cost pc' \<le> 3" using t(4) by auto
  ultimately show ?thesis using t by (auto simp: same_offers_def rx_cost_def)
next
  case RxKick
  let ?pc = "if fst (enq_count took (y_b s)) then RxCheck else RxDone" and ?b = "fst (snd (enq_count took (y_b s)))"
  obtain es where t: "rx_thread took s = Inr (s\<lparr>y_pc := ?pc, y_b := ?b\<rparr>, es)" "rx_inv sz (s\<lparr>y_pc := ?pc, y_b := ?b\<rparr>)"
    by (rule thread_kick[OF inv RxKick])
  have "y_done s mod 3 = 0" using rx_invD[OF inv] RxKick by simp
  from enq_count_tally[OF tal[unfolded RxKick] this, of took]
  have "rx_tally c ?b (y_done s) ?pc" .
  moreover have "pc_cost ?pc < 3" by simp
  ultimately show ?thesis using t RxKick by (simp add: same_offers_def rx_cost_def)
next
  case RxDone
  with inv tal show ?thesis by (simp add: rx_thread_def same_offers_def)
qed

lemma rx_reach_tally:
  assumes "rx_reach sz s0 s" "rx_init sz s0"
  shows "rx_tally (unat (rxcnt (y_b s0))) (y_b s) (y_done s) (y_pc s)"
  using assms
proof (induction rule: rx_reach.induct)
  case rx_reach_refl
  then show ?case by (auto simp: rx_init_def rx_limit_def)
next
  case (rx_reach_step s s')
  have inv: "rx_inv sz s" using rx_reach_sim[OF rx_reach_step.hyps(1) rx_reach_step.prems] by simp
  from rx_reach_step.hyps(2) show ?case
  proof cases
    case (rx_thread_step took es)
    from rx_thread_count[OF inv rx_reach_step.IH[OF rx_reach_step.prems], of took] rx_thread_step show ?thesis by auto
  qed (use rx_reach_step.IH[OF rx_reach_step.prems] in simp_all)
qed

lemma rx_run_fills:
  assumes "rx_inv sz s" "rx_tally c (y_b s) (y_done s) (y_pc s)"
  shows "\<exists>k s' es. k \<le> rx_cost s \<and> rx_run k took s = Inr (s', es) \<and> rx_inv sz s' \<and> same_offers s s' \<and>
    y_done s' = min (length (y_sub s)) (rx_limit c)"
  using assms
proof (induction "rx_cost s" arbitrary: s rule: less_induct)
  case less
  show ?case
  proof (cases "y_done s < length (y_sub s) \<and> y_done s < rx_limit c")
    case True
    from rx_thread_count[OF less.prems, of took] True obtain s1 es1 where
      s1: "rx_thread took s = Inr (s1, es1)" "rx_inv sz s1" "rx_tally c (y_b s1) (y_done s1) (y_pc s1)"
        "same_offers s s1" "rx_cost s1 < rx_cost s" by blast
    from less.hyps[OF s1(5,2,3)] obtain k s' es where
      k: "k \<le> rx_cost s1" "rx_run k took s1 = Inr (s', es)" "rx_inv sz s'" "same_offers s1 s'"
        "y_done s' = min (length (y_sub s1)) (rx_limit c)" by blast
    have "rx_run (Suc k) took s = Inr (s', es1 @ es)" using s1(1) k(2) by simp
    moreover have "Suc k \<le> rx_cost s" using k(1) s1(5) by simp
    moreover have "same_offers s s'" "y_done s' = min (length (y_sub s)) (rx_limit c)"
      using s1(4) k(4,5) by (simp_all add: same_offers_def)
    ultimately show ?thesis using k(3) by blast
  next
    case False
    moreover have "y_done s \<le> length (y_sub s)" "y_done s \<le> rx_limit c"
      using rx_invD[OF less.prems(1)] rx_tally_limit[OF less.prems(2)] by simp_all
    ultimately have "y_done s = min (length (y_sub s)) (rx_limit c)" by auto
    then show ?thesis using less.prems(1) by (intro exI[of _ 0] exI[of _ s] exI[of _ "[]"]) (simp add: same_offers_def)
  qed
qed

section \<open>Properties\<close>

text \<open>C5: The receive thread of \<^verbatim>\<open>enqueue\<close> and a guest driver that offers its buffers in threes, running in any
  interleaving from empty rings, implement the abstract stream of packets: in every state they can
  reach, the shared memory shows a reachable state of the stream. The driver reads the parts of the packets in
  the order in which it offered the buffers, each once and each as long as its buffer allows, also when
  it takes a buffer back while the thread still fills the other buffers of the packet; three buffers that
  are long enough together hold the whole packet.\<close>

theorem rx_ring_refines_stream:
  assumes "rx_init sz s0" "rx_reach sz s0 s"
  shows "(\<exists>q. rxq_reach sz (y_l s0) q \<and> rx_shows sz s q) \<and>
    y_read s = map (\<lambda>j. (ucast (bf_idx (y_sub s ! j)), rx_piece (y_l s0) (\<lambda>i. bf_len (y_sub s ! i)) j)) [0..<length (y_read s)] \<and>
    (\<forall>j. 3 * j + 3 \<le> length (y_read s) \<and> 10288 \<le> (\<Sum>t\<in>{3 * j..<3 * j + 3}. unat (bf_len (y_sub s ! t))) \<longrightarrow>
       concat (map (\<lambda>t. snd (y_read s ! t)) [3 * j..<3 * j + 3]) = take 10288 (r_pkt (y_l s0)))"
proof -
  from rx_reach_sim[OF assms(2,1)] have r: "rx_inv sz s" "y_l s = y_l s0" "rxq_reach sz (y_l s0) (rx_abs s)" by simp_all
  have h: "y_read s = map (\<lambda>j. (ucast (bf_idx (y_sub s ! j)), rx_piece (y_l s0) (blens (y_sub s)) j)) [0..<length (y_read s)]"
    using rx_invD[OF r(1)] r(2) by (simp add: rx_hist_def)
  have "concat (map (\<lambda>t. snd (y_read s ! t)) [3 * j..<3 * j + 3]) = take 10288 (r_pkt (y_l s0))"
    if "3 * j + 3 \<le> length (y_read s)" "10288 \<le> (\<Sum>t\<in>{3 * j..<3 * j + 3}. unat (bf_len (y_sub s ! t)))" for j
  proof -
    have "snd (y_read s ! t) = rx_piece (y_l s0) (blens (y_sub s)) t" if "t < length (y_read s)" for t
      using arg_cong[OF h, of "\<lambda>xs. xs ! t"] that by simp
    with that(1) have "map (\<lambda>t. snd (y_read s ! t)) [3 * j..<3 * j + 3] = map (rx_piece (y_l s0) (blens (y_sub s))) [3 * j..<3 * j + 3]"
      by (intro map_cong) auto
    with rx_pieces_packet[OF that(2), of "y_l s0"] show ?thesis by (simp only:)
  qed
  with h r(3) rx_inv_shows[OF r(1)] show ?thesis by blast
qed

text \<open>C6: Whatever such a driver does and however its steps interleave with those of the receive thread,
  the thread never faults, exits or fails its assertion: in every state that can be reached its next step ends with
  a result.\<close>

theorem rx_thread_never_fails:
  assumes "rx_init sz s0" "rx_reach sz s0 s"
  shows "\<exists>s' es. rx_thread took s = Inr (s', es)"
  using rx_thread_total[of sz s took] rx_reach_sim[OF assms(2,1)] by blast

text \<open>C7: From every state that the thread and the driver can reach, the thread, once the driver pauses,
  fills the buffers still offered and publishes the used index behind them, in a number of steps linear in
  the number of those buffers. It stops short of the last buffer only where the program ends the thread: when
  the counter of frames, which started at some value (0 in the program), has reached a million, that is after
  three buffers for each frame that was missing to the million.\<close>

theorem rx_ring_fills:
  assumes "rx_init sz s0" "rx_reach sz s0 s"
  shows "\<exists>k s' es. k \<le> 5 * (length (y_sub s) - y_done s) + 3 \<and> rx_run k took s = Inr (s', es) \<and> y_sub s' = y_sub s \<and>
    y_done s' = min (length (y_sub s)) (3 * (1000000 - unat (rxcnt (y_b s0)))) \<and>
    load16 (y_m s') (used_idx_at (r_used (y_l s))) = Inr (y_base s + of_nat (y_done s'))"
proof -
  have inv: "rx_inv sz s" using rx_reach_sim[OF assms(2,1)] by simp
  from rx_run_fills[OF inv rx_reach_tally[OF assms(2,1)], of took] obtain k s' es where
    k: "k \<le> rx_cost s" "rx_run k took s = Inr (s', es)" "rx_inv sz s'" "same_offers s s'"
      "y_done s' = min (length (y_sub s)) (rx_limit (unat (rxcnt (y_b s0))))" by blast
  have "pc_cost (y_pc s) \<le> 3" by (cases "y_pc s") simp_all
  with k(1) have "k \<le> 5 * (length (y_sub s) - y_done s) + 3" by (simp add: rx_cost_def)
  moreover have "load16 (y_m s') (used_idx_at (r_used (y_l s))) = Inr (y_base s + of_nat (y_done s'))"
    using rx_invD[OF k(3)] k(4) by (simp add: rx_back_def same_offers_def)
  ultimately show ?thesis using k(2,4,5) unfolding rx_limit_def same_offers_def by blast
qed

section \<open>A concrete run\<close>

text \<open>The guest of the previous theory before it offers its first three buffers, and after.\<close>

definition rx_two_x :: "nat \<Rightarrow> rx_buf" where
  "rx_two_x i = \<lparr>bf_idx = of_nat i, bf_va = rx_two_va i, bf_len = 64\<rparr>"

definition rx_run_s0 :: rx_sys where
  "rx_run_s0 = \<lparr>y_pc = RxCheck, y_l = rx_two_l, y_b = rx_two_b, y_m = rx_two_mem(65666 \<mapsto> 0), y_base = 0,
     y_sub = [], y_done = 0, y_read = []\<rparr>"

definition rx_run_s1 :: rx_sys where
  "rx_run_s1 = rx_run_s0\<lparr>y_m := rx_two_mem(65666 \<mapsto> 3, 65667 \<mapsto> 0), y_sub := map rx_two_x [0, 1, 2]\<rparr>"

lemma rx_two_areas: "rx_dev 8 rx_two_l \<subseteq> span 65728 68" "rx_avail 8 rx_two_l = span 65664 20"
  using rx_two_ring by (simp_all add: rx_dev_def rx_avail_def rx_two_l_def avail_flags_at_def)

lemma rx_run_dom: "dom (y_m rx_run_s0) = dom rx_two_mem"
  by (auto simp: rx_run_s0_def rx_two_mem_def dom_def)

lemma rx_run_init: "rx_init 8 rx_run_s0"
proof -
  have "rx_layout 8 rx_two_l rx_two_b (y_m rx_run_s0)"
    unfolding rx_layout_def rx_run_dom
  proof (intro conjI)
    show "rx_dev 8 rx_two_l \<subseteq> dom rx_two_mem" by (rule order_trans[OF rx_two_areas(1) rx_two_span]) simp_all
    show "rx_avail 8 rx_two_l \<subseteq> dom rx_two_mem" unfolding rx_two_areas(2) by (rule rx_two_span) simp_all
    have "span 65664 20 \<inter> span 65728 68 = {}" by (simp add: span_apart_abs)
    with rx_two_areas show "rx_avail 8 rx_two_l \<inter> rx_dev 8 rx_two_l = {}" by blast
  qed (use rx_two_burst in \<open>auto simp: rx_burst_def\<close>)
  moreover have "load16 (y_m rx_run_s0) (avail_idx_at 65664) = Inr 0" "load16 (y_m rx_run_s0) (used_idx_at 65728) = Inr 0"
    by (simp_all add: rx_run_s0_def load16_def mem_simps rx_two_mem_def rx_two_byte_def avail_idx_at_def used_idx_at_def)
  ultimately show ?thesis
    by (simp add: rx_init_def) (simp add: rx_run_s0_def rx_two_b_def rx_two_l_def zero_vq_def)
qed

lemma rx_run_live: "rx_live 8 rx_two_l (y_m rx_run_s0) 0 (map rx_two_x [0, 1, 2])"
proof -
  have len: "length (map rx_two_x [0, 1, 2]) = 3" by simp
  have nth: "map rx_two_x [0, 1, 2] ! i = rx_two_x i" if "i < 3" for i
    using that by (auto simp: lt3 numeral_2_eq_2)
  have desc: "desc_span rx_two_l (rx_two_x i) \<subseteq> span 65536 128" if "i < 3" for i
    using span_shift[of "16 * i" 16 128 65536] that
    by (simp add: desc_span_def rx_two_x_def rx_two_l_def desc_addr_at_def unat_of_nat)
  have lo: "span 65536 128 \<subseteq> span 65536 512" "span 65728 68 \<subseteq> span 65536 512" "span 65664 20 \<subseteq> span 65536 512"
    "span 65536 128 \<inter> span 65728 68 = {}" "span 65536 128 \<inter> span 65664 20 = {}"
    using span_shift[of 0 128 512 65536] span_shift[of 192 68 512 65536] span_shift[of 128 20 512 65536]
    by (simp_all add: span_apart_abs)
  have bs: "buf_span (rx_two_x i) = span (rx_two_va i) 64" for i by (simp add: buf_span_def rx_two_x_def)
  have ap: "span (rx_two_va i) 64 \<inter> span 65536 512 = {}" "k < i \<Longrightarrow> span (rx_two_va k) 64 \<inter> span (rx_two_va i) 64 = {}" if "i < 3" for i k
    using rx_two_apart[of i] that by simp_all
  have dom: "span (rx_two_va i) 64 \<subseteq> dom rx_two_mem" if "i < 3" for i
    by (rule rx_two_span) (use that in \<open>simp_all add: rx_two_va_unat\<close>)
  have dev: "span (rx_two_va i) 64 \<inter> (rx_dev 8 rx_two_l \<union> rx_avail 8 rx_two_l) = {}" if "i < 3" for i
    using ap(1)[OF that] rx_two_areas lo(2,3) by blast
  have ddev: "desc_span rx_two_l (rx_two_x i) \<inter> (rx_dev 8 rx_two_l \<union> rx_avail 8 rx_two_l) = {}" if "i < 3" for i
    using desc[OF that] rx_two_areas lo(4,5) by blast
  have db: "desc_span rx_two_l (rx_two_x i) \<inter> span (rx_two_va j) 64 = {}" if "i < 3" "j < 3" for i j
    using desc[OF that(1)] ap(1)[OF that(2)] lo(1) by blast
  have bb: "span (rx_two_va i) 64 \<inter> span (rx_two_va j) 64 = {}" if "i < 3" "j < 3" "i \<noteq> j" for i j
    using ap(2)[of i j] ap(2)[of j i] that by (cases "i < j") auto
  show ?thesis unfolding rx_live_def len rx_run_dom using nth dom dev ddev db bb by (simp add: bs)
qed

lemma rx_run_offer: "rx_step 8 rx_run_s0 rx_run_s1"
proof -
  let ?xs = "map rx_two_x [0, 1, 2]"
  have st: "store16 (y_m rx_run_s0) (avail_idx_at (r_avail (y_l rx_run_s0))) (0 + 3) = Inr (y_m rx_run_s1)"
    by (simp add: rx_run_s0_def rx_run_s1_def store16_def rx_two_l_def avail_idx_at_def le_bytes_unfold rx_two_mem_def dom_def)
  have off: "\<forall>k<3. load16 (y_m rx_run_s0) (avail_ring_at (r_avail (y_l rx_run_s0)) (ring_pos 8 (y_base rx_run_s0) (length (y_sub rx_run_s0) + k))) = Inr (bf_idx (?xs ! k)) \<and>
       rx_good (y_l rx_run_s0) (y_b rx_run_s0) (y_m rx_run_s0) (?xs ! k)"
  proof (intro allI impI)
    fix k :: nat assume k: "k < 3"
    have ag: "agree_off (span 65666 1) rx_two_mem (y_m rx_run_s0)"
      using rx_run_dom by (auto simp: agree_off_def rx_run_s0_def span_Suc)
    have x: "?xs ! k = rx_two_x k" using k by (auto simp: lt3 numeral_2_eq_2)
    have pos: "ring_pos 8 0 k = k" "unat (of_nat k :: u16) = k" using k by (auto simp: ring_pos_def lt3)
    have slot: "span (avail_ring_at 65664 k) 2 \<inter> span 65666 1 = {}"
      using k unfolding lt3 by (elim disjE) (simp_all add: avail_ring_at_def span_apart_abs)
    have "desc_span rx_two_l (rx_two_x k) \<inter> span 65666 1 = {}"
      using k unfolding lt3 by (elim disjE) (simp_all add: desc_span_def rx_two_x_def rx_two_l_def desc_addr_at_def span_apart_abs)
    moreover have "rx_good rx_two_l rx_two_b rx_two_mem (rx_two_x k)"
      using rx_two_burst k by (simp add: rx_burst_def rx_offer_def rx_room_def rx_good_def rx_two_x_def)
    ultimately have "rx_good rx_two_l rx_two_b (y_m rx_run_s0) (rx_two_x k)" by (intro rx_good_agree[OF _ ag])
    moreover have "\<forall>i\<le>6. load16 rx_two_mem (avail_ring_at 65664 (unat (0 + of_nat i :: u16) mod 8)) = Inr (of_nat i)"
      using rx_two_offer by (simp add: rx_offer_def rx_two_l_def)
    from this[rule_format, of k] have "load16 rx_two_mem (avail_ring_at 65664 k) = Inr (of_nat k)"
      using k pos(2) by simp
    ultimately show "load16 (y_m rx_run_s0) (avail_ring_at (r_avail (y_l rx_run_s0)) (ring_pos 8 (y_base rx_run_s0) (length (y_sub rx_run_s0) + k))) = Inr (bf_idx (?xs ! k)) \<and>
       rx_good (y_l rx_run_s0) (y_b rx_run_s0) (y_m rx_run_s0) (?xs ! k)"
      unfolding x using c16.ld_agree[OF ag slot] pos(1) by (simp add: rx_run_s0_def rx_two_x_def rx_two_l_def)
  qed
  have "rx_step 8 rx_run_s0 (rx_run_s0\<lparr>y_m := y_m rx_run_s1, y_sub := y_sub rx_run_s0 @ ?xs\<rparr>)"
    by (rule rx_guest_offer[OF _ _ _ off _ _ st])
       (use rx_run_live rx_run_init in \<open>simp_all add: rx_init_def rx_run_s0_def rx_two_x_def\<close>)
  then show ?thesis by (simp add: rx_run_s1_def rx_run_s0_def)
qed

lemma rx_run_reach: "rx_reach 8 rx_run_s0 rx_run_s1"
  by (rule rx_reach_step[OF rx_reach_refl rx_run_offer])

lemma rx_run_sel:
  "y_sub rx_run_s1 = map rx_two_x [0, 1, 2]" "y_done rx_run_s1 = 0" "y_pc rx_run_s1 = RxCheck" "y_l rx_run_s0 = rx_two_l"
  "y_l rx_run_s1 = rx_two_l" "y_base rx_run_s1 = 0" "rxcnt (y_b rx_run_s1) = 0" "y_read rx_run_s1 = []"
  by (simp_all add: rx_run_s1_def rx_run_s0_def rx_two_b_def zero_backend_def)

theorem rx_ring_refines_stream_witness:
  "\<exists>q. rxq_reach 8 rx_two_l q \<and> rx_shows 8 rx_run_s1 q \<and> length (q_off q) = 3"
proof -
  from rx_ring_refines_stream[OF rx_run_init rx_run_reach] obtain q where
    q: "rxq_reach 8 rx_two_l q" "rx_shows 8 rx_run_s1 q" by (auto simp: rx_run_sel)
  then have "length (q_off q) = 3" by (auto simp: rx_shows_def rx_abs_def rx_run_sel)
  with q show ?thesis by blast
qed

theorem rx_thread_never_fails_witness:
  "y_pc rx_run_s1 = RxCheck \<and> (\<exists>s' es. rx_thread '''' rx_run_s1 = Inr (s', es))"
  using rx_thread_never_fails[OF rx_run_init rx_run_reach] rx_run_sel(3) by blast

theorem rx_ring_fills_witness:
  "\<exists>k s' es. k \<le> 18 \<and> rx_run k '''' rx_run_s1 = Inr (s', es) \<and> y_done s' = 3 \<and> load16 (y_m s') 65730 = Inr 3"
proof -
  have n: "length (y_sub rx_run_s1) = 3" by (simp add: rx_run_sel)
  have c: "rxcnt (y_b rx_run_s0) = 0" by (simp add: rx_run_s0_def rx_two_b_def zero_backend_def)
  from rx_ring_fills[OF rx_run_init rx_run_reach, of "''''"] show ?thesis
    unfolding n c rx_run_sel(2,5,6) by (auto simp: rx_two_l_def used_idx_at_def)
qed

end
