(* ===== verification/HexDump.thy ===== *)
theory HexDump
  imports Fmt
begin

text \<open>
  The two hex dumpers: \<^verbatim>\<open>print_hex_ascii_line\<close> and \<^verbatim>\<open>print_payload\<close> of
  src/code_dump/guest_to_host/read_tap_pcap.c, and \<^verbatim>\<open>PrintData\<close> of
  src/code_dump/vm_tap/sniff_pcap.c. Their output is the string they print. Each is shown equal
  to a reference that prints the data in rows of 16 bytes, and a row of the first one can be read
  back.
\<close>

section \<open>Definitions\<close>

definition nl :: string where "nl = [CHR 0x0A]"

text \<open>\<open>n\<close> bytes of a buffer from offset \<open>off\<close> on.\<close>

definition peek_bytes :: "u8 list \<Rightarrow> nat \<Rightarrow> nat \<Rightarrow> u8 list res" where
  "peek_bytes buf off n = (if off + n \<le> length buf then Inr (take n (drop off buf)) else Inl OutOfBounds)"

text \<open>\<^verbatim>\<open>isprint\<close> in the C locale.\<close>

definition isprint :: "u8 \<Rightarrow> bool" where
  "isprint b \<longleftrightarrow> 32 \<le> unat b \<and> unat b \<le> 126"

fun hex_loop :: "nat \<Rightarrow> u8 list \<Rightarrow> string" where
  "hex_loop i [] = []"
| "hex_loop i (b # bs) =
     fmt_02x b @ '' '' @ (if i = 7 then '' '' else []) @ hex_loop (Suc i) bs"

definition ascii_col :: "(u8 \<Rightarrow> bool) \<Rightarrow> u8 list \<Rightarrow> string" where
  "ascii_col ok bs = concat (map (\<lambda>b. if ok b then [char_of (unat b)] else ''.'') bs)"

definition print_hex_ascii_line :: "u8 list \<Rightarrow> int \<Rightarrow> string" where
  "print_hex_ascii_line bs offset =
     (let len = length bs in
      fmt_05d offset @ ''   '' @ hex_loop 0 bs @
      (if len < 8 then '' '' else []) @
      (if len < 16 then concat (replicate (16 - len) ''   '') else []) @
      ''   '' @ ascii_col isprint bs @ nl)"

text \<open>
  The loop over the rows, entered with the bytes from the current position on, the number of
  remaining bytes and the offset to print.
\<close>

function payload_loop :: "u8 list \<Rightarrow> nat \<Rightarrow> int \<Rightarrow> string res" where
  "payload_loop ch len_rem offset =
     (if len_rem = 0 then Inl DivideByZero
      else
        let line_len = 16 mod len_rem; rest = len_rem - line_len in
        bindE (peek_bytes ch 0 line_len) (\<lambda>bs.
          if rest \<le> 16 then
            bindE (peek_bytes (drop line_len ch) 0 rest) (\<lambda>bs'.
              Inr (print_hex_ascii_line bs offset @ print_hex_ascii_line bs' (offset + 16)))
          else
            bindE (payload_loop (drop line_len ch) rest (offset + 16)) (\<lambda>out.
              Inr (print_hex_ascii_line bs offset @ out))))"
  by pat_completeness auto
termination
proof (relation "measure (\<lambda>(_, n, _). n)", goal_cases)
  case (2 ch len_rem offset line_len rest bs)
  then have "16 < len_rem" by auto
  then have "16 mod len_rem = 16" by simp
  with 2 show ?case by simp
qed simp

definition print_payload :: "u8 list \<Rightarrow> int \<Rightarrow> string res" where
  "print_payload payload len =
     (if len \<le> 0 then Inr []
      else if len \<le> 16 then
        bindE (peek_bytes payload 0 (nat len)) (\<lambda>bs. Inr (print_hex_ascii_line bs 0))
      else payload_loop payload (nat len) 0)"

text \<open>\<^verbatim>\<open>PrintData\<close>: the characters of a row are printed when the next row starts, or at the end.\<close>

definition data_print :: "u8 \<Rightarrow> bool" where
  "data_print b \<longleftrightarrow> 32 \<le> unat b \<and> unat b \<le> 128"

definition print_data_step :: "u8 list \<Rightarrow> nat \<Rightarrow> nat \<Rightarrow> string res" where
  "print_data_step data n i =
     bindE (if i \<noteq> 0 \<and> i mod 16 = 0
            then bindE (peek_bytes data (i - 16) 16) (\<lambda>bs.
                   Inr (''         '' @ ascii_col data_print bs @ nl))
            else Inr []) (\<lambda>s1.
     bindE (arr_get data i) (\<lambda>b.
     bindE (if i = n - 1
            then bindE (peek_bytes data (i - i mod 16) (i mod 16 + 1)) (\<lambda>bs.
                   Inr (concat (replicate (15 - i mod 16) ''   '') @ ''         '' @
                        ascii_col data_print bs @ nl))
            else Inr []) (\<lambda>s2.
       Inr (s1 @ (if i mod 16 = 0 then ''   '' else []) @ '' '' @ fmt_02X b @ s2))))"

function print_data_loop :: "u8 list \<Rightarrow> nat \<Rightarrow> nat \<Rightarrow> string res" where
  "print_data_loop data n i =
     (if i < n then
        bindE (print_data_step data n i) (\<lambda>s.
        bindE (print_data_loop data n (Suc i)) (\<lambda>t. Inr (s @ t)))
      else Inr [])"
  by pat_completeness auto
termination
  by (relation "measure (\<lambda>(_, n, i). n - i)") auto

definition PrintData :: "u8 list \<Rightarrow> int \<Rightarrow> string res" where
  "PrintData data Size = print_data_loop data (nat Size) 0"

section \<open>Reference: rows of 16\<close>

fun rows :: "nat \<Rightarrow> 'a list \<Rightarrow> (nat \<times> 'a list) list" where
  "rows off [] = []"
| "rows off (x # xs) = (off, take 16 (x # xs)) # rows (off + 16) (drop 15 xs)"

text \<open>One row of \<^verbatim>\<open>PrintData\<close>.\<close>

definition data_row :: "u8 list \<Rightarrow> string" where
  "data_row bs = ''   '' @ concat (map (\<lambda>b. '' '' @ fmt_02X b) bs) @
     concat (replicate (16 - length bs) ''   '') @ ''         '' @ ascii_col data_print bs @ nl"

text \<open>Reading the \<open>n\<close> bytes of a row of \<^verbatim>\<open>print_hex_ascii_line\<close> back from its hexadecimal columns.\<close>

definition unhex_at :: "string \<Rightarrow> nat \<Rightarrow> u8" where
  "unhex_at s i = (let p = 8 + 3 * i + (if 7 < i then 1 else 0) in
     of_nat (digits_value 16 (map undigit (take 2 (drop p s)))))"

definition unhex_line :: "nat \<Rightarrow> string \<Rightarrow> u8 list" where
  "unhex_line n s = map (unhex_at s) [0..<n]"

section \<open>Lemmas\<close>

declare payload_loop.simps [simp del] print_data_loop.simps [simp del]

lemma rows_unfold: "xs \<noteq> [] \<Longrightarrow> rows off xs = (off, take 16 xs) # rows (off + 16) (drop 16 xs)"
  by (cases xs) simp_all

lemma rows_concat: "concat (map snd (rows off xs)) = xs"
proof (induction off xs rule: rows.induct)
  case (2 off x xs)
  have "take 16 (x # xs) @ drop 15 xs = x # xs" by (simp add: take_Cons')
  with 2 show ?case by simp
qed simp

lemma ascii_col_length [simp]: "length (ascii_col ok bs) = length bs"
  by (induction bs) (auto simp: ascii_col_def)

lemma ascii_col_append: "ascii_col ok (xs @ ys) = ascii_col ok xs @ ascii_col ok ys"
  by (simp add: ascii_col_def)

lemma peek_bytes_all [simp]: "length bs = n \<Longrightarrow> peek_bytes bs 0 n = Inr bs"
  by (simp add: peek_bytes_def)

section \<open>Rows of the payload printer\<close>

definition payload_rows :: "nat \<Rightarrow> u8 list \<Rightarrow> string" where
  "payload_rows off bs = concat (map (\<lambda>(o', r). print_hex_ascii_line r (int o')) (rows off bs))"

lemma payload_rows_short:
  "bs \<noteq> [] \<Longrightarrow> length bs \<le> 16 \<Longrightarrow> payload_rows off bs = print_hex_ascii_line bs (int off)"
  by (simp add: payload_rows_def rows_unfold)

lemma payload_rows_long:
  "16 < length bs \<Longrightarrow> payload_rows off bs =
     print_hex_ascii_line (take 16 bs) (int off) @ payload_rows (off + 16) (drop 16 bs)"
  by (cases "bs = []") (simp_all add: payload_rows_def rows_unfold)

lemma payload_loop_rows:
  assumes "16 < n" "n \<le> length ch"
  shows "payload_loop ch n (int off) = Inr (payload_rows off (take n ch))"
  using assms
proof (induction n arbitrary: ch off rule: less_induct)
  case (less n)
  have m: "16 mod n = 16" using less.prems(1) by simp
  have long: "payload_rows off (take n ch) =
      print_hex_ascii_line (take 16 ch) (int off) @ payload_rows (off + 16) (take (n - 16) (drop 16 ch))"
    using less.prems by (simp add: payload_rows_long drop_take min_def)
  show ?case
  proof (cases "n - 16 \<le> 16")
    case True
    have "payload_rows (off + 16) (take (n - 16) (drop 16 ch)) =
        print_hex_ascii_line (take (n - 16) (drop 16 ch)) (int off + 16)"
      using True less.prems by (subst payload_rows_short) auto
    with True less.prems m long show ?thesis
      by (simp add: payload_loop.simps[of ch n] Let_def peek_bytes_def)
  next
    case False
    have "payload_loop (drop 16 ch) (n - 16) (int (off + 16)) =
        Inr (payload_rows (off + 16) (take (n - 16) (drop 16 ch)))"
      by (rule less.IH) (use less.prems False in auto)
    with False less.prems m long show ?thesis
      by (simp add: payload_loop.simps[of ch n] Let_def peek_bytes_def)
  qed
qed

lemma payload_loop_overrun:
  assumes "16 < n" "length ch < n"
  shows "payload_loop ch n off = Inl OutOfBounds"
  using assms
proof (induction n arbitrary: ch off rule: less_induct)
  case (less n)
  have m: "16 mod n = 16" using less.prems(1) by simp
  have "length (drop 16 ch) < n - 16" using less.prems by (cases "16 \<le> length ch") auto
  then have "n - 16 \<le> 16 \<or> payload_loop (drop 16 ch) (n - 16) (off + 16) = Inl OutOfBounds"
    using less.IH[of "n - 16" "drop 16 ch" "off + 16"] less.prems(1) by (meson diff_less not_le less_trans zero_less_numeral)
  with less.prems m show ?case
    by (auto simp: payload_loop.simps[of ch n] Let_def peek_bytes_def)
qed

section \<open>Layout of a row\<close>

lemma hex_loop_length:
  "length (hex_loop i bs) = 3 * length bs + (if i \<le> 7 \<and> 7 < i + length bs then 1 else 0)"
  by (induction bs arbitrary: i) auto

lemma hex_loop_nth:
  assumes "j < length bs"
  shows "take 2 (drop (3 * j + (if i \<le> 7 \<and> 7 < i + j then 1 else 0)) (hex_loop i bs @ rest)) = fmt_02x (bs ! j)"
  using assms
proof (induction bs arbitrary: i j)
  case (Cons b bs)
  have f: "length (fmt_02x b) = 2" by simp
  show ?case
  proof (cases j)
    case 0
    with f show ?thesis by auto
  next
    case (Suc k)
    then have k: "k < length bs" using Cons.prems by simp
    let ?gap = "if i = 7 then 1 else 0 :: nat"
    have pos: "3 * j + (if i \<le> 7 \<and> 7 < i + j then 1 else 0) =
        (3 + ?gap) + (3 * k + (if Suc i \<le> 7 \<and> 7 < Suc i + k then 1 else 0))"
      using Suc by auto
    define pre where "pre = fmt_02x b @ '' '' @ (if i = 7 then '' '' else [])"
    have pre: "hex_loop i (b # bs) @ rest = pre @ (hex_loop (Suc i) bs @ rest)" "length pre = 3 + ?gap"
      by (simp_all add: pre_def)
    have "drop ((3 + ?gap) + d) (hex_loop i (b # bs) @ rest) = drop d (hex_loop (Suc i) bs @ rest)" for d
      unfolding pre(1) by (simp only: drop_append pre(2)) (simp add: pre(2))
    then show ?thesis using Cons.IH[OF k, of "Suc i"] Suc unfolding pos by simp
  qed
qed simp

lemma fmt_05d_length: "0 \<le> off \<Longrightarrow> off < 100000 \<Longrightarrow> length (fmt_05d off) = 5"
proof -
  have "length (digits 10 n) \<le> 5" if "n < 100000" for n
  proof -
    have s: "length (digits 10 n) \<le> Suc k" if "n < 10 ^ Suc k" for n k
      using that
    proof (induction k arbitrary: n)
      case (Suc k)
      then have "n div 10 < 10 ^ Suc k" by (simp add: less_mult_imp_div_less mult.commute)
      from Suc.IH[OF this] show ?case by (simp add: digits.simps[of 10 n])
    qed (simp add: digits.simps)
    from s[of n 4] that show ?thesis by simp
  qed
  then show "0 \<le> off \<Longrightarrow> off < 100000 \<Longrightarrow> length (fmt_05d off) = 5"
    by (simp add: fmt_05d_def pad_left_def fmt_u_def)
qed

lemma concat_replicate_length: "length (concat (replicate n xs)) = n * length xs"
  by (induction n) auto

lemma unhex_row:
  assumes "length bs \<le> 16" "0 \<le> off" "off < 100000" "i < length bs"
  shows "unhex_at (print_hex_ascii_line bs off) i = bs ! i"
proof -
  let ?p = "3 * i + (if 7 < i then 1 else 0)"
  obtain pre rest where line: "print_hex_ascii_line bs off = pre @ (hex_loop 0 bs @ rest)" "length pre = 8"
    using fmt_05d_length[OF assms(2,3)] that[of "fmt_05d off @ ''   ''"]
    by (auto simp: print_hex_ascii_line_def Let_def)
  have "drop (8 + ?p) (print_hex_ascii_line bs off) = drop ?p (hex_loop 0 bs @ rest)"
    unfolding line(1) using line(2) by simp
  moreover have "take 2 (drop ?p (hex_loop 0 bs @ rest)) = fmt_02x (bs ! i)"
    using hex_loop_nth[OF assms(4), of 0 rest] by simp
  ultimately show ?thesis
    unfolding unhex_at_def Let_def by (simp add: fmt_02x_value add.assoc)
qed

section \<open>Rows of PrintData\<close>

definition data_rows :: "u8 list \<Rightarrow> string" where
  "data_rows bs = concat (map (\<lambda>(o', r). data_row r) (rows 0 bs))"

definition hex_cols :: "u8 list \<Rightarrow> string" where
  "hex_cols bs = concat (map (\<lambda>b. '' '' @ fmt_02X b) bs)"

definition row_tail :: "u8 list \<Rightarrow> string" where
  "row_tail bs = concat (replicate (16 - length bs) ''   '') @ ''         '' @ ascii_col data_print bs @ nl"

lemma data_row_parts: "data_row bs = ''   '' @ hex_cols bs @ row_tail bs"
  by (simp add: data_row_def hex_cols_def row_tail_def)

lemma rows_data: "map snd (rows off xs) = map snd (rows 0 xs)"
proof (induction off xs rule: rows.induct)
  case (2 off x xs)
  have "map snd (rows 16 ys) = map snd (rows 0 ys)" for ys :: "'a list"
  proof -
    have "map snd (rows a ys) = map snd (rows b ys)" for a b :: nat and ys :: "'a list"
      by (induction a ys arbitrary: b rule: rows.induct) auto
    then show ?thesis .
  qed
  with 2 show ?case by simp
qed simp

lemma data_rows_unfold: "bs \<noteq> [] \<Longrightarrow> data_rows bs = data_row (take 16 bs) @ data_rows (drop 16 bs)"
proof -
  have e: "data_rows bs = concat (map data_row (map snd (rows off bs)))" for off bs
  proof -
    have "map (\<lambda>(o', r). data_row r) xs = map data_row (map snd xs)" for xs :: "(nat \<times> u8 list) list"
      by (simp add: case_prod_beta')
    then show ?thesis unfolding data_rows_def rows_data[of off] by (rule arg_cong)
  qed
  show "bs \<noteq> [] \<Longrightarrow> data_rows bs = data_row (take 16 bs) @ data_rows (drop 16 bs)"
    unfolding e[of bs 0] e[of "drop 16 bs" 16] by (simp add: rows_unfold)
qed

text \<open>What the loop still prints when it enters with index \<open>i\<close>.\<close>

definition data_rest :: "u8 list \<Rightarrow> nat \<Rightarrow> nat \<Rightarrow> string" where
  "data_rest data n i =
     (let r = i - i mod 16; row = take 16 (drop r (take n data)) in
      (if i \<noteq> 0 \<and> i mod 16 = 0 then row_tail (take 16 (drop (i - 16) data)) else []) @
      (if i mod 16 = 0 then ''   '' else []) @ hex_cols (drop (i mod 16) row) @ row_tail row @
      data_rows (drop (r + 16) (take n data)))"

lemma data_rest_start:
  "i mod 16 = 0 \<Longrightarrow> i < n \<Longrightarrow> n \<le> length data \<Longrightarrow> data_rest data n i =
     (if i = 0 then [] else row_tail (take 16 (drop (i - 16) data))) @ data_rows (drop i (take n data))"
  by (subst data_rows_unfold) (auto simp: data_rest_def Let_def data_row_parts add.commute)

lemma row_tail_full: "length bs = 16 \<Longrightarrow> row_tail bs = ''         '' @ ascii_col data_print bs @ nl"
  by (simp add: row_tail_def)

lemma hex_cols_drop: "k < length bs \<Longrightarrow> hex_cols (drop k bs) = '' '' @ fmt_02X (bs ! k) @ hex_cols (drop (Suc k) bs)"
  by (simp add: hex_cols_def flip: Cons_nth_drop_Suc)

lemma print_data_step_ok:
  assumes "i < n" "n \<le> length data"
  shows "print_data_step data n i = Inr (
     (if i \<noteq> 0 \<and> i mod 16 = 0 then row_tail (take 16 (drop (i - 16) data)) else []) @
     (if i mod 16 = 0 then ''   '' else []) @ '' '' @ fmt_02X (data ! i) @
     (if i = n - 1 then row_tail (take (i mod 16 + 1) (drop (i - i mod 16) data)) else []))"
proof -
  let ?prev = "take 16 (drop (i - 16) data)" and ?row = "take (i mod 16 + 1) (drop (i - i mod 16) data)"
  have e: "i - i mod 16 + (i mod 16 + 1) = i + 1" by (simp add: mod_less_eq_dividend)
  have s1: "(if i \<noteq> 0 \<and> i mod 16 = 0 then bindE (peek_bytes data (i - 16) 16) (\<lambda>bs.
        Inr (''         '' @ ascii_col data_print bs @ nl)) else Inr []) =
      Inr (if i \<noteq> 0 \<and> i mod 16 = 0 then row_tail ?prev else [])"
  proof (cases "i \<noteq> 0 \<and> i mod 16 = 0")
    case True
    then have "16 \<le> i" by (simp add: dvd_imp_le mod_eq_0_iff_dvd)
    then have "length ?prev = 16" "peek_bytes data (i - 16) 16 = Inr ?prev"
      using assms by (simp_all add: peek_bytes_def)
    with True show ?thesis by (simp only: row_tail_full bindE_Inr if_True simp_thms)
  qed (simp only: if_False)
  have "length ?row = i mod 16 + 1" using e assms by simp
  then have "row_tail ?row = concat (replicate (15 - i mod 16) ''   '') @ ''         '' @
      ascii_col data_print ?row @ nl"
    by (simp only: row_tail_def) simp
  moreover have "peek_bytes data (i - i mod 16) (i mod 16 + 1) = Inr ?row"
    using e assms by (simp only: peek_bytes_def) simp
  ultimately have s2: "(if i = n - 1 then bindE (peek_bytes data (i - i mod 16) (i mod 16 + 1)) (\<lambda>bs.
        Inr (concat (replicate (15 - i mod 16) ''   '') @ ''         '' @ ascii_col data_print bs @ nl))
      else Inr []) = Inr (if i = n - 1 then row_tail ?row else [])"
    by (simp only: bindE_Inr if_distrib[of Inr])
  show ?thesis
    unfolding print_data_step_def s1 s2 using assms by simp
qed

lemma print_data_loop_rest:
  assumes "i < n" "n \<le> length data"
  shows "print_data_loop data n i = Inr (data_rest data n i)"
  using assms
proof (induction "n - i" arbitrary: i)
  case (Suc k)
  let ?r = "i - i mod 16" and ?j = "i mod 16"
  let ?row = "take 16 (drop ?r (take n data))"
  have r: "?r + ?j = i" "?j < 16" by (simp_all add: mod_less_eq_dividend)
  have jl: "?j < length ?row" "?row ! ?j = data ! i" using r Suc.prems by (auto simp: min_def)
  have here: "hex_cols (drop ?j ?row) = '' '' @ fmt_02X (data ! i) @ hex_cols (drop (Suc ?j) ?row)"
    using hex_cols_drop[OF jl(1)] jl(2) by simp
  have unf: "print_data_loop data n i = bindE (print_data_step data n i) (\<lambda>s.
      bindE (print_data_loop data n (Suc i)) (\<lambda>t. Inr (s @ t)))"
    using Suc.prems by (simp add: print_data_loop.simps[of data n i])
  show ?case
  proof (cases "i = n - 1")
    case True
    then have n: "n = Suc i" using Suc.prems by simp
    have row: "?row = take (?j + 1) (drop ?r data)" using r n by (simp add: drop_take min.absorb2)
    have "drop (Suc ?j) ?row = []" "drop (?r + 16) (take n data) = []" using r n by auto
    then show ?thesis
      unfolding unf print_data_step_ok[OF Suc.prems] data_rest_def Let_def here
      using n row by (simp add: print_data_loop.simps[of data "Suc i"] hex_cols_def data_rows_def)
  next
    case False
    then have next_i: "Suc i < n" using Suc.prems by simp
    have IH: "print_data_loop data n (Suc i) = Inr (data_rest data n (Suc i))"
      by (rule Suc.hyps(1)) (use Suc next_i in auto)
    have "hex_cols (drop (Suc ?j) ?row) @ row_tail ?row @ data_rows (drop (?r + 16) (take n data)) =
        data_rest data n (Suc i)"
    proof (cases "?j = 15")
      case True
      then have m: "Suc i mod 16 = 0" "Suc i = ?r + 16" using r by (simp_all add: mod_Suc)
      have "16 \<le> n - ?r" using m(2) next_i by linarith
      then have "take 16 (drop ?r (take n data)) = take 16 (drop ?r data)"
        by (simp only: drop_take take_take min.absorb1)
      moreover have "?r = Suc i - 16" using m(2) by linarith
      ultimately have full: "?row = take 16 (drop (Suc i - 16) data)" by simp
      have none: "drop (Suc ?j) ?row = []" unfolding True by simp
      show ?thesis
        unfolding data_rest_start[OF m(1) next_i Suc.prems(2)] none unfolding full unfolding m(2)[symmetric]
        by (simp add: hex_cols_def)
    next
      case False
      then have m: "Suc i mod 16 = Suc ?j" "Suc i - Suc i mod 16 = ?r" using r by (simp_all add: mod_Suc)
      show ?thesis unfolding data_rest_def Let_def m by simp
    qed
    then show ?thesis
      unfolding unf print_data_step_ok[OF Suc.prems] IH using False here
      by (simp add: data_rest_def Let_def)
  qed
qed simp

section \<open>Properties\<close>

lemma print_payload_ok:
  "print_payload ch len =
     (if length ch < nat len then Inl OutOfBounds else Inr (payload_rows 0 (take (nat len) ch)))"
proof -
  consider "len \<le> 0" | "0 < len" "len \<le> 16" | "16 < len" by linarith
  then show ?thesis
  proof cases
    case 2
    then have "payload_rows 0 (take (nat len) ch) = print_hex_ascii_line (take (nat len) ch) 0"
      if "nat len \<le> length ch"
      using that by (subst payload_rows_short) auto
    with 2 show ?thesis by (auto simp: print_payload_def peek_bytes_def)
  next
    case 3
    then show ?thesis
      using payload_loop_rows[of "nat len" ch 0] payload_loop_overrun[of "nat len" ch 0]
      by (simp add: print_payload_def)
  qed (simp add: print_payload_def payload_rows_def)
qed

text \<open>C29: \<^verbatim>\<open>print_payload\<close> prints the whole payload and nothing else: for a payload of \<open>len\<close> bytes inside
  the captured data, its output is the rows of 16 bytes of exactly these bytes, in order, each with
  its offset, the last row shorter; the loop with \<^verbatim>\<open>line_width % len_rem\<close> ends. If fewer than
  \<open>len\<close> bytes were captured it reads past the end of the captured data.\<close>

theorem print_payload_rows:
  "print_payload ch len =
     (if length ch < nat len then Inl OutOfBounds
      else Inr (concat (map (\<lambda>(off, r). print_hex_ascii_line r (int off)) (rows 0 (take (nat len) ch)))))"
  by (simp add: print_payload_ok payload_rows_def)

text \<open>A row of the dump can be read back: the hexadecimal columns of a printed row of at most 16
  bytes, with an offset of at most five digits, determine the bytes.\<close>

theorem print_hex_ascii_line_roundtrip:
  assumes "length bs \<le> 16" "0 \<le> off" "off < 100000"
  shows "unhex_line (length bs) (print_hex_ascii_line bs off) = bs"
  using assms unhex_row[OF assms]
  by (intro nth_equalityI) (simp_all add: unhex_line_def)

theorem print_hex_ascii_line_roundtrip_witness:
  "unhex_line (Suc (Suc (Suc 0))) (print_hex_ascii_line [71, 69, 255] 16) = [71, 69, 255]"
  using print_hex_ascii_line_roundtrip[of "[71, 69, 255]" 16] by simp

lemma PrintData_data_rows:
  "nat Size \<le> length data \<Longrightarrow> PrintData data Size = Inr (data_rows (take (nat Size) data))"
proof (cases "0 < nat Size")
  case True
  assume le: "nat Size \<le> length data"
  then show ?thesis
    using print_data_loop_rest[OF True le] data_rest_start[of 0 "nat Size" data] True
    by (simp add: PrintData_def)
qed (simp add: PrintData_def print_data_loop.simps[of data 0] data_rows_def)

text \<open>C34: \<^verbatim>\<open>PrintData\<close>, which prints the characters of a row only when the next row starts, is
  equivalent to printing row by row: its output is one line per 16 bytes with the hexadecimal
  columns, padding for a short last row, and the characters of the same bytes.\<close>

theorem PrintData_rows:
  assumes "nat Size \<le> length data"
  shows "PrintData data Size = Inr (concat (map (\<lambda>(off, r). data_row r) (rows 0 (take (nat Size) data))))"
  using PrintData_data_rows[OF assms] by (simp add: data_rows_def)

theorem PrintData_rows_witness:
  "PrintData [72, 105, 0, 128] 3 = Inr (data_row [72, 105, 0])"
  using PrintData_rows[of 3 "[72, 105, 0, 128]"] by simp

end
