(* ===== verification/Sniff.thy ===== *)
theory Sniff
  imports HexDump
begin

text \<open>
  The packet sniffers. The raw-socket sniffer src/code_dump/vm_tap/sniff.c (the programs
  src/code_dump/raw_sockets/raw_eth_receive.c and src/code_dump/raw_sockets/sniffer/rcv.c differ
  from it only in how \<^verbatim>\<open>main\<close> opens the socket) counts packets by protocol and writes a dissection
  of every packet to a log file; src/code_dump/vm_tap/sniff_pcap.c is its libpcap variant, in which
  the counting is commented out. The sniffer src/code_dump/guest_to_host/read_tap_pcap.c prints
  the payload of TCP packets.

  A packet is the list of bytes of the receive buffer; a field is read at its byte offset in the
  C struct of the header, and a read outside the buffer is an error. The text that a function
  prints is its result.
\<close>

section \<open>Header fields\<close>

definition rd8 :: "u8 list \<Rightarrow> nat \<Rightarrow> nat res" where
  "rd8 buf i = bindE (arr_get buf i) (\<lambda>b. Inr (unat b))"

definition rd16be :: "u8 list \<Rightarrow> nat \<Rightarrow> nat res" where
  "rd16be buf i = bindE (peek_bytes buf i 2) (\<lambda>bs. Inr (unat (be_word bs :: u16)))"

definition rd16le :: "u8 list \<Rightarrow> nat \<Rightarrow> nat res" where
  "rd16le buf i = bindE (peek_bytes buf i 2) (\<lambda>bs. Inr (unat (le_word bs :: u16)))"

definition rd32be :: "u8 list \<Rightarrow> nat \<Rightarrow> nat res" where
  "rd32be buf i = bindE (peek_bytes buf i 4) (\<lambda>bs. Inr (unat (be_word bs :: u32)))"

text \<open>\<^verbatim>\<open>sizeof(struct ethhdr)\<close>, and the low four bits of the first byte of the IP header times four.\<close>

definition ETH_HLEN :: nat where "ETH_HLEN = 14"

definition iphdrlen :: "u8 list \<Rightarrow> nat res" where
  "iphdrlen buf = bindE (rd8 buf ETH_HLEN) (\<lambda>b. Inr (b mod 16 * 4))"

section \<open>Printing the headers\<close>

definition mac_str :: "u8 list \<Rightarrow> string" where
  "mac_str bs = concat (map (\<lambda>i. (if i = 0 then [] else ''-'') @ fmt_02X (bs ! i)) [0..<6])"

definition print_ethernet_header :: "u8 list \<Rightarrow> string res" where
  "print_ethernet_header buf =
     bindE (peek_bytes buf 0 6) (\<lambda>h_dest.
     bindE (peek_bytes buf 6 6) (\<lambda>h_source.
     bindE (rd16le buf 12) (\<lambda>h_proto.
       Inr (nl @ ''Ethernet Header'' @ nl @
            ''   |-Destination Address : '' @ mac_str h_dest @ '' '' @ nl @
            ''   |-Source Address      : '' @ mac_str h_source @ '' '' @ nl @
            ''   |-Protocol            : '' @ fmt_u h_proto @ '' '' @ nl))))"

definition print_ip_header :: "u8 list \<Rightarrow> string res" where
  "print_ip_header buf =
     bindE (print_ethernet_header buf) (\<lambda>eth.
     bindE (rd8 buf (ETH_HLEN + 0)) (\<lambda>vihl.
     bindE (rd8 buf (ETH_HLEN + 1)) (\<lambda>tos.
     bindE (rd16be buf (ETH_HLEN + 2)) (\<lambda>tot_len.
     bindE (rd16be buf (ETH_HLEN + 4)) (\<lambda>ident.
     bindE (rd8 buf (ETH_HLEN + 8)) (\<lambda>ttl.
     bindE (rd8 buf (ETH_HLEN + 9)) (\<lambda>protocol.
     bindE (rd16be buf (ETH_HLEN + 10)) (\<lambda>check.
     bindE (peek_bytes buf (ETH_HLEN + 12) 4) (\<lambda>saddr.
     bindE (peek_bytes buf (ETH_HLEN + 16) 4) (\<lambda>daddr.
       Inr (eth @ nl @ ''IP Header'' @ nl @
            ''   |-IP Version        : '' @ fmt_u (vihl div 16) @ nl @
            ''   |-IP Header Length  : '' @ fmt_u (vihl mod 16) @ '' DWORDS or '' @
              fmt_u (vihl mod 16 * 4) @ '' Bytes'' @ nl @
            ''   |-Type Of Service   : '' @ fmt_u tos @ nl @
            ''   |-IP Total Length   : '' @ fmt_u tot_len @ ''  Bytes(Size of Packet)'' @ nl @
            ''   |-Identification    : '' @ fmt_u ident @ nl @
            ''   |-TTL      : '' @ fmt_u ttl @ nl @
            ''   |-Protocol : '' @ fmt_u protocol @ nl @
            ''   |-Checksum : '' @ fmt_u check @ nl @
            ''   |-Source IP        : '' @ inet_ntoa saddr @ nl @
            ''   |-Destination IP   : '' @ inet_ntoa daddr @ nl)))))))))))"

text \<open>\<open>bit_str n b\<close>: bit \<open>b\<close> of a flag byte, printed with \<^verbatim>\<open>%d\<close>.\<close>

definition bit_str :: "nat \<Rightarrow> nat \<Rightarrow> string" where
  "bit_str n b = fmt_u (n div 2 ^ b mod 2)"

definition tcp_fields :: "u8 list \<Rightarrow> nat \<Rightarrow> string res" where
  "tcp_fields buf t =
     bindE (rd16be buf t) (\<lambda>src.
     bindE (rd16be buf (t + 2)) (\<lambda>dst.
     bindE (rd32be buf (t + 4)) (\<lambda>seqno.
     bindE (rd32be buf (t + 8)) (\<lambda>ack_seq.
     bindE (rd8 buf (t + 12)) (\<lambda>off.
     bindE (rd8 buf (t + 13)) (\<lambda>fl.
     bindE (rd16be buf (t + 14)) (\<lambda>window.
     bindE (rd16be buf (t + 16)) (\<lambda>check.
     bindE (rd16le buf (t + 18)) (\<lambda>urg_ptr.
       Inr (nl @ ''TCP Header'' @ nl @
            ''   |-Source Port      : '' @ fmt_u src @ nl @
            ''   |-Destination Port : '' @ fmt_u dst @ nl @
            ''   |-Sequence Number    : '' @ fmt_u seqno @ nl @
            ''   |-Acknowledge Number : '' @ fmt_u ack_seq @ nl @
            ''   |-Header Length      : '' @ fmt_u (off div 16) @ '' DWORDS or '' @
              fmt_u (off div 16 * 4) @ '' BYTES'' @ nl @
            ''   |-Urgent Flag          : '' @ bit_str fl 5 @ nl @
            ''   |-Acknowledgement Flag : '' @ bit_str fl 4 @ nl @
            ''   |-Push Flag            : '' @ bit_str fl 3 @ nl @
            ''   |-Reset Flag           : '' @ bit_str fl 2 @ nl @
            ''   |-Synchronise Flag     : '' @ bit_str fl 1 @ nl @
            ''   |-Finish Flag          : '' @ bit_str fl 0 @ nl @
            ''   |-Window         : '' @ fmt_u window @ nl @
            ''   |-Checksum       : '' @ fmt_u check @ nl @
            ''   |-Urgent Pointer : '' @ fmt_u urg_ptr @ nl))))))))))"

definition log_rule :: string where
  "log_rule = nl @ ''###########################################################''"

definition print_tcp_packet :: "u8 list \<Rightarrow> int \<Rightarrow> string res" where
  "print_tcp_packet buf Size =
     bindE (iphdrlen buf) (\<lambda>iphl.
     bindE (rd8 buf (iphl + ETH_HLEN + 12)) (\<lambda>off.
       let doff = off div 16; header_size = ETH_HLEN + iphl + doff * 4 in
       bindE (print_ip_header buf) (\<lambda>iph.
       bindE (tcp_fields buf (iphl + ETH_HLEN)) (\<lambda>tcph.
       bindE (PrintData buf (int iphl)) (\<lambda>d1.
       bindE (PrintData (drop iphl buf) (int (doff * 4))) (\<lambda>d2.
       bindE (PrintData (drop header_size buf) (Size - int header_size)) (\<lambda>d3.
         Inr (nl @ nl @ ''***********************TCP Packet*************************'' @ nl @
              iph @ tcph @ nl @ ''                        DATA Dump                         '' @ nl @
              ''IP Header'' @ nl @ d1 @ ''TCP Header'' @ nl @ d2 @ ''Data Payload'' @ nl @ d3 @
              log_rule))))))))"

text \<open>\<^verbatim>\<open>sizeof udph\<close> and \<^verbatim>\<open>sizeof icmph\<close> are sizes of pointers.\<close>

definition POINTER_SIZE :: nat where "POINTER_SIZE = 8"

definition print_udp_packet :: "u8 list \<Rightarrow> int \<Rightarrow> string res" where
  "print_udp_packet buf Size =
     bindE (iphdrlen buf) (\<lambda>iphl.
       let u = iphl + ETH_HLEN; header_size = ETH_HLEN + iphl + POINTER_SIZE in
       bindE (print_ip_header buf) (\<lambda>iph.
       bindE (rd16be buf u) (\<lambda>src.
       bindE (rd16be buf (u + 2)) (\<lambda>dst.
       bindE (rd16be buf (u + 4)) (\<lambda>ulen.
       bindE (rd16be buf (u + 6)) (\<lambda>check.
       bindE (PrintData buf (int iphl)) (\<lambda>d1.
       bindE (PrintData (drop iphl buf) (int POINTER_SIZE)) (\<lambda>d2.
       bindE (PrintData (drop header_size buf) (Size - int header_size)) (\<lambda>d3.
         Inr (nl @ nl @ ''***********************UDP Packet*************************'' @ nl @ iph @
              nl @ ''UDP Header'' @ nl @
              ''   |-Source Port      : '' @ fmt_u src @ nl @
              ''   |-Destination Port : '' @ fmt_u dst @ nl @
              ''   |-UDP Length       : '' @ fmt_u ulen @ nl @
              ''   |-UDP Checksum     : '' @ fmt_u check @ nl @ nl @
              ''IP Header'' @ nl @ d1 @ ''UDP Header'' @ nl @ d2 @ ''Data Payload'' @ nl @ d3 @
              log_rule))))))))))"

definition print_icmp_packet :: "u8 list \<Rightarrow> int \<Rightarrow> string res" where
  "print_icmp_packet buf Size =
     bindE (iphdrlen buf) (\<lambda>iphl.
       let u = iphl + ETH_HLEN; header_size = ETH_HLEN + iphl + POINTER_SIZE in
       bindE (print_ip_header buf) (\<lambda>iph.
       bindE (rd8 buf u) (\<lambda>typ.
       bindE (rd8 buf (u + 1)) (\<lambda>cod.
       bindE (rd16be buf (u + 2)) (\<lambda>checksum.
       bindE (PrintData buf (int iphl)) (\<lambda>d1.
       bindE (PrintData (drop iphl buf) (int POINTER_SIZE)) (\<lambda>d2.
       bindE (PrintData (drop header_size buf) (Size - int header_size)) (\<lambda>d3.
         Inr (nl @ nl @ ''***********************ICMP Packet*************************'' @ nl @ iph @
              nl @ ''ICMP Header'' @ nl @ ''   |-Type : '' @ fmt_u typ @
              (if typ = 11 then ''  (TTL Expired)'' @ nl
               else if typ = 0 then ''  (ICMP Echo Reply)'' @ nl else []) @
              ''   |-Code : '' @ fmt_u cod @ nl @ ''   |-Checksum : '' @ fmt_u checksum @ nl @ nl @
              ''IP Header'' @ nl @ d1 @ ''UDP Header'' @ nl @ d2 @ ''Data Payload'' @ nl @ d3 @
              log_rule)))))))))"

section \<open>The raw-socket sniffer\<close>

text \<open>The global counters, the log file (\<^const>\<open>None\<close> when \<^verbatim>\<open>fopen\<close> failed), and standard output.\<close>

record sniffer =
  n_tcp :: int
  n_udp :: int
  n_icmp :: int
  n_igmp :: int
  n_others :: int
  n_total :: int
  logfile :: "string option"
  stdout :: string

definition sniffer_init :: "bool \<Rightarrow> sniffer" where
  "sniffer_init log_opened =
     \<lparr>n_tcp = 0, n_udp = 0, n_icmp = 0, n_igmp = 0, n_others = 0, n_total = 0,
      logfile = (if log_opened then Some [] else None), stdout = []\<rparr>"

text \<open>Writing to a stream that could not be opened dereferences a null pointer.\<close>

definition log_text :: "string \<Rightarrow> sniffer \<Rightarrow> sniffer res" where
  "log_text s st =
     (case logfile st of
        None \<Rightarrow> Inl (SegFault 0)
      | Some f \<Rightarrow> Inr (st\<lparr>logfile := Some (f @ s)\<rparr>))"

definition counter_line :: "sniffer \<Rightarrow> string" where
  "counter_line st =
     ''TCP : '' @ fmt_d (n_tcp st) @ ''   UDP : '' @ fmt_d (n_udp st) @
     ''   ICMP : '' @ fmt_d (n_icmp st) @ ''   IGMP : '' @ fmt_d (n_igmp st) @
     ''   Others : '' @ fmt_d (n_others st) @ ''   Total : '' @ fmt_d (n_total st) @ [CHR 0x0D]"

text \<open>\<^verbatim>\<open>++\<close> on an \<^verbatim>\<open>int\<close>, whose overflow is undefined.\<close>

definition c_incr :: "int \<Rightarrow> int res" where
  "c_incr n = (if n < 2 ^ 31 - 1 then Inr (n + 1) else Inl SignedOverflow)"

definition ProcessPacket :: "u8 list \<Rightarrow> int \<Rightarrow> sniffer \<Rightarrow> sniffer res" where
  "ProcessPacket buffer sz st =
     bindE (c_incr (n_total st)) (\<lambda>total.
       let st = st\<lparr>n_total := total\<rparr> in
       bindE (rd8 buffer (ETH_HLEN + 9)) (\<lambda>protocol.
       bindE
         (if protocol = 1 then
            bindE (c_incr (n_icmp st)) (\<lambda>n.
            bindE (print_icmp_packet buffer sz) (\<lambda>s. log_text s (st\<lparr>n_icmp := n\<rparr>)))
          else if protocol = 2 then
            bindE (c_incr (n_igmp st)) (\<lambda>n. Inr (st\<lparr>n_igmp := n\<rparr>))
          else if protocol = 6 then
            bindE (c_incr (n_tcp st)) (\<lambda>n.
            bindE (print_tcp_packet buffer sz) (\<lambda>s. log_text s (st\<lparr>n_tcp := n\<rparr>)))
          else if protocol = 17 then
            bindE (c_incr (n_udp st)) (\<lambda>n.
            bindE (print_udp_packet buffer sz) (\<lambda>s. log_text s (st\<lparr>n_udp := n\<rparr>)))
          else bindE (c_incr (n_others st)) (\<lambda>n. Inr (st\<lparr>n_others := n\<rparr>))) (\<lambda>st.
         Inr (st\<lparr>stdout := stdout st @ counter_line st\<rparr>))))"

definition RECV_BUF_SIZE :: nat where "RECV_BUF_SIZE = 65536"

text \<open>
  \<^verbatim>\<open>main\<close>: an answer of \<^verbatim>\<open>recvfrom\<close> is the bytes of a packet, or \<^const>\<open>None\<close> for -1, after which
  \<^verbatim>\<open>main\<close> returns 1. The buffer keeps what earlier packets left behind the current one. The
  result says whether \<^verbatim>\<open>main\<close> has returned.
\<close>

fun sniff_loop :: "u8 list option list \<Rightarrow> u8 list \<Rightarrow> sniffer \<Rightarrow> (bool \<times> u8 list \<times> sniffer) res" where
  "sniff_loop [] buffer st = Inr (False, buffer, st)"
| "sniff_loop (None # as) buffer st =
     Inr (True, buffer, st\<lparr>stdout := stdout st @ ''Recvfrom error , failed to get packets'' @ nl\<rparr>)"
| "sniff_loop (Some bs # as) buffer st =
     bindE (buf_write buffer 0 bs) (\<lambda>buffer.
     bindE (ProcessPacket buffer (int (length bs)) st) (\<lambda>st.
       sniff_loop as buffer st))"

definition sniff_main ::
  "bool \<Rightarrow> int \<Rightarrow> int \<Rightarrow> u8 list option list \<Rightarrow> u8 list \<Rightarrow> (bool \<times> u8 list \<times> sniffer) res" where
  "sniff_main log_opened sock_raw r as garbage =
     (let st = sniffer_init log_opened;
          st = st\<lparr>stdout := (if log_opened then [] else ''Unable to create log.txt file.'') @
                             ''Starting...'' @ nl @ ''tap0 status: '' @ fmt_d r @ nl\<rparr> in
      if sock_raw < 0 then Inr (True, garbage, st) else sniff_loop as garbage st)"

text \<open>\<^verbatim>\<open>main\<close> of raw_eth_receive.c, which does not bind to an interface.\<close>

definition raw_eth_receive_main ::
  "bool \<Rightarrow> int \<Rightarrow> u8 list option list \<Rightarrow> u8 list \<Rightarrow> (bool \<times> u8 list \<times> sniffer) res" where
  "raw_eth_receive_main log_opened sock_raw as garbage =
     (let st = sniffer_init log_opened;
          st = st\<lparr>stdout := (if log_opened then [] else ''Unable to create log.txt file.'') @
                             ''Starting...'' @ nl\<rparr> in
      if sock_raw < 0 then Inr (True, garbage, st) else sniff_loop as garbage st)"

text \<open>
  \<^verbatim>\<open>main\<close> of rcv.c: the socket is a \<^verbatim>\<open>SOCK_DGRAM\<close> packet socket, from which the system delivers
  packets without their link-level header. The packets on the wire are the argument.
\<close>

definition rcv_main ::
  "bool \<Rightarrow> int \<Rightarrow> int \<Rightarrow> u8 list option list \<Rightarrow> u8 list \<Rightarrow> (bool \<times> u8 list \<times> sniffer) res" where
  "rcv_main log_opened sock_raw ret wire garbage =
     (let st = sniffer_init log_opened;
          st = st\<lparr>stdout := (if log_opened then [] else ''Unable to create log.txt file.'') @
                             ''Starting...'' @ nl @ ''sock returns: '' @ fmt_d ret @ nl\<rparr> in
      if sock_raw < 0 then Inr (True, garbage, st)
      else sniff_loop (map (map_option (drop ETH_HLEN)) wire) garbage st)"

text \<open>The callback of sniff_pcap.c: only the counters are printed, the counting is commented out.\<close>

definition process_packet :: "u8 list \<Rightarrow> sniffer \<Rightarrow> sniffer" where
  "process_packet buffer st = st\<lparr>stdout := stdout st @ counter_line st\<rparr>"

section \<open>The libpcap sniffer\<close>

definition SIZE_ETHERNET :: nat where "SIZE_ETHERNET = 14"

text \<open>\<open>got_packet count packet\<close>: the counter after the packet, and what is printed. \<open>packet\<close> are the
  captured bytes.\<close>

definition got_packet :: "int \<Rightarrow> u8 list \<Rightarrow> (int \<times> string) res" where
  "got_packet count packet =
     (let out0 = nl @ ''Packet number '' @ fmt_d count @ '':'' @ nl in
      bindE (rd8 packet SIZE_ETHERNET) (\<lambda>ip_vhl.
        let size_ip = ip_vhl mod 16 * 4 in
        if size_ip < 20 then
          Inr (count + 1, out0 @ ''   * Invalid IP header length: '' @ fmt_u size_ip @ '' bytes'' @ nl)
        else
          bindE (peek_bytes packet (SIZE_ETHERNET + 12) 4) (\<lambda>ip_src.
          bindE (peek_bytes packet (SIZE_ETHERNET + 16) 4) (\<lambda>ip_dst.
          bindE (rd8 packet (SIZE_ETHERNET + 9)) (\<lambda>ip_p.
            let out1 = out0 @ ''       From: '' @ inet_ntoa ip_src @ nl @
                              ''         To: '' @ inet_ntoa ip_dst @ nl in
            if ip_p = 17 then Inr (count + 1, out1 @ ''   Protocol: UDP'' @ nl)
            else if ip_p = 1 then Inr (count + 1, out1 @ ''   Protocol: ICMP'' @ nl)
            else if ip_p = 0 then Inr (count + 1, out1 @ ''   Protocol: IP'' @ nl)
            else if ip_p \<noteq> 6 then Inr (count + 1, out1 @ ''   Protocol: unknown'' @ nl)
            else
              let out2 = out1 @ ''   Protocol: TCP'' @ nl; t = SIZE_ETHERNET + size_ip in
              bindE (rd8 packet (t + 12)) (\<lambda>th_offx2.
                let size_tcp = th_offx2 div 16 * 4 in
                if size_tcp < 20 then
                  Inr (count + 1, out2 @ ''   * Invalid TCP header length: '' @ fmt_u size_tcp @ '' bytes'' @ nl)
                else
                  bindE (rd16be packet t) (\<lambda>sport.
                  bindE (rd16be packet (t + 2)) (\<lambda>dport.
                  bindE (rd16be packet (SIZE_ETHERNET + 2)) (\<lambda>ip_len.
                    let out3 = out2 @ ''   Src port: '' @ fmt_u sport @ nl @
                                      ''   Dst port: '' @ fmt_u dport @ nl;
                        size_payload = int ip_len - int (size_ip + size_tcp) in
                    if size_payload > 0 then
                      bindE (print_payload (drop (t + size_tcp) packet) size_payload) (\<lambda>dump.
                        Inr (count + 1, out3 @ ''   Payload ('' @ fmt_d size_payload @ '' bytes):'' @ nl @ dump))
                    else Inr (count + 1, out3))))))))))"

text \<open>The callback is called for every captured packet, at most \<^verbatim>\<open>num_packets\<close> times.\<close>

fun got_packets :: "int \<Rightarrow> u8 list list \<Rightarrow> (int \<times> string) res" where
  "got_packets count [] = Inr (count, [])"
| "got_packets count (p # ps) =
     bindE (got_packet count p) (\<lambda>(count, out).
     bindE (got_packets count ps) (\<lambda>(count, out').
       Inr (count, out @ out')))"

definition print_app_banner :: string where
  "print_app_banner =
     ''sniffex - Sniffer example using libpcap'' @ nl @
     ''Copyright (c) 2005 The Tcpdump Group'' @ nl @
     ''THERE IS ABSOLUTELY NO WARRANTY FOR THIS PROGRAM.'' @ nl @ nl"

definition print_app_usage :: string where
  "print_app_usage =
     ''Usage: sniffex [interface]'' @ nl @ nl @ ''Options:'' @ nl @
     ''    interface    Listen on <interface> for packets.'' @ nl @ nl"

text \<open>Answers of libpcap: the default device, whether the device can be opened, whether it is an
  Ethernet, whether the filter compiles, and the packets captured.\<close>

record pcap_env =
  pe_lookupdev :: "string option"
  pe_open_ok :: bool
  pe_is_ethernet :: bool
  pe_compile_ok :: bool
  pe_packets :: "u8 list list"

definition sniffex_main :: "string list \<Rightarrow> pcap_env \<Rightarrow> string res" where
  "sniffex_main argv env =
     bindE (if length argv = 2 then Inr (argv ! 1)
            else if length argv > 2 then Inl (Exit 1)
            else (case pe_lookupdev env of None \<Rightarrow> Inl (Exit 1) | Some d \<Rightarrow> Inr d)) (\<lambda>dev.
       if \<not> pe_open_ok env then Inl (Exit 1)
       else if \<not> pe_is_ethernet env then Inl (Exit 1)
       else if \<not> pe_compile_ok env then Inl (Exit 1)
       else
         bindE (got_packets 1 (take 10 (pe_packets env))) (\<lambda>(count, out).
           Inr (print_app_banner @ ''Device: '' @ dev @ nl @ ''Number of packets: 10'' @ nl @
                ''Filter expression: ip'' @ nl @ out @ nl @ ''Capture complete.'' @ nl)))"

section \<open>The dissections return\<close>

lemma dump_ok: "nat n \<le> length bs \<Longrightarrow> PrintData bs n = Inr (data_rows (take (nat n) bs))"
  by (rule PrintData_data_rows)

lemmas rd_defs = rd8_def rd16be_def rd16le_def rd32be_def peek_bytes_def

lemma print_ip_header_ok: "34 \<le> length buf \<Longrightarrow> \<exists>s. print_ip_header buf = Inr s"
  by (simp add: print_ip_header_def print_ethernet_header_def rd_defs ETH_HLEN_def)

lemma tcp_fields_ok: "t + 20 \<le> length buf \<Longrightarrow> \<exists>s. tcp_fields buf t = Inr s"
  by (simp add: tcp_fields_def rd_defs)

lemma iphdrlen_ok: "14 < length buf \<Longrightarrow> \<exists>n. iphdrlen buf = Inr n \<and> n \<le> 60"
  by (auto simp: iphdrlen_def rd_defs ETH_HLEN_def)

lemma rd8_less: "i < length buf \<Longrightarrow> \<exists>n. rd8 buf i = Inr n \<and> n < 256"
  using unsigned_less[of "buf ! i"] by (auto simp: rd8_def)

text \<open>With the full receive buffer no dissection reads outside of it, whatever the lengths in the
  headers say, and each prints one text.\<close>

lemma payload_dump_ok:
  "sz \<le> length buf \<Longrightarrow> \<exists>s. PrintData (drop hs buf) (int sz - int hs) = Inr s"
  by (auto intro!: exI[of _ "data_rows (take (nat (int sz - int hs)) (drop hs buf))"] dump_ok)

lemma print_tcp_packet_ok:
  assumes "200 \<le> length buf" "sz \<le> length buf"
  shows "\<exists>s. print_tcp_packet buf (int sz) = Inr s"
proof -
  obtain n where n: "iphdrlen buf = Inr n" "n \<le> 60" using iphdrlen_ok[of buf] assms by auto
  obtain off where off: "rd8 buf (n + ETH_HLEN + 12) = Inr off" "off < 256"
    using rd8_less[of "n + ETH_HLEN + 12" buf] n(2) assms(1) by (auto simp: ETH_HLEN_def)
  obtain iph where iph: "print_ip_header buf = Inr iph" using print_ip_header_ok[of buf] assms by auto
  obtain tcph where tcph: "tcp_fields buf (n + ETH_HLEN) = Inr tcph"
    using tcp_fields_ok[of "n + ETH_HLEN" buf] n(2) assms by (auto simp: ETH_HLEN_def)
  obtain d3 where d3: "PrintData (drop (ETH_HLEN + n + off div 16 * 4) buf)
      (int sz - int (ETH_HLEN + n + off div 16 * 4)) = Inr d3"
    using payload_dump_ok[OF assms(2)] by blast
  have d1: "PrintData buf (int n) = Inr (data_rows (take n buf))" using dump_ok[of "int n" buf] n(2) assms by simp
  have d2: "PrintData (drop n buf) (int (off div 16 * 4)) = Inr (data_rows (take (off div 16 * 4) (drop n buf)))"
    using dump_ok[of "int (off div 16 * 4)" "drop n buf"] n(2) off(2) assms by (simp del: of_nat_mult)
  show ?thesis
    unfolding print_tcp_packet_def Let_def n(1) bindE_Inr off(1) iph tcph d1 d2 d3 by blast
qed

lemma print_udp_packet_ok:
  assumes "200 \<le> length buf" "sz \<le> length buf"
  shows "\<exists>s. print_udp_packet buf (int sz) = Inr s"
proof -
  obtain n where n: "iphdrlen buf = Inr n" "n \<le> 60" using iphdrlen_ok[of buf] assms by auto
  obtain iph where iph: "print_ip_header buf = Inr iph" using print_ip_header_ok[of buf] assms by auto
  have rd: "\<exists>v. rd16be buf (n + ETH_HLEN + k) = Inr v" if "k \<le> 6" for k
    using n(2) assms(1) that by (simp add: rd_defs ETH_HLEN_def)
  obtain v0 v2 v4 v6 where v: "rd16be buf (n + ETH_HLEN) = Inr v0" "rd16be buf (n + ETH_HLEN + 2) = Inr v2"
    "rd16be buf (n + ETH_HLEN + 4) = Inr v4" "rd16be buf (n + ETH_HLEN + 6) = Inr v6"
    using rd[of 0] rd[of 2] rd[of 4] rd[of 6] by auto
  obtain d3 where d3: "PrintData (drop (ETH_HLEN + n + POINTER_SIZE) buf)
      (int sz - int (ETH_HLEN + n + POINTER_SIZE)) = Inr d3"
    using payload_dump_ok[OF assms(2)] by blast
  have d1: "PrintData buf (int n) = Inr (data_rows (take n buf))" using dump_ok[of "int n" buf] n(2) assms by simp
  have d2: "PrintData (drop n buf) (int POINTER_SIZE) = Inr (data_rows (take POINTER_SIZE (drop n buf)))"
    using dump_ok[of "int POINTER_SIZE" "drop n buf"] n(2) assms by (simp add: POINTER_SIZE_def)
  show ?thesis
    unfolding print_udp_packet_def Let_def n(1) bindE_Inr iph v d1 d2 d3 by blast
qed

lemma print_icmp_packet_ok:
  assumes "200 \<le> length buf" "sz \<le> length buf"
  shows "\<exists>s. print_icmp_packet buf (int sz) = Inr s"
proof -
  obtain n where n: "iphdrlen buf = Inr n" "n \<le> 60" using iphdrlen_ok[of buf] assms by auto
  obtain iph where iph: "print_ip_header buf = Inr iph" using print_ip_header_ok[of buf] assms by auto
  obtain v0 v1 v2 where v: "rd8 buf (n + ETH_HLEN) = Inr v0" "rd8 buf (n + ETH_HLEN + 1) = Inr v1"
    "rd16be buf (n + ETH_HLEN + 2) = Inr v2"
    using n(2) assms(1) by (simp add: rd_defs ETH_HLEN_def)
  obtain d3 where d3: "PrintData (drop (ETH_HLEN + n + POINTER_SIZE) buf)
      (int sz - int (ETH_HLEN + n + POINTER_SIZE)) = Inr d3"
    using payload_dump_ok[OF assms(2)] by blast
  have d1: "PrintData buf (int n) = Inr (data_rows (take n buf))" using dump_ok[of "int n" buf] n(2) assms by simp
  have d2: "PrintData (drop n buf) (int POINTER_SIZE) = Inr (data_rows (take POINTER_SIZE (drop n buf)))"
    using dump_ok[of "int POINTER_SIZE" "drop n buf"] n(2) assms by (simp add: POINTER_SIZE_def)
  show ?thesis
    unfolding print_icmp_packet_def Let_def n(1) bindE_Inr iph v d1 d2 d3 by blast
qed

section \<open>Counting\<close>

text \<open>The protocol byte of a packet as received, and how many of a list have a given protocol.\<close>

definition proto_of :: "u8 list \<Rightarrow> nat" where
  "proto_of bs = unat (bs ! 23)"

definition count_proto :: "(nat \<Rightarrow> bool) \<Rightarrow> u8 list list \<Rightarrow> int" where
  "count_proto P ps = int (length (filter (\<lambda>bs. P (proto_of bs)) ps))"

definition counted :: "sniffer \<Rightarrow> u8 list list \<Rightarrow> sniffer \<Rightarrow> bool" where
  "counted st0 ps st \<longleftrightarrow>
     n_icmp st = n_icmp st0 + count_proto (\<lambda>p. p = 1) ps \<and>
     n_igmp st = n_igmp st0 + count_proto (\<lambda>p. p = 2) ps \<and>
     n_tcp st = n_tcp st0 + count_proto (\<lambda>p. p = 6) ps \<and>
     n_udp st = n_udp st0 + count_proto (\<lambda>p. p = 17) ps \<and>
     n_others st = n_others st0 + count_proto (\<lambda>p. p \<notin> {1, 2, 6, 17}) ps \<and>
     n_total st = n_total st0 + int (length ps)"

text \<open>No counter is ahead of the total, so it is the total that overflows first.\<close>

definition within_total :: "sniffer \<Rightarrow> bool" where
  "within_total st \<longleftrightarrow> n_tcp st \<le> n_total st \<and> n_udp st \<le> n_total st \<and> n_icmp st \<le> n_total st \<and>
     n_igmp st \<le> n_total st \<and> n_others st \<le> n_total st"

text \<open>One packet: the byte at offset 23 of the buffer decides which counter is incremented.\<close>

lemma ProcessPacket_counted:
  assumes "200 \<le> length buffer" "sz \<le> length buffer" "logfile st \<noteq> None" "buffer ! 23 = bs ! 23"
    and "within_total st" "n_total st < 2 ^ 31 - 1"
  shows "\<exists>st'. ProcessPacket buffer (int sz) st = Inr st' \<and> counted st [bs] st' \<and> logfile st' \<noteq> None \<and> within_total st'"
proof -
  have p: "rd8 buffer (ETH_HLEN + 9) = Inr (proto_of bs)"
    using assms(1,4) by (simp add: rd8_def ETH_HLEN_def proto_of_def)
  obtain t u i where prt: "print_tcp_packet buffer (int sz) = Inr t" "print_udp_packet buffer (int sz) = Inr u"
    "print_icmp_packet buffer (int sz) = Inr i"
    using print_tcp_packet_ok print_udp_packet_ok print_icmp_packet_ok assms(1,2) by meson
  have inc: "c_incr (n_total st) = Inr (n_total st + 1)" "c_incr (n_tcp st) = Inr (n_tcp st + 1)"
    "c_incr (n_udp st) = Inr (n_udp st + 1)" "c_incr (n_icmp st) = Inr (n_icmp st + 1)"
    "c_incr (n_igmp st) = Inr (n_igmp st + 1)" "c_incr (n_others st) = Inr (n_others st + 1)"
    using assms(5,6) by (simp_all add: c_incr_def within_total_def)
  obtain f where "logfile st = Some f" using assms(3) by auto
  then show ?thesis using assms(5) unfolding ProcessPacket_def inc bindE_Inr p prt Let_def
    by (simp add: inc log_text_def counted_def count_proto_def within_total_def)
qed

lemma counted_trans: "counted st0 ps st1 \<Longrightarrow> counted st1 qs st2 \<Longrightarrow> counted st0 (ps @ qs) st2"
  by (simp add: counted_def count_proto_def)

lemma sniff_loop_counted:
  assumes "\<forall>p \<in> set ps. 23 < length p \<and> length p \<le> RECV_BUF_SIZE" "length buffer = RECV_BUF_SIZE" "logfile st \<noteq> None"
    and "within_total st" "n_total st + int (length ps) < 2 ^ 31"
  shows "\<exists>buffer' st'. sniff_loop (map Some ps @ as) buffer st = sniff_loop as buffer' st' \<and> counted st ps st' \<and>
    length buffer' = RECV_BUF_SIZE"
  using assms
proof (induction ps arbitrary: buffer st)
  case (Cons p ps)
  then obtain buf1 where w: "buf_write buffer 0 p = Inr buf1" by (auto simp: buf_write_def)
  have len: "length buf1 = RECV_BUF_SIZE" using w Cons.prems(2) by (auto simp: buf_write_def split: if_splits)
  have "take (length p) buf1 ! 23 = buf1 ! 23" using Cons.prems(1) by simp
  then have "buf1 ! 23 = p ! 23" using buf_write_prefix[OF w] by simp
  from ProcessPacket_counted[OF _ _ Cons.prems(3) this Cons.prems(4), of "length p"] len Cons.prems(1,5)
  obtain st1 where st1: "ProcessPacket buf1 (int (length p)) st = Inr st1" "counted st [p] st1" "logfile st1 \<noteq> None"
    "within_total st1" by (auto simp: RECV_BUF_SIZE_def)
  have "n_total st1 + int (length ps) < 2 ^ 31" using st1(2) Cons.prems(5) by (simp add: counted_def)
  from Cons.IH[OF _ len st1(3,4) this] Cons.prems(1) obtain buf' st' where
    "sniff_loop (map Some ps @ as) buf1 st1 = sniff_loop as buf' st'" "counted st1 ps st'" "length buf' = RECV_BUF_SIZE" by auto
  with w st1(1) counted_trans[OF st1(2)] show ?case by auto
qed (auto simp: counted_def count_proto_def)

lemma count_proto_split:
  "count_proto (\<lambda>p. p = 1) ps + count_proto (\<lambda>p. p = 2) ps + count_proto (\<lambda>p. p = 6) ps +
   count_proto (\<lambda>p. p = 17) ps + count_proto (\<lambda>p. p \<notin> {1, 2, 6, 17}) ps = int (length ps)"
  by (induction ps) (auto simp: count_proto_def)

text \<open>The counters of a run that started with all of them 0.\<close>

definition counts :: "u8 list list \<Rightarrow> sniffer \<Rightarrow> bool" where
  "counts ps st \<longleftrightarrow>
     n_tcp st = count_proto (\<lambda>p. p = 6) ps \<and> n_udp st = count_proto (\<lambda>p. p = 17) ps \<and>
     n_icmp st = count_proto (\<lambda>p. p = 1) ps \<and> n_igmp st = count_proto (\<lambda>p. p = 2) ps \<and>
     n_total st = int (length ps) \<and>
     n_total st = n_tcp st + n_udp st + n_icmp st + n_igmp st + n_others st"

text \<open>A run of the loop over any number of packets: up to \<open>2\<^sup>3\<^sup>1 - 1\<close> of them are counted, the next one
  overflows the total.\<close>

definition sniff_result :: "u8 list list \<Rightarrow> (bool \<times> u8 list \<times> sniffer) res \<Rightarrow> bool" where
  "sniff_result ps r \<longleftrightarrow>
     (if length ps < 2 ^ 31 then (\<exists>buffer st. r = Inr (False, buffer, st) \<and> counts ps st)
      else r = Inl SignedOverflow)"

lemma sniff_loop_counts:
  assumes "\<forall>p \<in> set ps. 23 < length p \<and> length p \<le> RECV_BUF_SIZE" "length buffer = RECV_BUF_SIZE"
  shows "sniff_result ps (sniff_loop (map Some ps) buffer ((sniffer_init True)\<lparr>stdout := out\<rparr>))"
proof -
  let ?st = "(sniffer_init True)\<lparr>stdout := out\<rparr>"
  have st: "logfile ?st \<noteq> None" "within_total ?st" "n_total ?st = 0" by (simp_all add: sniffer_init_def within_total_def)
  show ?thesis
  proof (cases "length ps < 2 ^ 31")
    case True
    then have "n_total ?st + int (length ps) < 2 ^ 31" using st(3) by simp
    from sniff_loop_counted[OF assms st(1,2) this, of "[]"] obtain buffer' st' where
      "sniff_loop (map Some ps) buffer ?st = Inr (False, buffer', st')" "counted ?st ps st'" by auto
    with True count_proto_split[of ps] show ?thesis by (simp add: sniff_result_def counted_def counts_def sniffer_init_def)
  next
    case False
    define xs where "xs = take (2 ^ 31 - 1) ps"
    obtain p ys where ps: "ps = xs @ p # ys" "length xs = 2 ^ 31 - 1"
      using False id_take_nth_drop[of "2 ^ 31 - 1" ps] unfolding xs_def by auto
    have ok: "\<forall>p \<in> set xs. 23 < length p \<and> length p \<le> RECV_BUF_SIZE" "length p \<le> RECV_BUF_SIZE" using assms(1) ps by auto
    have "n_total ?st + int (length xs) < 2 ^ 31" using st(3) ps(2) by simp
    from sniff_loop_counted[OF ok(1) assms(2) st(1,2) this, of "map Some (p # ys)"] obtain buf st' where
      l: "sniff_loop (map Some ps) buffer ?st = sniff_loop (map Some (p # ys)) buf st'" "counted ?st xs st'"
        "length buf = RECV_BUF_SIZE" by (auto simp: ps(1))
    have "c_incr (n_total st') = Inl SignedOverflow" using l(2) st(3) ps(2) by (simp add: c_incr_def counted_def)
    moreover obtain buf' where "buf_write buf 0 p = Inr buf'" using ok(2) l(3) by (auto simp: buf_write_def)
    ultimately have "sniff_loop (map Some ps) buffer ?st = Inl SignedOverflow" unfolding l(1) by (simp add: ProcessPacket_def)
    with False show ?thesis by (simp add: sniff_result_def)
  qed
qed

text \<open>C24: The sniffers handle every packet and count it right: with the log file and the socket open and a
  64 KiB buffer, after any sequence of fewer than \<open>2\<^sup>3\<^sup>1\<close> packets (each longer than 23 bytes, so that it holds the
  protocol byte, none longer than the buffer) no read has left the buffer, whatever header lengths the packets
  claim; the counter of every protocol is the number of packets with that protocol byte, and the total is the
  number of packets and the sum of the other counters. The packet with number \<open>2\<^sup>3\<^sup>1\<close> overflows the total.
  This holds of \<^verbatim>\<open>sniff.c\<close> and of \<^verbatim>\<open>raw_eth_receive.c\<close>. The third program, \<^verbatim>\<open>rcv.c\<close>, gets its packets without the
  link-level header but reads the same offset: for packets longer than 37 bytes it counts by the byte 14 bytes
  behind the protocol.\<close>

theorem sniff_counts_packets:
  assumes "\<forall>p \<in> set ps. 23 < length p \<and> length p \<le> RECV_BUF_SIZE" "length buffer = RECV_BUF_SIZE" "0 \<le> sock"
  shows "sniff_result ps (sniff_main True sock r (map Some ps) buffer) \<and>
    sniff_result ps (raw_eth_receive_main True sock (map Some ps) buffer) \<and>
    ((\<forall>p \<in> set ps. 37 < length p) \<longrightarrow>
       sniff_result (map (drop ETH_HLEN) ps) (rcv_main True sock r (map Some ps) buffer))"
proof (intro conjI impI)
  note run = sniff_loop_counts[OF _ assms(2)]
  show "sniff_result ps (sniff_main True sock r (map Some ps) buffer)"
    "sniff_result ps (raw_eth_receive_main True sock (map Some ps) buffer)"
    using run[OF assms(1)] assms(3) by (simp_all add: sniff_main_def raw_eth_receive_main_def Let_def)
  assume "\<forall>p \<in> set ps. 37 < length p"
  with assms(1) have "\<forall>p \<in> set (map (drop ETH_HLEN) ps). 23 < length p \<and> length p \<le> RECV_BUF_SIZE"
    by (auto simp: ETH_HLEN_def)
  moreover have "map (map_option (drop ETH_HLEN)) (map Some ps) = map Some (map (drop ETH_HLEN) ps)" by simp
  ultimately show "sniff_result (map (drop ETH_HLEN) ps) (rcv_main True sock r (map Some ps) buffer)"
    using run[of "map (drop ETH_HLEN) ps"] assms(3) by (simp add: rcv_main_def Let_def del: map_map)
qed

section \<open>What is dumped\<close>

text \<open>The dump of a TCP packet, for a packet of \<open>sz\<close> bytes in the receive buffer with complete
  headers. The part printed as payload is exactly the payload: the bytes after the Ethernet, IP and
  TCP headers up to the end of the packet. The parts printed as IP header and TCP header are 14
  bytes off: they start at the beginning of the frame, so the first one shows the Ethernet header
  and only then the IP header.\<close>

theorem tcp_dump_parts:
  assumes "iphdrlen buf = Inr iphl" "rd8 buf (iphl + 26) = Inr off" "hs = 14 + iphl + off div 16 * 4"
    and "20 \<le> iphl" "20 \<le> off div 16 * 4" "hs \<le> sz" "sz \<le> length buf"
  shows "\<exists>heading. print_tcp_packet buf (int sz) = Inr (heading @ ''IP Header'' @ nl @
    data_rows (take iphl buf) @ ''TCP Header'' @ nl @ data_rows (take (off div 16 * 4) (drop iphl buf)) @
    ''Data Payload'' @ nl @ data_rows (drop hs (take sz buf)) @ log_rule)"
proof -
  have "iphl \<le> length buf" "off div 16 * 4 \<le> length (drop iphl buf)" using assms(3,6,7) by auto
  then have d: "PrintData buf (int iphl) = Inr (data_rows (take iphl buf))"
    "PrintData (drop iphl buf) (int (off div 16 * 4)) =
       Inr (data_rows (take (off div 16 * 4) (drop iphl buf)))"
    by (simp_all add: dump_ok del: of_nat_mult)
  have "nat (int sz - int hs) = sz - hs" by simp
  moreover have "sz - hs \<le> length (drop hs buf)" using assms(6,7) by simp
  ultimately have d3: "PrintData (drop hs buf) (int sz - int hs) = Inr (data_rows (drop hs (take sz buf)))"
    by (simp add: dump_ok drop_take)
  have off: "iphl + ETH_HLEN + 12 = iphl + 26" by (simp add: ETH_HLEN_def)
  have hs: "ETH_HLEN + iphl + off div 16 * 4 = hs" by (simp add: ETH_HLEN_def assms(3))
  obtain s1 where s1: "print_ip_header buf = Inr s1"
    using print_ip_header_ok[of buf] assms(3-7) by auto
  obtain s2 where s2: "tcp_fields buf (iphl + ETH_HLEN) = Inr s2"
    using tcp_fields_ok[of "iphl + ETH_HLEN" buf] assms(3-7) by (auto simp: ETH_HLEN_def)
  show ?thesis
    unfolding print_tcp_packet_def Let_def assms(1) bindE_Inr off assms(2) hs d d3 s1 s2
    by (simp only: append_assoc[symmetric]) blast
qed

section \<open>The libpcap sniffer\<close>

lemma got_packet_tcp:
  assumes "rd8 packet 14 = Inr vhl" "si = vhl mod 16 * 4" "20 \<le> si" "rd8 packet 23 = Inr 6"
    and "rd8 packet (14 + si + 12) = Inr offx2" "st = offx2 div 16 * 4" "20 \<le> st"
    and "rd16be packet 16 = Inr tot" "14 + si + st \<le> length packet" "si + st < tot"
  obtains heading where "got_packet count packet =
    bindE (print_payload (drop (14 + si + st) packet) (int tot - int (si + st)))
      (\<lambda>dump. Inr (count + 1, heading @ dump))"
proof -
  obtain a where a: "peek_bytes packet (14 + 12) 4 = Inr a"
    using assms(3,9) by (auto simp: peek_bytes_def)
  obtain b where b: "peek_bytes packet (14 + 16) 4 = Inr b"
    using assms(3,9) by (auto simp: peek_bytes_def)
  obtain c where c: "rd16be packet (14 + si) = Inr c"
    using assms(7,9) by (auto simp: rd16be_def peek_bytes_def)
  obtain d where d: "rd16be packet (14 + si + 2) = Inr d"
    using assms(7,9) by (auto simp: rd16be_def peek_bytes_def)
  have p: "rd8 packet (14 + 9) = Inr 6" "rd16be packet (14 + 2) = Inr tot" using assms(4,8) by simp_all
  have lt: "(si < 20) = False" "(st < 20) = False" "(0 < int tot - int (si + st)) = True"
    "((6::nat) = 17) = False" "((6::nat) = 1) = False" "((6::nat) = 0) = False" "((6::nat) = 6) = True"
    using assms(3,7,10) by simp_all
  have "\<exists>heading. got_packet count packet =
    bindE (print_payload (drop (14 + si + st) packet) (int tot - int (si + st)))
      (\<lambda>dump. Inr (count + 1, heading @ dump))"
    unfolding got_packet_def Let_def SIZE_ETHERNET_def
    by (simp only: assms(1) bindE_Inr assms(2)[symmetric] lt if_False if_True a b p not_True_eq_False
        assms(5) assms(6)[symmetric] c d append_assoc[symmetric]) blast
  with that show thesis by blast
qed

text \<open>\<^verbatim>\<open>got_packet\<close> on a well-formed TCP packet prints the segment: if the IP and TCP header
  lengths are at least 20, the IP total length is that of the captured packet and the packet was
  captured in full, the dump consists of the rows of exactly the bytes behind the TCP header.\<close>

theorem got_packet_prints_segment:
  assumes "rd8 packet 14 = Inr vhl" "si = vhl mod 16 * 4" "20 \<le> si" "rd8 packet 23 = Inr 6"
    and "rd8 packet (14 + si + 12) = Inr offx2" "st = offx2 div 16 * 4" "20 \<le> st"
    and "rd16be packet 16 = Inr tot" "si + st < tot" "14 + tot = length packet"
  shows "\<exists>heading. got_packet count packet =
    Inr (count + 1, heading @ payload_rows 0 (drop (14 + si + st) packet))"
proof -
  have len: "14 + si + st \<le> length packet" using assms(9,10) by simp
  obtain heading where h: "got_packet count packet =
      bindE (print_payload (drop (14 + si + st) packet) (int tot - int (si + st)))
        (\<lambda>dump. Inr (count + 1, heading @ dump))"
    by (rule got_packet_tcp[OF assms(1-8) len assms(9)])
  have "nat (int tot - int (si + st)) = length (drop (14 + si + st) packet)"
    using assms(9,10) by simp
  then have "print_payload (drop (14 + si + st) packet) (int tot - int (si + st)) =
      Inr (payload_rows 0 (drop (14 + si + st) packet))"
    by (simp add: print_payload_ok)
  with h show ?thesis by simp
qed

text \<open>The size of the payload is taken from the IP header and not compared with the captured
  length: a TCP packet whose IP total length exceeds the captured bytes makes \<^verbatim>\<open>got_packet\<close> read
  past the end of the captured data.\<close>

theorem got_packet_overreads:
  assumes "rd8 packet 14 = Inr vhl" "si = vhl mod 16 * 4" "20 \<le> si" "rd8 packet 23 = Inr 6"
    and "rd8 packet (14 + si + 12) = Inr offx2" "st = offx2 div 16 * 4" "20 \<le> st"
    and "rd16be packet 16 = Inr tot" "14 + si + st \<le> length packet" "length packet < 14 + tot"
  shows "got_packet count packet = Inl OutOfBounds"
proof -
  have lt: "si + st < tot" using assms(9,10) by simp
  obtain heading where h: "got_packet count packet =
      bindE (print_payload (drop (14 + si + st) packet) (int tot - int (si + st)))
        (\<lambda>dump. Inr (count + 1, heading @ dump))"
    by (rule got_packet_tcp[OF assms(1-9) lt])
  have "length (drop (14 + si + st) packet) < nat (int tot - int (si + st))"
    using assms(9,10) by simp
  then show ?thesis using h by (simp add: print_payload_ok)
qed

section \<open>Concrete packets\<close>

text \<open>An Ethernet frame with a TCP packet of 20 + 20 + 2 bytes.\<close>

definition tcp_demo :: "u8 list" where
  "tcp_demo = replicate 12 0 @ [8, 0] @ [69, 0, 0, 42] @ replicate 5 0 @ [6] @ replicate 10 0 @
     [0, 80, 31, 144] @ replicate 8 0 @ [80, 0] @ replicate 6 0 @ [72, 105]"

lemma tcp_demo_fields:
  "rd8 tcp_demo 14 = Inr 69" "rd8 tcp_demo 23 = Inr 6" "rd8 tcp_demo (14 + 20 + 12) = Inr 80"
  "rd16be tcp_demo 16 = Inr 42" "14 + 42 = length tcp_demo" "drop (14 + 20 + 20) tcp_demo = [72, 105]"
  by code_simp+

theorem got_packet_prints_segment_witness:
  "\<exists>heading. got_packet 1 tcp_demo = Inr (1 + 1, heading @ payload_rows 0 [72, 105])"
proof -
  have "20 = 69 mod 16 * (4::nat)" "20 \<le> (20::nat)" "20 = 80 div 16 * (4::nat)" "20 + 20 < (42::nat)"
    by simp_all
  from got_packet_prints_segment[OF tcp_demo_fields(1) this(1,2) tcp_demo_fields(2,3) this(3,2)
      tcp_demo_fields(4) this(4) tcp_demo_fields(5), of 1]
  show ?thesis unfolding tcp_demo_fields(6) .
qed

theorem got_packet_overreads_witness:
  "got_packet 1 (butlast tcp_demo) = Inl OutOfBounds"
proof -
  have f: "rd8 (butlast tcp_demo) 14 = Inr 69" "rd8 (butlast tcp_demo) 23 = Inr 6"
    "rd8 (butlast tcp_demo) (14 + 20 + 12) = Inr 80" "rd16be (butlast tcp_demo) 16 = Inr 42"
    "14 + 20 + 20 \<le> length (butlast tcp_demo)" "length (butlast tcp_demo) < 14 + 42"
    by code_simp+
  have "20 = 69 mod 16 * (4::nat)" "20 \<le> (20::nat)" "20 = 80 div 16 * (4::nat)" by simp_all
  from got_packet_overreads[OF f(1) this(1,2) f(2,3) this(3,2) f(4-6)] show ?thesis .
qed

theorem tcp_dump_parts_witness:
  "\<exists>heading. print_tcp_packet tcp_demo (int 56) = Inr (heading @ ''IP Header'' @ nl @
     data_rows (take 20 tcp_demo) @ ''TCP Header'' @ nl @ data_rows (take (80 div 16 * 4) (drop 20 tcp_demo)) @
     ''Data Payload'' @ nl @ data_rows (drop 54 (take 56 tcp_demo)) @ log_rule)"
proof -
  have f: "iphdrlen tcp_demo = Inr 20" "rd8 tcp_demo (20 + 26) = Inr 80" "54 = 14 + 20 + 80 div 16 * (4::nat)"
    "20 \<le> (20::nat)" "20 \<le> 80 div 16 * (4::nat)" "54 \<le> (56::nat)" "56 \<le> length tcp_demo"
    by code_simp+
  show ?thesis by (rule tcp_dump_parts[OF f])
qed

definition igmp_demo :: "u8 list" where
  "igmp_demo = replicate 23 0 @ [2]"

theorem sniff_counts_packets_witness:
  "\<exists>buffer' st. sniff_main True 3 0 (map Some [igmp_demo, tcp_demo, tcp_demo]) (replicate RECV_BUF_SIZE 0) =
     Inr (False, buffer', st) \<and> n_igmp st = 1 \<and> n_tcp st = 2 \<and> n_total st = 3"
proof -
  have l: "length igmp_demo = 24" "length tcp_demo = 56" by (simp_all add: igmp_demo_def tcp_demo_def)
  have p: "proto_of igmp_demo = 2" "proto_of tcp_demo = 6" by code_simp+
  from sniff_counts_packets[of "[igmp_demo, tcp_demo, tcp_demo]" "replicate RECV_BUF_SIZE 0" 3 0] l
  obtain buffer' st where r: "sniff_main True 3 0 (map Some [igmp_demo, tcp_demo, tcp_demo]) (replicate RECV_BUF_SIZE 0) =
      Inr (False, buffer', st)" "counts [igmp_demo, tcp_demo, tcp_demo] st"
    by (auto simp: RECV_BUF_SIZE_def sniff_result_def)
  then show ?thesis by (intro exI[of _ buffer'] exI[of _ st]) (simp add: counts_def count_proto_def p)
qed

end
