(* ===== verification/RawSend.thy ===== *)
theory RawSend
  imports Fmt
begin

text \<open>
  The raw-socket tools: the frame senders src/code_dump/raw_sockets/raw_eth_send.c,
  src/code_dump/guest_to_host/write_tap.c and src/code_dump/raw_sockets/sniffer/send.c (one program
  with three default interfaces), src/code_dump/raw_sockets/sniffer/send1.c, the receivers
  src/code_dump/guest_to_host/read_tap.c and src/code_dump/vm_tap/recvRawEth.c, and the index
  lookups src/code_dump/raw_sockets/sniffer/getid.c and name_to_index.c.

  A program is a function of its arguments and of the answers of the system calls; the frame handed
  to \<^verbatim>\<open>sendto\<close> or \<^verbatim>\<open>write\<close>, the interface it names, and the text it prints are its result. Copying
  a string with \<^verbatim>\<open>strcpy\<close> into an array that is too short is an error.
\<close>

section \<open>Sending\<close>

definition IFNAMSIZ :: nat where "IFNAMSIZ = 16"
definition BUF_SIZ :: nat where "BUF_SIZ = 1024"

text \<open>\<^verbatim>\<open>strcpy\<close> into an array of \<open>n\<close> characters: the terminating zero must fit, too.\<close>

definition strcpy :: "nat \<Rightarrow> string \<Rightarrow> string res" where
  "strcpy n s = (if length s < n then Inr s else Inl OutOfBounds)"

text \<open>The interface name: the first argument, or the default.\<close>

definition if_name :: "string \<Rightarrow> string list \<Rightarrow> string res" where
  "if_name default_if argv = strcpy IFNAMSIZ (if length argv > 1 then argv ! 1 else default_if)"

text \<open>\<open>sendbuf\<close> after the header and the data are written into the zeroed buffer: the bytes and \<^verbatim>\<open>tx_len\<close>.\<close>

definition build_frame :: "u8 list \<Rightarrow> (u8 list \<times> nat) res" where
  "build_frame mac =
     (let sendbuf = replicate BUF_SIZ (0::u8) in
      bindE (buf_write sendbuf 6 (take 6 mac)) (\<lambda>sendbuf.
      bindE (buf_write sendbuf 0 (replicate 6 0)) (\<lambda>sendbuf.
      bindE (buf_write sendbuf 12 (be_bytes 2 (2048 :: u16))) (\<lambda>sendbuf.
      let tx_len = 14 in
      bindE (buf_write sendbuf tx_len [222]) (\<lambda>sendbuf.
      bindE (buf_write sendbuf (tx_len + 1) [173]) (\<lambda>sendbuf.
      bindE (buf_write sendbuf (tx_len + 2) [190]) (\<lambda>sendbuf.
      bindE (buf_write sendbuf (tx_len + 3) [239]) (\<lambda>sendbuf.
        Inr (sendbuf, tx_len + 4)))))))))"

text \<open>Answers: the index and the hardware address of an interface (for an unknown one the zeroed
  request), and the result of \<^verbatim>\<open>sendto\<close>.\<close>

record if_answers =
  ia_index :: "string \<Rightarrow> int"
  ia_hwaddr :: "string \<Rightarrow> u8 list"
  ia_sendto :: int

record sent_frame =
  sf_ifindex :: int
  sf_addr :: "u8 list"
  sf_bytes :: "u8 list"

definition send_main :: "string \<Rightarrow> string list \<Rightarrow> if_answers \<Rightarrow> (sent_frame \<times> string) res" where
  "send_main default_if argv a =
     bindE (if_name default_if argv) (\<lambda>ifName.
     bindE (build_frame (ia_hwaddr a ifName)) (\<lambda>(sendbuf, tx_len).
       Inr (\<lparr>sf_ifindex = ia_index a ifName, sf_addr = replicate 6 0, sf_bytes = take tx_len sendbuf\<rparr>,
            if ia_sendto a < 0 then ''Send failed'' @ [CHR 0x0A] else [])))"

definition raw_eth_send_main :: "string list \<Rightarrow> if_answers \<Rightarrow> (sent_frame \<times> string) res" where
  "raw_eth_send_main = send_main ''eth0''"

definition write_tap_main :: "string list \<Rightarrow> if_answers \<Rightarrow> (sent_frame \<times> string) res" where
  "write_tap_main = send_main ''tap0''"

definition sniffer_send_main :: "string list \<Rightarrow> if_answers \<Rightarrow> (sent_frame \<times> string) res" where
  "sniffer_send_main = send_main ''tp0''"

text \<open>\<^verbatim>\<open>send1.c\<close>: the answers are those of the two \<^verbatim>\<open>ioctl\<close> calls and of \<^verbatim>\<open>bind\<close>. The result is the
  packet written, or \<^const>\<open>None\<close> when \<^verbatim>\<open>main\<close> returned -1.\<close>

definition send1_main :: "int \<Rightarrow> int \<Rightarrow> int \<Rightarrow> u8 list \<Rightarrow> u8 list option" where
  "send1_main ioctl_index bind_ret ioctl_hwaddr mac =
     (if ioctl_index < 0 then None
      else if bind_ret < 0 then None
      else if ioctl_hwaddr < 0 then None
      else
        let txPkt = replicate 60 (0::u8);
            txPkt = [0, 222, 173, 190, 239, 0] @ drop 6 txPkt;
            txPkt = take 6 txPkt @ take 6 mac @ drop 12 txPkt in
        Some txPkt)"

section \<open>Receiving\<close>

text \<open>Answers of the set-up calls of the receivers; the packets are those of \<^verbatim>\<open>recvfrom\<close> (\<^const>\<open>None\<close> for
  an error, whose result -1 is printed as an unsigned number), at most \<^verbatim>\<open>BUF_SIZ\<close> bytes of each are stored. \<open>ra_addr\<close> is the address of the interface, if it has one.\<close>

record recv_answers =
  ra_socket :: int
  ra_reuse :: int
  ra_bind :: int
  ra_addr :: "u8 list option"
  ra_packets :: "u8 list option list"

definition listen_setup :: "string \<Rightarrow> string list \<Rightarrow> recv_answers \<Rightarrow> bool res" where
  "listen_setup default_if argv a =
     bindE (if_name default_if argv) (\<lambda>ifName.
       if ra_socket a = -1 then Inr False
       else if ra_reuse a = -1 then Inl (Exit 1)
       else if ra_bind a = -1 then Inl (Exit 1)
       else Inr True)"

definition got_line :: "u8 list option \<Rightarrow> string" where
  "got_line p = ''listener: Waiting to recvfrom...'' @ [CHR 0x0A] @
     ''listener: got packet '' @
     fmt_u (case p of None \<Rightarrow> 2 ^ 64 - 1 | Some bs \<Rightarrow> min BUF_SIZ (length bs)) @ '' bytes'' @ [CHR 0x0A]"

definition read_tap_main :: "string list \<Rightarrow> recv_answers \<Rightarrow> string res" where
  "read_tap_main argv a =
     bindE (listen_setup ''tap0'' argv a) (\<lambda>ok.
       Inr (if ok then concat (map got_line (ra_packets a)) else []))"

text \<open>One packet of \<^verbatim>\<open>recvRawEth.c\<close>: the buffer keeps what earlier packets left in it; the source
  address is read at its place in the IP header.\<close>

definition recv_packet :: "u8 list option \<Rightarrow> u8 list option \<Rightarrow> u8 list \<Rightarrow> (u8 list \<times> string) res" where
  "recv_packet my_addr p buf =
     bindE (buf_write buf 0 (case p of None \<Rightarrow> [] | Some bs \<Rightarrow> take BUF_SIZ bs)) (\<lambda>buf.
       let sender = inet_ntoa (take 4 (drop 26 buf)) in
       Inr (buf, got_line p @
         (case my_addr of
            None \<Rightarrow> []
          | Some ip \<Rightarrow> ''Source IP: '' @ sender @ [CHR 0x0A] @ '' My IP: '' @ inet_ntoa ip @ [CHR 0x0A] @
              (if sender = inet_ntoa ip then ''but I sent it :('' @ [CHR 0x0A] else []))))"

fun recv_loop :: "u8 list option \<Rightarrow> u8 list option list \<Rightarrow> u8 list \<Rightarrow> string res" where
  "recv_loop my_addr [] buf = Inr []"
| "recv_loop my_addr (p # ps) buf =
     bindE (recv_packet my_addr p buf) (\<lambda>(buf, out).
     bindE (recv_loop my_addr ps buf) (\<lambda>out'. Inr (out @ out')))"

definition recvRawEth_main :: "string list \<Rightarrow> recv_answers \<Rightarrow> u8 list \<Rightarrow> string res" where
  "recvRawEth_main argv a garbage =
     bindE (listen_setup ''vmbr'' argv a) (\<lambda>ok.
       if ok then recv_loop (ra_addr a) (ra_packets a) garbage else Inr [])"

section \<open>Interface index\<close>

definition getid_main :: "int \<Rightarrow> int option \<Rightarrow> string res" where
  "getid_main sock index =
     (if sock < 0 then Inl (Exit 1)
      else case index of
        None \<Rightarrow> Inl (Exit 1)
      | Some i \<Rightarrow> Inr (''id: '' @ fmt_d i @ [CHR 0x0A]))"

definition name_to_index_main :: "(string \<Rightarrow> int) \<Rightarrow> string" where
  "name_to_index_main if_nametoindex = ''virbr1: '' @ fmt_d (if_nametoindex ''tp0'') @ [CHR 0x0A]"

section \<open>Lemmas\<close>

lemma build_frame_ok:
  assumes "length mac = 6"
  shows "build_frame mac = Inr (replicate 6 0 @ mac @ [8, 0, 222, 173, 190, 239] @ replicate 1006 0, 18)"
proof -
  have be: "be_bytes 2 (2048 :: u16) = [8, 0]"
    by (simp add: be_bytes_def le_bytes_unfold)
  obtain a b c d e f where mac: "mac = [a, b, c, d, e, f]"
    using assms by (auto simp: length_Suc_conv numeral_eq_Suc)
  show ?thesis
    unfolding build_frame_def Let_def be BUF_SIZ_def mac
    by (simp add: buf_write_def numeral_eq_Suc)
qed

section \<open>Properties\<close>

text \<open>The senders send the frame they describe: to the interface named on the command line (or the
  default), an Ethernet frame of 18 bytes with destination address zero, the hardware address of
  the interface as source, type IPv4 and the four data bytes. An interface name of 16 or more
  characters overruns the array it is copied to.\<close>

theorem send_main_frame:
  assumes "ifn = (if length argv > 1 then argv ! 1 else default_if)" "length (ia_hwaddr a ifn) = 6"
    and "0 \<le> ia_sendto a"
  shows "send_main default_if argv a =
    (if length ifn < 16
     then Inr (\<lparr>sf_ifindex = ia_index a ifn, sf_addr = replicate 6 0,
                sf_bytes = replicate 6 0 @ ia_hwaddr a ifn @ [8, 0, 222, 173, 190, 239]\<rparr>, [])
     else Inl OutOfBounds)"
  using assms build_frame_ok[OF assms(2)]
  by (auto simp: send_main_def if_name_def strcpy_def IFNAMSIZ_def)

theorem send_main_frame_witness:
  "raw_eth_send_main [''raw_eth_send''] \<lparr>ia_index = \<lambda>_. 2, ia_hwaddr = \<lambda>_. [2, 0, 0, 0, 0, 1], ia_sendto = 18\<rparr> =
   Inr (\<lparr>sf_ifindex = 2, sf_addr = replicate 6 0,
         sf_bytes = [0, 0, 0, 0, 0, 0, 2, 0, 0, 0, 0, 1, 8, 0, 222, 173, 190, 239]\<rparr>, [])"
  using send_main_frame[of "''eth0''" "[''raw_eth_send'']" "''eth0''"
      "\<lparr>ia_index = \<lambda>_. 2, ia_hwaddr = \<lambda>_. [2, 0, 0, 0, 0, 1], ia_sendto = 18\<rparr>"]
  by (simp add: raw_eth_send_main_def numeral_eq_Suc)

end
