(* ===== verification/PcapTools.thy ===== *)
theory PcapTools
  imports Sniff RawSend
begin

text \<open>
  The capture programs around libpcap: src/code_dump/raw_sockets/sniffer/sniffer.c, which counts the
  packets that pass a filter, and \<^verbatim>\<open>main\<close> of src/code_dump/vm_tap/sniff_pcap.c, which lets the user
  choose a device. libpcap is a parameter: the answers of its calls and the packets it delivers to
  the callback are arguments.
\<close>

section \<open>The filter sniffer\<close>

record pcap_answers =
  pa_devices :: "string list option"
  pa_lookupnet :: bool
  pa_open_live :: bool
  pa_compile :: bool
  pa_setfilter :: bool
  pa_datalink :: "int option"
  pa_captured :: "u8 list list"
  pa_loop_ok :: bool
  pa_stats :: "(nat \<times> nat) option"

definition DEV_SIZE :: nat where "DEV_SIZE = 256"

text \<open>The device opened, or \<^const>\<open>None\<close> for a null handle. An empty list of devices is a null pointer.\<close>

definition create_pcap_handle :: "pcap_answers \<Rightarrow> string \<Rightarrow> string \<Rightarrow> string option res" where
  "create_pcap_handle a device filt =
     bindE (if device = [] then
              (case pa_devices a of
                 None \<Rightarrow> Inr None
               | Some [] \<Rightarrow> Inl (SegFault 0)
               | Some (d # ds) \<Rightarrow> bindE (strcpy DEV_SIZE d) (\<lambda>d. Inr (Some d)))
            else Inr (Some device)) (\<lambda>dev.
       case dev of
         None \<Rightarrow> Inr None
       | Some d \<Rightarrow>
           if \<not> pa_lookupnet a then Inr None
           else if \<not> pa_open_live a then Inr None
           else if \<not> pa_compile a then Inr None
           else if \<not> pa_setfilter a then Inr None
           else Inr (Some d))"

text \<open>The global \<^verbatim>\<open>linkhdrlen\<close> after the call; the link types are those of libpcap.\<close>

definition get_link_header_len :: "int option \<Rightarrow> nat \<Rightarrow> nat \<times> string" where
  "get_link_header_len linktype linkhdrlen =
     (case linktype of
        None \<Rightarrow> (linkhdrlen, ''pcap_datalink()'')
      | Some t \<Rightarrow>
          if t = 0 then (4, [])
          else if t = 1 then (14, [])
          else if t = 8 \<or> t = 9 then (24, [])
          else (0, ''Unsupported datalink ('' @ fmt_d t @ '')'' @ nl))"

definition packet_handler :: "u8 list \<Rightarrow> nat \<Rightarrow> nat \<times> string" where
  "packet_handler packet packets =
     (packets + 1, ''Received a packet: '' @ fmt_u (packets + 1) @ nl)"

text \<open>Prints the statistics and exits with code 0.\<close>

definition stop_capture :: "(nat \<times> nat) option \<Rightarrow> nat \<Rightarrow> string" where
  "stop_capture stats packets =
     (case stats of
        None \<Rightarrow> []
      | Some (recv, drp) \<Rightarrow>
          nl @ fmt_u packets @ '' packets captured'' @ nl @ fmt_u recv @ '' packets received by filter'' @ nl @
          fmt_u drp @ '' packets dropped'' @ nl @ nl)"

fun capture :: "u8 list list \<Rightarrow> nat \<Rightarrow> nat \<times> string" where
  "capture [] packets = (packets, [])"
| "capture (p # ps) packets =
     (case packet_handler p packets of (packets, out) \<Rightarrow>
      case capture ps packets of (packets, out') \<Rightarrow> (packets, out @ out'))"

text \<open>Options as \<^verbatim>\<open>getopt\<close> delivers them, applied in order: help, device, count.\<close>

datatype opt = OptHelp | OptDevice string | OptCount string | OptBad

fun apply_opts :: "opt list \<Rightarrow> string \<Rightarrow> int \<Rightarrow> (string \<times> int) res" where
  "apply_opts [] device count = Inr (device, count)"
| "apply_opts (OptHelp # os) device count = Inl (Exit 0)"
| "apply_opts (OptDevice d # os) device count = bindE (strcpy DEV_SIZE d) (\<lambda>d. apply_opts os d count)"
| "apply_opts (OptCount n # os) device count =
     apply_opts os device (atoi n)"
| "apply_opts (OptBad # os) device count = apply_opts os device count"

fun build_filter :: "string list \<Rightarrow> string \<Rightarrow> string res" where
  "build_filter [] filt = Inr filt"
| "build_filter (a # as) filt = bindE (strcpy DEV_SIZE (filt @ a @ '' '')) (build_filter as)"

text \<open>The packets that the loop delivers: all of them for a count of 0, else at most that many. The
  result is the value \<^verbatim>\<open>main\<close> returns or exits with, the number of packets, and the output.\<close>

definition sniffer_main :: "opt list \<Rightarrow> string list \<Rightarrow> pcap_answers \<Rightarrow> (int \<times> nat \<times> string) res" where
  "sniffer_main opts args a =
     bindE (apply_opts opts [] 0) (\<lambda>(device, count).
     bindE (build_filter args []) (\<lambda>filt.
     bindE (create_pcap_handle a device filt) (\<lambda>h.
       case h of
         None \<Rightarrow> Inr (-1, 0, [])
       | Some d \<Rightarrow>
           case get_link_header_len (pa_datalink a) 0 of (linkhdrlen, out1) \<Rightarrow>
             if linkhdrlen = 0 then Inr (-1, 0, out1)
             else
               let ps = (if count \<le> 0 then pa_captured a else take (nat count) (pa_captured a)) in
               case capture ps 0 of (packets, out2) \<Rightarrow>
                 if \<not> pa_loop_ok a then Inr (-1, packets, out1 @ out2)
                 else Inr (0, packets, out1 @ out2 @ stop_capture (pa_stats a) packets))))"

section \<open>Choosing a device\<close>

text \<open>The array \<^verbatim>\<open>devs[100][100]\<close>, filled from index 1 on with the names of the devices.\<close>

definition DEVS :: nat where "DEVS = 100"

fun list_devices :: "nat \<Rightarrow> (string option \<times> string) list \<Rightarrow> string list \<Rightarrow> (string list \<times> string) res" where
  "list_devices count [] devs = Inr (devs, [])"
| "list_devices count ((name, desc) # ds) devs =
     bindE (case name of
              None \<Rightarrow> Inr devs
            | Some s \<Rightarrow> bindE (strcpy DEVS s) (\<lambda>s. arr_set devs count s)) (\<lambda>devs.
     bindE (list_devices (count + 1) ds devs) (\<lambda>(devs, out).
       Inr (devs, fmt_u count @ ''. '' @ (case name of None \<Rightarrow> ''(null)'' | Some s \<Rightarrow> s) @ '' - '' @
                  desc @ nl @ out)))"

text \<open>\<open>n\<close> is the number the user enters, \<open>garbage\<close> the uninitialised array, \<open>open_ok\<close> says which
  devices can be opened. The result is the device opened and what is printed.\<close>

definition sniff_pcap_main ::
  "(string option \<times> string) list option \<Rightarrow> string list \<Rightarrow> int \<Rightarrow> (string \<Rightarrow> bool) \<Rightarrow> bool \<Rightarrow>
   u8 list list \<Rightarrow> (string \<times> sniffer) res" where
  "sniff_pcap_main devices garbage n open_ok log_opened ps =
     (case devices of
        None \<Rightarrow> Inl (Exit 1)
      | Some ds \<Rightarrow>
          bindE (list_devices 1 ds garbage) (\<lambda>(devs, out).
          bindE (if n < 0 then Inl OutOfBounds else arr_get devs (nat n)) (\<lambda>devname.
            if \<not> open_ok devname then Inl (Exit 1)
            else
              let st = sniffer_init log_opened;
                  st = st\<lparr>stdout := ''Finding available devices ... Done'' @ nl @
                    ''Available Devices are :'' @ nl @ out @
                    ''Enter the number of the device you want to sniff : '' @
                    ''Opening device '' @ devname @ '' for sniffing ... Done'' @ nl @
                    (if log_opened then [] else ''Unable to create file.'')\<rparr> in
              Inr (devname, fold process_packet (take 10 ps) st))))"

section \<open>Lemmas\<close>

lemma list_devices_nth:
  assumes "list_devices count ds devs = Inr (devs', out)" "count + length ds \<le> length devs"
    "\<forall>d \<in> set ds. fst d \<noteq> None"
  shows "length devs' = length devs \<and> (\<forall>i < count. devs' ! i = devs ! i) \<and>
    (\<forall>k < length ds. Some (devs' ! (count + k)) = fst (ds ! k))"
  using assms
proof (induction count ds devs arbitrary: out rule: list_devices.induct)
  case (2 count name desc ds devs)
  then obtain s where s: "name = Some s" by auto
  from "2.prems"(1) s obtain devs1 o1 where r: "strcpy DEVS s = Inr s" "devs1 = devs[count := s]"
    "list_devices (count + 1) ds devs1 = Inr (devs', o1)"
    by (auto simp: bindE_eq_Inr_iff arr_set_eq_Inr strcpy_def split: if_splits)
  have c: "count < length devs" using "2.prems"(2) by simp
  have "length devs' = length devs1 \<and> (\<forall>i < count + 1. devs' ! i = devs1 ! i) \<and>
      (\<forall>k < length ds. Some (devs' ! (count + 1 + k)) = fst (ds ! k))"
    by (rule "2.IH"[where out = o1]) (use s r c "2.prems" in \<open>auto simp: arr_set_def\<close>)
  then show ?case using r(2) c s by (auto simp: nth_Cons split: nat.splits)
qed auto

lemma capture_all:
  "capture ps n = (n + length ps,
     concat (map (\<lambda>i. ''Received a packet: '' @ fmt_u (i + 1) @ nl) [n..<n + length ps]))"
proof (induction ps arbitrary: n)
  case (Cons p ps)
  have "[n..<n + length (p # ps)] = n # [n + 1..<n + 1 + length ps]" by (subst upt_conv_Cons) simp_all
  then show ?case
    unfolding capture.simps packet_handler_def prod.case Cons.IH[of "n + 1"] by (simp del: upt_Suc)
qed simp

text \<open>The filter expression: the arguments, each followed by a space, as long as they fit.\<close>

lemma build_filter_text:
  "length filt < DEV_SIZE \<Longrightarrow>
   build_filter args filt =
     (let f = filt @ concat (map (\<lambda>a. a @ '' '') args) in
      if length f < DEV_SIZE then Inr f else Inl OutOfBounds)"
proof (induction args arbitrary: filt)
  case (Cons a args)
  show ?case
  proof (cases "length (filt @ a @ '' '') < DEV_SIZE")
    case True
    with Cons.IH[OF True] show ?thesis by (simp add: strcpy_def Let_def)
  next
    case False
    then show ?thesis by (simp add: strcpy_def Let_def)
  qed
qed simp

text \<open>The last option of each kind decides.\<close>

fun opt_effect :: "opt \<Rightarrow> string \<times> int \<Rightarrow> string \<times> int" where
  "opt_effect (OptDevice d) x = (d, snd x)"
| "opt_effect (OptCount n) x = (fst x, atoi n)"
| "opt_effect c x = x"

definition opts_ok :: "opt list \<Rightarrow> bool" where
  "opts_ok opts \<longleftrightarrow> OptHelp \<notin> set opts \<and> (\<forall>d. OptDevice d \<in> set opts \<longrightarrow> length d < DEV_SIZE)"

lemma apply_opts_effect:
  "opts_ok opts \<Longrightarrow> apply_opts opts device count = Inr (fold opt_effect opts (device, count))"
  by (induction opts device count rule: apply_opts.induct) (auto simp: opts_ok_def strcpy_def)

text \<open>libpcap does what it is asked: it lists a device, accepts the filter, knows the link type and
  delivers packets until the count is reached.\<close>

definition pcap_ok :: "pcap_answers \<Rightarrow> bool" where
  "pcap_ok a \<longleftrightarrow>
     (\<exists>d ds. pa_devices a = Some (d # ds) \<and> length d < DEV_SIZE) \<and> pa_lookupnet a \<and> pa_open_live a \<and>
     pa_compile a \<and> pa_setfilter a \<and> pa_loop_ok a \<and> pa_datalink a \<in> {Some 0, Some 1, Some 8, Some 9}"

section \<open>Properties\<close>

text \<open>The filter sniffer, from its command line to its last line of output. If libpcap answers without
  errors and no option asks for help or names a device too long for its array, then a filter expression that
  is too long for its array overruns it, and otherwise the program captures the number of packets given
  by the last \<^verbatim>\<open>-n\<close> (all of them for none, for 0 and for a negative number), reports every packet with its
  number, prints the statistics with that number, and returns 0.\<close>

theorem sniffer_session:
  assumes "opts_ok opts" "pcap_ok a" "snd (fold opt_effect opts ([], 0)) = count"
    and "n = (if count \<le> 0 then length (pa_captured a) else min (nat count) (length (pa_captured a)))"
  shows "sniffer_main opts args a =
    (if length (concat (map (\<lambda>w. w @ '' '') args)) < DEV_SIZE
     then Inr (0, n, concat (map (\<lambda>i. ''Received a packet: '' @ fmt_u (i + 1) @ nl) [0..<n]) @ stop_capture (pa_stats a) n)
     else Inl OutOfBounds)"
proof -
  obtain dev where ap: "apply_opts opts [] 0 = Inr (dev, count)"
    using apply_opts_effect[OF assms(1), of "[]" 0] assms(3) by (cases "fold opt_effect opts ([], 0)") auto
  have f: "build_filter args [] = (let f = concat (map (\<lambda>w. w @ '' '') args) in
      if length f < DEV_SIZE then Inr f else Inl OutOfBounds)"
    using build_filter_text[of "[]" args] by (simp add: DEV_SIZE_def)
  have h: "\<exists>d. create_pcap_handle a dev filt = Inr (Some d)" for filt
    using assms(2) by (auto simp: create_pcap_handle_def pcap_ok_def strcpy_def)
  have l: "\<exists>k. get_link_header_len (pa_datalink a) 0 = (Suc k, [])"
    using assms(2) by (auto simp: get_link_header_len_def pcap_ok_def)
  let ?ps = "if count \<le> 0 then pa_captured a else take (nat count) (pa_captured a)"
  have "length ?ps = n" using assms(4) by (simp add: min.commute)
  then have "capture ?ps 0 = (n, concat (map (\<lambda>i. ''Received a packet: '' @ fmt_u (i + 1) @ nl) [0..<n]))"
    using capture_all[of ?ps 0] by simp
  moreover have "pa_loop_ok a" using assms(2) by (simp add: pcap_ok_def)
  ultimately show ?thesis
    using ap f h[of "concat (map (\<lambda>w. w @ '' '') args)"] l by (auto simp: sniffer_main_def Let_def)
qed

theorem sniffer_session_witness:
  "sniffer_main [OptDevice ''tap0'', OptCount ''1''] [''udp'']
     \<lparr>pa_devices = Some [''eth0''], pa_lookupnet = True, pa_open_live = True, pa_compile = True,
      pa_setfilter = True, pa_datalink = Some 1, pa_captured = [[1], [2]], pa_loop_ok = True, pa_stats = None\<rparr> =
   Inr (0, 1, ''Received a packet: '' @ fmt_u 1 @ nl)"
proof -
  let ?a = "\<lparr>pa_devices = Some [''eth0''], pa_lookupnet = True, pa_open_live = True, pa_compile = True,
      pa_setfilter = True, pa_datalink = Some 1, pa_captured = [[1], [2]], pa_loop_ok = True, pa_stats = None\<rparr>"
  have "atoi ''1'' = 1" by code_simp
  moreover have "opts_ok [OptDevice ''tap0'', OptCount ''1'']" by (auto simp: opts_ok_def DEV_SIZE_def)
  moreover have "pcap_ok ?a" by (simp add: pcap_ok_def DEV_SIZE_def)
  ultimately show ?thesis
    using sniffer_session[of "[OptDevice ''tap0'', OptCount ''1'']" ?a 1 1 "[''udp'']"]
    by (simp add: DEV_SIZE_def stop_capture_def)
qed

text \<open>Choosing a device. For at most 99 devices with names that fit, the number that the user enters
  selects exactly the device that was printed with this number; up to ten packets are taken from it. The
  callback counts none of them: its counting is commented out, so all counters stay 0. The number is not
  checked: a negative one, or one above 99, reads outside the array.\<close>

lemma process_packets_counters:
  "n_total (fold process_packet ps st) = n_total st \<and> n_tcp (fold process_packet ps st) = n_tcp st"
  by (induction ps arbitrary: st) (simp_all add: process_packet_def)

lemma list_devices_ok:
  "\<forall>d \<in> set ds. \<exists>s. fst d = Some s \<and> length s < DEVS \<Longrightarrow> count + length ds \<le> length devs \<Longrightarrow>
   \<exists>devs' out. list_devices count ds devs = Inr (devs', out)"
proof (induction ds arbitrary: count devs)
  case (Cons d ds)
  then obtain s desc where d: "d = (Some s, desc)" "length s < DEVS" by (cases d) auto
  have c: "count < length devs" using Cons.prems(2) by simp
  obtain devs' out where "list_devices (count + 1) ds (devs[count := s]) = Inr (devs', out)"
    using Cons.IH[of "count + 1" "devs[count := s]"] Cons.prems by auto
  with d c show ?case by (simp add: strcpy_def arr_set_def)
qed simp

theorem sniff_pcap_chooses:
  assumes "\<forall>d \<in> set ds. \<exists>s. fst d = Some s \<and> length s < DEVS" "length ds < DEVS" "length garbage = DEVS"
  shows "(1 \<le> k \<and> k \<le> length ds \<and> fst (ds ! (k - 1)) = Some dev \<longrightarrow>
      (if open_ok dev then
         \<exists>st. sniff_pcap_main (Some ds) garbage (int k) open_ok log_opened ps = Inr (dev, st) \<and>
           n_total st = 0 \<and> n_tcp st = 0
       else sniff_pcap_main (Some ds) garbage (int k) open_ok log_opened ps = Inl (Exit 1))) \<and>
    (n < 0 \<or> 99 < n \<longrightarrow> sniff_pcap_main (Some ds) garbage n open_ok log_opened ps = Inl OutOfBounds)"
proof -
  obtain devs out where l: "list_devices 1 ds garbage = Inr (devs, out)"
    using list_devices_ok[OF assms(1), of 1 garbage] assms(2,3) by auto
  have "\<forall>d \<in> set ds. fst d \<noteq> None" using assms(1) by auto
  from list_devices_nth[OF l _ this] assms(2,3)
  have len: "length devs = DEVS" and nth: "\<forall>j < length ds. Some (devs ! (1 + j)) = fst (ds ! j)" by simp_all
  have "devs ! k = dev" if "1 \<le> k" "k \<le> length ds" "fst (ds ! (k - 1)) = Some dev"
    using nth[rule_format, of "k - 1"] that by simp
  then show ?thesis
    using l len assms(2) process_packets_counters
    by (auto simp: sniff_pcap_main_def arr_get_def Let_def sniffer_init_def DEVS_def)
qed

theorem sniff_pcap_chooses_witness:
  "\<exists>st. sniff_pcap_main (Some [(Some ''eth0'', ''''), (Some ''tap0'', '''')]) (replicate DEVS '''') 2
     (\<lambda>d. True) True [[1], [2]] = Inr (''tap0'', st) \<and> n_total st = 0"
  using sniff_pcap_chooses[of "[(Some ''eth0'', ''''), (Some ''tap0'', '''')]" "replicate DEVS ''''" 2 "''tap0''"
      "\<lambda>d. True" True "[[1], [2]]"]
  by (auto simp: DEVS_def)

end
