(* ===== verification/NcVsock.thy ===== *)
theory NcVsock
  imports Fmt "HOL-Library.Sublist"
begin

text \<open>
  The netcat for vsock sockets, src/code_dump/vhost_vsock/nc-vsock.c: parsing of the arguments,
  opening the connection, the transfer of one buffer between two descriptors, and the relay loop.
  The answers of the operating system are arguments: one list per system call of a loop, consumed
  in order; when a list is used up the call has not returned yet and the result is \<open>Blocked\<close>.
\<close>

section \<open>Arguments\<close>

definition parse_cid :: "string \<Rightarrow> int" where
  "parse_cid cid_str =
     (case strtol cid_str of
        Some (cid, rest) \<Rightarrow> if rest = [] then long_to_int cid else -1
      | None \<Rightarrow> -1)"

definition parse_port :: "string \<Rightarrow> int" where
  "parse_port port_str =
     (case strtol port_str of
        Some (port, rest) \<Rightarrow> if rest = [] then long_to_int port else -1
      | None \<Rightarrow> -1)"

section \<open>Connections\<close>

text \<open>Answers for \<^verbatim>\<open>socket\<close>, \<^verbatim>\<open>bind\<close>, \<^verbatim>\<open>listen\<close>, \<^verbatim>\<open>accept\<close> and \<^verbatim>\<open>connect\<close>; the result of a function is
  the descriptor it returns and the descriptors it closed.\<close>

record listen_ans =
  la_socket :: int
  la_bind :: int
  la_listen :: int
  la_accept :: int

definition vsock_listen :: "listen_ans \<Rightarrow> string \<Rightarrow> int \<times> int list" where
  "vsock_listen a port_str =
     (let port = parse_port port_str in
      if port < 0 then (-1, [])
      else if la_socket a < 0 then (-1, [])
      else if la_bind a \<noteq> 0 then (-1, [la_socket a])
      else if la_listen a \<noteq> 0 then (-1, [la_socket a])
      else if la_accept a < 0 then (-1, [la_socket a])
      else (la_accept a, [la_socket a]))"

text \<open>The loop over the resolved addresses: for each one the answers of \<^verbatim>\<open>socket\<close> and \<^verbatim>\<open>connect\<close>. The
  variable \<open>fd\<close> is not initialised before the loop.\<close>

fun connect_loop :: "int \<Rightarrow> (int \<times> int) list \<Rightarrow> int \<times> int list" where
  "connect_loop fd [] = (fd, [])"
| "connect_loop fd ((s, c) # rest) =
     (if s < 0 then connect_loop s rest
      else if c \<noteq> 0 then (case connect_loop s rest of (r, closed) \<Rightarrow> (r, s # closed))
      else (s, []))"

definition tcp_connect :: "int \<Rightarrow> int \<Rightarrow> (int \<times> int) list \<Rightarrow> int \<times> int list" where
  "tcp_connect garbage getaddrinfo_ret addrs =
     (if getaddrinfo_ret \<noteq> 0 then (-1, []) else connect_loop garbage addrs)"

definition vsock_connect :: "int \<Rightarrow> int \<Rightarrow> string \<Rightarrow> string \<Rightarrow> int \<times> int list" where
  "vsock_connect socket_ans connect_ans cid_str port_str =
     (if parse_cid cid_str < 0 then (-1, [])
      else if parse_port port_str < 0 then (-1, [])
      else if socket_ans < 0 then (-1, [])
      else if connect_ans \<noteq> 0 then (-1, [socket_ans])
      else (socket_ans, []))"

record nc_env =
  ne_listen :: listen_ans
  ne_garbage :: int
  ne_getaddrinfo :: int
  ne_addrs :: "(int \<times> int) list"
  ne_dup2_in :: int
  ne_dup2_out :: int
  ne_socket :: int
  ne_connect :: int

definition get_remote_fd :: "nc_env \<Rightarrow> string list \<Rightarrow> int \<times> int list" where
  "get_remote_fd e argv =
     (if length argv \<ge> 3 \<and> argv ! 1 = ''-l'' then
        (case vsock_listen (ne_listen e) (argv ! 2) of (remote_fd, closed) \<Rightarrow>
           if remote_fd < 0 then (-1, closed)
           else if length argv = 6 \<and> argv ! 3 = ''-t'' then
             (case tcp_connect (ne_garbage e) (ne_getaddrinfo e) (ne_addrs e) of (fd, closed') \<Rightarrow>
                if fd < 0 then (-1, closed @ closed')
                else if ne_dup2_in e < 0 \<or> ne_dup2_out e < 0
                then (-1, closed @ closed' @ [fd, remote_fd])
                else (remote_fd, closed @ closed'))
           else (remote_fd, closed))
      else if length argv = 3 then vsock_connect (ne_socket e) (ne_connect e) (argv ! 1) (argv ! 2)
      else (-1, []))"

section \<open>Transfer\<close>

text \<open>\<^verbatim>\<open>flags = ret & ~O_NONBLOCK\<close>, set again when \<open>enable\<close>; \<^const>\<open>None\<close> when \<^verbatim>\<open>fcntl\<close> failed.\<close>

definition O_NONBLOCK :: cint where "O_NONBLOCK = 2048"

definition set_nonblock :: "cint \<Rightarrow> bool \<Rightarrow> cint option" where
  "set_nonblock ret enable =
     (if sint ret < 0 then None
      else let flags = ret AND NOT O_NONBLOCK in
           Some (if enable then flags OR O_NONBLOCK else flags))"

text \<open>Answers of \<^verbatim>\<open>write\<close>: \<open>WrErr True\<close> is \<^verbatim>\<open>EAGAIN\<close>. Answers of \<^verbatim>\<open>select\<close>: \<open>SelErr True\<close> is \<^verbatim>\<open>EINTR\<close>,
  \<open>SelOk b\<close> says whether the descriptor is in the returned set.\<close>

datatype wr_answer = WrErr bool | Wrote nat
datatype sel_answer = SelErr bool | SelOk bool

fun wait_writable :: "sel_answer list \<Rightarrow> (bool \<times> sel_answer list) res" where
  "wait_writable [] = Inl Blocked"
| "wait_writable (SelErr eintr # ss) = (if eintr then wait_writable ss else Inr (False, ss))"
| "wait_writable (SelOk ready # ss) = (if ready then Inr (True, ss) else wait_writable ss)"

text \<open>The write loop: the result is the return value, the bytes written, and the unused answers.\<close>

fun xfer_loop :: "wr_answer list \<Rightarrow> sel_answer list \<Rightarrow> u8 list \<Rightarrow> (int \<times> u8 list) res" where
  "xfer_loop ws ss [] = Inr (0, [])"
| "xfer_loop [] ss (b # bs) = Inl Blocked"
| "xfer_loop (w # ws) ss (b # bs) =
     (let nbytes = (case w of WrErr eagain \<Rightarrow> if eagain then Some 0 else None
                            | Wrote n \<Rightarrow> if n = 0 then None else Some n) in
      case nbytes of
        None \<Rightarrow> Inr (-1, [])
      | Some n \<Rightarrow>
          bindE (if length (b # bs) > n then wait_writable ss else Inr (True, ss)) (\<lambda>(go, ss).
            if \<not> go then Inr (-1, take n (b # bs))
            else bindE (xfer_loop ws ss (drop n (b # bs))) (\<lambda>(rc, out).
                   Inr (rc, take n (b # bs) @ out))))"

definition XFER_BUF_SIZE :: nat where "XFER_BUF_SIZE = 4096"

text \<open>\<open>avail\<close> are the bytes \<^verbatim>\<open>read\<close> finds, \<^const>\<open>None\<close> its failure; at most 4096 are taken.\<close>

definition xfer_data :: "u8 list option \<Rightarrow> wr_answer list \<Rightarrow> sel_answer list \<Rightarrow> (int \<times> u8 list) res" where
  "xfer_data avail ws ss =
     (case avail of
        None \<Rightarrow> Inr (-1, [])
      | Some bs \<Rightarrow>
          if bs = [] then Inr (-1, []) else xfer_loop ws ss (take XFER_BUF_SIZE bs))"

text \<open>One round of the relay: an error of \<^verbatim>\<open>select\<close>, or the directions that are readable, each with
  the answers for its transfer.\<close>

type_synonym xfer_args = "u8 list option \<times> wr_answer list \<times> sel_answer list"

datatype round = RErr bool | RReady "xfer_args option" "xfer_args option"

definition xfer_opt :: "xfer_args option \<Rightarrow> (int \<times> u8 list) res" where
  "xfer_opt a = (case a of None \<Rightarrow> Inr (0, []) | Some (avail, ws, ss) \<Rightarrow> xfer_data avail ws ss)"

text \<open>The bytes written to the remote side and to standard output; True when the loop has returned.\<close>

fun relay_rounds :: "round list \<Rightarrow> (bool \<times> u8 list \<times> u8 list) res" where
  "relay_rounds [] = Inr (False, [], [])"
| "relay_rounds (RErr eintr # rs) = (if eintr then relay_rounds rs else Inr (True, [], []))"
| "relay_rounds (RReady from_stdin from_remote # rs) =
     bindE (xfer_opt from_stdin) (\<lambda>(rc1, out1).
       if rc1 < 0 then Inr (True, out1, [])
       else
         bindE (xfer_opt from_remote) (\<lambda>(rc2, out2).
           if rc2 < 0 then Inr (True, out1, out2)
           else
             bindE (relay_rounds rs) (\<lambda>(fin, o1, o2).
               Inr (fin, out1 @ o1, out2 @ o2))))"

text \<open>Before the loop the three descriptors are made non-blocking; \<open>getfl\<close> gives the answers of \<^verbatim>\<open>fcntl(F_GETFL)\<close>,
  the result lists the calls of \<^verbatim>\<open>fcntl(F_SETFL)\<close>.\<close>

definition nonblock_calls :: "(int \<Rightarrow> cint) \<Rightarrow> int list \<Rightarrow> (int \<times> cint) list" where
  "nonblock_calls getfl fds =
     concat (map (\<lambda>fd. case set_nonblock (getfl fd) True of None \<Rightarrow> [] | Some flags \<Rightarrow> [(fd, flags)]) fds)"

text \<open>\<^verbatim>\<open>FD_SET\<close> of a descriptor outside the range of a \<^verbatim>\<open>fd_set\<close> is an access out of bounds.\<close>

definition FD_LIMIT :: int where "FD_LIMIT = 1024"

definition main_loop ::
  "(int \<Rightarrow> cint) \<Rightarrow> int \<Rightarrow> round list \<Rightarrow> ((int \<times> cint) list \<times> bool \<times> u8 list \<times> u8 list) res" where
  "main_loop getfl remote_fd rs =
     (let setfl = nonblock_calls getfl [0, 1, remote_fd] in
      if remote_fd < 0 \<or> FD_LIMIT \<le> remote_fd then Inl OutOfBounds
      else bindE (relay_rounds rs) (\<lambda>(fin, o1, o2). Inr (setfl, fin, o1, o2)))"

definition nc_main ::
  "nc_env \<Rightarrow> (int \<Rightarrow> cint) \<Rightarrow> string list \<Rightarrow> round list \<Rightarrow> (int \<times> u8 list \<times> u8 list) res" where
  "nc_main e getfl argv rs =
     (case get_remote_fd e argv of (remote_fd, closed) \<Rightarrow>
        if remote_fd < 0 then Inr (1, [], [])
        else bindE (main_loop getfl remote_fd rs) (\<lambda>(setfl, fin, o1, o2).
               if fin then Inr (0, o1, o2) else Inl Blocked))"

section \<open>Arguments round trip\<close>

text \<open>Decimal numbers are parsed as written: a port or context id printed in decimal and below
  \<^verbatim>\<open>2^31\<close> is returned unchanged. Larger ones lose their upper bits on the way from \<^verbatim>\<open>long\<close> to
  \<^verbatim>\<open>int\<close>: the number \<^verbatim>\<open>2^32 + n\<close> is accepted and means \<open>n\<close>.\<close>

theorem parse_port_roundtrip:
  assumes "n < 2 ^ 31"
  shows "parse_port (fmt_u n) = int n \<and> parse_cid (fmt_u n) = int n \<and>
    parse_port (fmt_u (2 ^ 32 + n)) = int n"
proof -
  have "long_to_int (int n) = int n" using assms
    by (simp add: long_to_int_def signed_of_nat signed_take_bit_int_eq_self)
  moreover have "long_to_int (int (2 ^ 32 + n)) = long_to_int (int n)"
  proof -
    have "(of_nat (2 ^ 32 + n) :: cint) = of_nat n" by (simp only: of_nat_add of_nat_power) simp
    then show ?thesis unfolding long_to_int_def by (metis of_int_of_nat_eq)
  qed
  ultimately show ?thesis using assms
    by (simp add: parse_port_def parse_cid_def strtol_fmt_u)
qed

theorem parse_port_roundtrip_witness:
  "parse_port (fmt_u 1234) = 1234 \<and> parse_port (fmt_u (2 ^ 32 + 1234)) = 1234"
  using parse_port_roundtrip[of 1234] by simp

section \<open>Transfer of one buffer\<close>

lemma xfer_loop_prefix:
  "xfer_loop ws ss bs = Inr (rc, out) \<Longrightarrow>
   (rc = 0 \<or> rc = -1) \<and> prefix out bs \<and> (rc = 0 \<longleftrightarrow> out = bs)"
proof (induction ws ss bs arbitrary: rc out rule: xfer_loop.induct)
  case (3 w ws ss b bs)
  let ?n = "case w of WrErr eagain \<Rightarrow> if eagain then Some 0 else None
                    | Wrote n \<Rightarrow> if n = 0 then None else Some n"
  show ?case
  proof (cases ?n)
    case None
    with "3.prems" show ?thesis by auto
  next
    case (Some n)
    let ?w = "if length (b # bs) > n then wait_writable ss else Inr (True, ss)"
    from "3.prems" Some obtain go ss' where g: "?w = Inr (go, ss')"
      "(if \<not> go then Inr (-1, take n (b # bs))
        else bindE (xfer_loop ws ss' (drop n (b # bs))) (\<lambda>(rc, out).
               Inr (rc, take n (b # bs) @ out))) = (Inr (rc, out) :: (int \<times> u8 list) res)"
      by (auto simp: bindE_eq_Inr_iff simp del: take_Cons' drop_Cons' split: prod.splits)
    show ?thesis
    proof (cases go)
      case True
      with g(2) obtain out' where o: "xfer_loop ws ss' (drop n (b # bs)) = Inr (rc, out')"
        "out = take n (b # bs) @ out'"
        by (auto simp: bindE_eq_Inr_iff)
      have IH: "(rc = 0 \<or> rc = -1) \<and> prefix out' (drop n (b # bs)) \<and>
          (rc = 0 \<longleftrightarrow> out' = drop n (b # bs))"
        by (rule "3.IH"[OF refl Some g(1) refl]) (use True o(1) in simp_all)
      have "out = b # bs \<longleftrightarrow> out' = drop n (b # bs)"
        using o(2) append_take_drop_id[of n "b # bs"] by (metis same_append_eq)
      moreover have "prefix out (b # bs)"
        using IH o(2) append_take_drop_id[of n "b # bs"] by (metis same_prefix_prefix)
      ultimately show ?thesis using IH by blast
    next
      case False
      with g have r: "rc = -1" "out = take n (b # bs)" "n < length (b # bs)"
        by (auto split: if_splits)
      then have "length out < length (b # bs)" by simp
      then have "out \<noteq> b # bs" by blast
      then show ?thesis using r take_is_prefix[of n "b # bs"] by simp
    qed
  qed
qed auto

lemma xfer_loop_completes:
  assumes "\<forall>w \<in> set ws. \<exists>n. w = Wrote (Suc n)" "\<forall>s \<in> set ss. s = SelOk True"
    and "length bs \<le> length ws" "length bs \<le> length ss"
  shows "xfer_loop ws ss bs = Inr (0, bs)"
  using assms
proof (induction ws arbitrary: ss bs)
  case Nil
  then show ?case by simp
next
  case (Cons w ws)
  show ?case
  proof (cases bs)
    case (Cons b cs)
    obtain n where n: "w = Wrote (Suc n)" using Cons.prems(1) by auto
    obtain ss' where ss: "ss = SelOk True # ss'" using Cons Cons.prems(2,4) by (cases ss) auto
    have *: "xfer_loop ws ss'' (drop n cs) = Inr (0, drop n cs)" if "ss'' = ss \<or> ss'' = ss'" for ss''
      by (rule Cons.IH) (use Cons.prems Cons ss that in auto)
    show ?thesis using * n ss Cons by simp
  qed simp
qed

text \<open>\<^verbatim>\<open>xfer_data\<close> never reorders or loses data without saying so: what it has written is always a
  prefix of what it read, and it returns 0 exactly when everything was written, through any
  sequence of short writes, \<^verbatim>\<open>EAGAIN\<close> and interrupted \<^verbatim>\<open>select\<close> calls.\<close>

theorem xfer_data_faithful:
  assumes "xfer_data (Some bs) ws ss = Inr (rc, out)" "bs \<noteq> []" "length bs \<le> XFER_BUF_SIZE"
  shows "(rc = 0 \<or> rc = -1) \<and> prefix out bs \<and> (rc = 0 \<longleftrightarrow> out = bs)"
  using assms(1) xfer_loop_prefix[of ws ss bs rc out] assms(2,3) by (auto simp: xfer_data_def)

theorem xfer_data_faithful_witness:
  "xfer_data (Some [1, 2, 3]) [Wrote 1, WrErr True, Wrote 2] [SelErr True, SelOk True, SelOk True] = Inr (0, [1, 2, 3])"
proof -
  have "\<exists>rc. xfer_data (Some [1, 2, 3]) [Wrote 1, WrErr True, Wrote 2] [SelErr True, SelOk True, SelOk True] =
      Inr (rc, [1, 2, 3])"
    by (simp add: xfer_data_def XFER_BUF_SIZE_def)
  then obtain rc where r: "xfer_data (Some [1, 2, 3]) [Wrote 1, WrErr True, Wrote 2]
      [SelErr True, SelOk True, SelOk True] = Inr (rc, [1, 2, 3])" ..
  from xfer_data_faithful[OF this] have "rc = 0" by (simp add: XFER_BUF_SIZE_def)
  with r show ?thesis by simp
qed

text \<open>\<^verbatim>\<open>xfer_data\<close> completes: if every write takes at least one byte and the descriptor becomes
  writable whenever it is waited for, all bytes that were read are written and the result is 0,
  after at most as many writes as there are bytes.\<close>

theorem xfer_data_completes:
  assumes "\<forall>w \<in> set ws. \<exists>n. w = Wrote (Suc n)" "\<forall>s \<in> set ss. s = SelOk True"
    and "bs \<noteq> []" "length bs \<le> length ws" "length bs \<le> length ss" "length bs \<le> XFER_BUF_SIZE"
  shows "xfer_data (Some bs) ws ss = Inr (0, bs)"
  using assms xfer_loop_completes[OF assms(1,2,4,5)] by (simp add: xfer_data_def)

theorem xfer_data_completes_witness:
  "xfer_data (Some [7, 8]) [Wrote 1, Wrote 1] [SelOk True, SelOk True] = Inr (0, [7, 8])"
  using xfer_data_completes[of "[Wrote 1, Wrote 1]" "[SelOk True, SelOk True]" "[7, 8]"]
  by (simp add: XFER_BUF_SIZE_def)

section \<open>The relay\<close>

text \<open>The bytes that a transfer reads.\<close>

definition xfer_in :: "xfer_args option \<Rightarrow> u8 list" where
  "xfer_in a = (case a of Some (Some bs, ws, ss) \<Rightarrow> take XFER_BUF_SIZE bs | _ \<Rightarrow> [])"

fun stdin_in :: "round list \<Rightarrow> u8 list" where
  "stdin_in [] = []"
| "stdin_in (RErr e # rs) = stdin_in rs"
| "stdin_in (RReady a b # rs) = xfer_in a @ stdin_in rs"

fun remote_in :: "round list \<Rightarrow> u8 list" where
  "remote_in [] = []"
| "remote_in (RErr e # rs) = remote_in rs"
| "remote_in (RReady a b # rs) = xfer_in b @ remote_in rs"

lemma xfer_opt_prefix:
  assumes "xfer_opt a = Inr (rc, out)"
  shows "prefix out (xfer_in a)" "0 \<le> rc \<Longrightarrow> out = xfer_in a"
proof -
  have "prefix out (xfer_in a) \<and> (0 \<le> rc \<longrightarrow> out = xfer_in a)"
    using assms
    by (auto simp: xfer_opt_def xfer_data_def xfer_in_def dest!: xfer_loop_prefix
        split: option.splits if_splits prod.splits)
  then show "prefix out (xfer_in a)" "0 \<le> rc \<Longrightarrow> out = xfer_in a" by blast+
qed

lemma relay_rounds_prefix:
  assumes "relay_rounds rs = Inr (fin, o1, o2)"
  shows "prefix o1 (stdin_in rs) \<and> prefix o2 (remote_in rs) \<and>
    (\<not> fin \<longrightarrow> o1 = stdin_in rs \<and> o2 = remote_in rs)"
  using assms
proof (induction rs arbitrary: fin o1 o2 rule: relay_rounds.induct)
  case (2 eintr rs)
  then show ?case by (cases eintr) auto
next
  case (3 a b rs)
  from "3.prems" obtain rc1 out1 where a: "xfer_opt a = Inr (rc1, out1)"
    by (auto simp: bindE_eq_Inr_iff)
  note pa = xfer_opt_prefix[OF a]
  show ?case
  proof (cases "rc1 < 0")
    case True
    then have "o1 = out1" "o2 = []" "fin" using "3.prems" a by auto
    then show ?thesis using prefix_order.trans[OF pa(1)] by auto
  next
    case False
    with "3.prems" a obtain rc2 out2 where b: "xfer_opt b = Inr (rc2, out2)"
      by (auto simp: bindE_eq_Inr_iff)
    note pb = xfer_opt_prefix[OF b]
    show ?thesis
    proof (cases "rc2 < 0")
      case True
      then have "o1 = out1" "o2 = out2" "fin" using "3.prems" a b False by auto
      then show ?thesis
        using prefix_order.trans[OF pa(1)] prefix_order.trans[OF pb(1)] by auto
    next
      case go: False
      with "3.prems" a b False obtain p1 p2 where r: "relay_rounds rs = Inr (fin, p1, p2)"
        "o1 = out1 @ p1" "o2 = out2 @ p2"
        by (auto simp: bindE_eq_Inr_iff)
      have "out1 = xfer_in a" "out2 = xfer_in b" using pa(2) pb(2) False go by auto
      then show ?thesis using "3.IH"[OF a refl False b refl go r(1)] r(2,3) by auto
    qed
  qed
qed auto

lemma nonblock_calls_set:
  assumes "\<forall>fd \<in> set fds. 0 \<le> sint (getfl fd)"
  shows "map fst (nonblock_calls getfl fds) = fds" "\<forall>(fd, fl) \<in> set (nonblock_calls getfl fds). fl = getfl fd OR O_NONBLOCK"
proof -
  have "set_nonblock (getfl fd) True = Some (getfl fd OR O_NONBLOCK)" if "fd \<in> set fds" for fd
    using that assms by (auto simp: set_nonblock_def Let_def bit_eq_iff bit_simps)
  then have "nonblock_calls getfl fds = map (\<lambda>fd. (fd, getfl fd OR O_NONBLOCK)) fds"
    by (induction fds) (auto simp: nonblock_calls_def)
  then show "map fst (nonblock_calls getfl fds) = fds" "\<forall>(fd, fl) \<in> set (nonblock_calls getfl fds). fl = getfl fd OR O_NONBLOCK"
    by (auto simp: o_def)
qed

text \<open>C31: The relay makes standard input, standard output and the remote descriptor non-blocking and keeps
  both byte streams in order: what was written to the remote side is a prefix of the concatenation
  of what was read from standard input, and what was written to standard output is a prefix of
  what was read from the remote side; while the loop runs they are equal.\<close>

theorem main_loop_relays:
  assumes "main_loop getfl remote_fd rs = Inr (setfl, fin, o1, o2)" "\<forall>fd \<in> {0, 1, remote_fd}. 0 \<le> sint (getfl fd)"
  shows "map fst setfl = [0, 1, remote_fd] \<and> (\<forall>(fd, fl) \<in> set setfl. fl = getfl fd OR O_NONBLOCK) \<and>
    prefix o1 (stdin_in rs) \<and> prefix o2 (remote_in rs) \<and>
    (\<not> fin \<longrightarrow> o1 = stdin_in rs \<and> o2 = remote_in rs)"
proof -
  from assms(1) have r: "setfl = nonblock_calls getfl [0, 1, remote_fd]" "relay_rounds rs = Inr (fin, o1, o2)"
    by (auto simp: main_loop_def Let_def bindE_eq_Inr_iff split: if_splits)
  from nonblock_calls_set[of "[0, 1, remote_fd]" getfl] assms(2)
  have "map fst setfl = [0, 1, remote_fd]" "\<forall>(fd, fl) \<in> set setfl. fl = getfl fd OR O_NONBLOCK"
    unfolding r(1) by auto
  with relay_rounds_prefix[OF r(2)] show ?thesis by blast
qed

theorem main_loop_relays_witness:
  "\<exists>setfl. main_loop (\<lambda>fd. 2) 5 [RReady (Some (Some [1, 2], [Wrote 2], [])) None] = Inr (setfl, False, [1, 2], []) \<and>
     map fst setfl = [0, 1, 5]"
proof -
  obtain setfl where r: "main_loop (\<lambda>fd. 2) 5 [RReady (Some (Some [1, 2], [Wrote 2], [])) None] = Inr (setfl, False, [1, 2], [])"
    by (simp add: main_loop_def xfer_opt_def xfer_data_def XFER_BUF_SIZE_def FD_LIMIT_def)
  with main_loop_relays[OF r] show ?thesis by simp
qed

section \<open>The descriptor of the remote side\<close>

text \<open>What the kernel promises of the descriptors it hands out while the program connects: one that is
  still open is not handed out again.\<close>

definition fresh_fds :: "nc_env \<Rightarrow> bool" where
  "fresh_fds e \<longleftrightarrow> la_accept (ne_listen e) \<noteq> la_socket (ne_listen e) \<and>
     la_accept (ne_listen e) \<notin> fst ` set (ne_addrs e)"

lemma connect_loop_closed: "connect_loop fd addrs = (r, closed) \<Longrightarrow> set closed \<subseteq> fst ` set addrs"
  by (induction fd addrs arbitrary: r closed rule: connect_loop.induct) (auto split: if_splits prod.splits)

text \<open>The program never relays on a descriptor that it has closed: whenever \<^verbatim>\<open>get_remote_fd\<close> succeeds, for any
  arguments and any answers of the kernel, its result is open; and \<^verbatim>\<open>main\<close> returns 1 without touching any
  data when it fails.\<close>

theorem nc_remote_open:
  assumes "get_remote_fd e argv = (fd, closed)" "fresh_fds e"
  shows "(0 \<le> fd \<longrightarrow> fd \<notin> set closed) \<and> (fd < 0 \<longrightarrow> nc_main e getfl argv rs = Inr (1, [], []))"
proof -
  have "fd \<notin> set closed" if "0 \<le> fd"
  proof (cases "tcp_connect (ne_garbage e) (ne_getaddrinfo e) (ne_addrs e)")
    case (Pair t cl)
    then have "set cl \<subseteq> fst ` set (ne_addrs e)"
      using connect_loop_closed[of "ne_garbage e" "ne_addrs e" t cl] by (auto simp: tcp_connect_def split: if_splits)
    with assms that Pair show ?thesis
      by (auto simp: get_remote_fd_def vsock_listen_def vsock_connect_def fresh_fds_def Let_def split: if_splits)
  qed
  with assms(1) show ?thesis by (auto simp: nc_main_def)
qed

theorem nc_remote_open_witness:
  "get_remote_fd \<lparr>ne_listen = \<lparr>la_socket = 3, la_bind = 0, la_listen = 0, la_accept = 4\<rparr>, ne_garbage = 0,
      ne_getaddrinfo = 0, ne_addrs = [(5, -1), (6, 0)], ne_dup2_in = 0, ne_dup2_out = 0, ne_socket = 0, ne_connect = 0\<rparr>
    [''nc'', ''-l'', ''12'', ''-t'', ''h'', ''80''] = (4, [3, 5]) \<and> (4 :: int) \<notin> set [3, 5]"
proof -
  let ?e = "\<lparr>ne_listen = \<lparr>la_socket = 3, la_bind = 0, la_listen = 0, la_accept = 4\<rparr>, ne_garbage = 0,
      ne_getaddrinfo = 0, ne_addrs = [(5, -1), (6, 0)], ne_dup2_in = 0, ne_dup2_out = 0, ne_socket = 0, ne_connect = 0\<rparr>"
  have "0 \<le> parse_port ''12''" by code_simp
  then have r: "get_remote_fd ?e [''nc'', ''-l'', ''12'', ''-t'', ''h'', ''80''] = (4, [3, 5])"
    by (simp add: get_remote_fd_def vsock_listen_def tcp_connect_def)
  have "fresh_fds ?e" by (simp add: fresh_fds_def)
  with nc_remote_open[OF r] r show ?thesis by simp
qed

section \<open>A failed connection\<close>

text \<open>\<^verbatim>\<open>tcp_connect\<close> reports success when every connection attempt failed: if sockets can be created
  but no address can be connected, it returns the last descriptor, which it has closed, and that
  is not negative, so the caller goes on with it.\<close>

theorem tcp_connect_returns_closed_fd:
  assumes "addrs \<noteq> []" "\<forall>(s, c) \<in> set addrs. 0 \<le> s \<and> c \<noteq> 0"
  shows "case tcp_connect garbage 0 addrs of (fd, closed) \<Rightarrow> 0 \<le> fd \<and> fd \<in> set closed"
proof -
  have *: "connect_loop fd0 addrs = (fst (last addrs), map fst addrs)" if "addrs \<noteq> []"
    "\<forall>(s, c) \<in> set addrs. 0 \<le> s \<and> c \<noteq> 0" for fd0 addrs
    using that
  proof (induction addrs arbitrary: fd0)
    case (Cons a addrs)
    then show ?case by (cases a; cases "addrs = []") auto
  qed simp
  have "0 \<le> fst (last addrs)" using assms(2) last_in_set[OF assms(1)] by fastforce
  with *[OF assms] show ?thesis using last_in_set[OF assms(1)] by (simp add: tcp_connect_def)
qed

theorem tcp_connect_returns_closed_fd_witness:
  "case tcp_connect (-7) 0 [(5, -1)] of (fd, closed) \<Rightarrow> 0 \<le> fd \<and> fd \<in> set closed"
  using tcp_connect_returns_closed_fd[of "[(5, -1)]" "-7"] by simp

end
