(* ===== verification/Veth.thy ===== *)
theory Veth
  imports NcVsock
begin

text \<open>
  The virtual-Ethernet experiments: the bridge src/code_dump/veth_bridge/vb.c, which forwards frames
  between two interfaces, and the TCP client and server src/code_dump/veth_bridge/client.c and
  server.c, which exchange one message. The answers of the system calls are arguments; the network interfaces
  that the bridge asks the kernel for are a small state.
\<close>

section \<open>The bridge\<close>

definition BRIDGE_BUF :: nat where "BRIDGE_BUF = 65536"

definition IFF_PROMISC :: u16 where "IFF_PROMISC = 0x100"

text \<open>
  What the kernel knows: the index and the flags of every interface, the interface index that a socket is
  bound to, and the sockets that were closed. \<open>open_answers\<close> are the remaining answers for one socket; \<open>oa_errno\<close>
  is the text of \<^verbatim>\<open>strerror(errno)\<close> at each of the five prints.
\<close>

record netk =
  nk_index :: "string \<rightharpoonup> u32"
  nk_flags :: "string \<rightharpoonup> u16"
  nk_bound :: "int \<rightharpoonup> u32"
  nk_closed :: "int list"

record open_answers =
  oa_socket :: int
  oa_sifflags :: int
  oa_bind :: int
  oa_errno :: "nat \<Rightarrow> string"

text \<open>The name in a \<^verbatim>\<open>struct ifreq\<close> has room for 15 characters. Flags and index share a union: the flags are its
  low 16 bits.\<close>

definition ifr_name :: "string \<Rightarrow> string" where
  "ifr_name ifname = take 15 ifname"

definition put_flags :: "u16 \<Rightarrow> u32 \<Rightarrow> u32" where
  "put_flags f u = push_bit 16 (drop_bit 16 u) OR ucast f"

text \<open>No answer is looked at but to print it: after a failed call the union keeps what it held, and on a bad
  descriptor every call fails. Two of the tests end in a semicolon, so their lines are always printed.\<close>

definition OpenSocket :: "open_answers \<Rightarrow> string \<Rightarrow> netk \<Rightarrow> int \<times> string \<times> netk" where
  "OpenSocket a ifname k =
     (let socket_fd = oa_socket a;
          name = ifr_name ifname;
          line = (\<lambda>txt n. txt @ oa_errno a n @ [CHR 0x0A]);
          ifru = (0 :: u32);
          ifru = (case (if socket_fd < 0 then None else nk_flags k name) of None \<Rightarrow> ifru | Some f \<Rightarrow> put_flags f ifru);
          ifru = put_flags (ucast ifru OR IFF_PROMISC) ifru;
          k = (if socket_fd < 0 \<or> oa_sifflags a = -1 then k else k\<lparr>nk_flags := (nk_flags k)(name \<mapsto> ucast ifru)\<rparr>);
          ifru = (case (if socket_fd < 0 then None else nk_index k name) of None \<Rightarrow> ifru | Some i \<Rightarrow> i);
          bound = (0 \<le> socket_fd \<and> oa_bind a \<noteq> -1);
          k = (if bound then k\<lparr>nk_bound := (nk_bound k)(socket_fd \<mapsto> ifru)\<rparr> else k) in
      (socket_fd,
       (if socket_fd \<noteq> -1 then line ''Socket creation: '' 0 else []) @ line ''Set promiscuous mode: '' 1 @
       line ''Enable promiscuous mode: '' 2 @ line ''Get interface index: '' 3 @
       (if bound then line ''Bind: '' 4 else []), k))"

text \<open>
  A frame on the wire as \<^verbatim>\<open>recvfrom\<close> with \<^verbatim>\<open>MSG_TRUNC\<close> delivers it: the buffer receives at most its
  size, the result is the length of the frame, also when that is larger; then \<^verbatim>\<open>sendto\<close> reads past the
  buffer. \<^const>\<open>None\<close> is an error, with result -1, which \<^verbatim>\<open>sendto\<close> takes as the largest size and refuses; its
  answer is ignored. The result is the buffer and what was sent.
\<close>

definition forward :: "u8 list option \<Rightarrow> u8 list \<Rightarrow> (u8 list \<times> u8 list option) res" where
  "forward frame buf =
     (case frame of
        None \<Rightarrow> Inr (buf, None)
      | Some f \<Rightarrow>
          bindE (buf_write buf 0 (take BRIDGE_BUF f)) (\<lambda>buf.
            if length f \<le> BRIDGE_BUF then Inr (buf, Some (take (length f) buf)) else Inl OutOfBounds))"

text \<open>A socket of a round that is readable or not, and the sends that this leads to.\<close>

definition forward_ready :: "u8 list option option \<Rightarrow> u8 list \<Rightarrow> (u8 list \<times> u8 list list) res" where
  "forward_ready r buf =
     (case r of
        None \<Rightarrow> Inr (buf, [])
      | Some f \<Rightarrow> bindE (forward f buf) (\<lambda>(buf, s). Inr (buf, case s of None \<Rightarrow> [] | Some bs \<Rightarrow> [bs])))"

text \<open>A round of the loop: \<^const>\<open>None\<close> when \<^verbatim>\<open>select\<close> failed, else what the two readable sockets
  deliver. The result is what was sent to socket 0 and to socket 1.\<close>

type_synonym bridge_round = "(u8 list option option \<times> u8 list option option) option"

fun bridge_loop :: "bridge_round list \<Rightarrow> u8 list \<Rightarrow> (u8 list list \<times> u8 list list) res" where
  "bridge_loop [] buf = Inr ([], [])"
| "bridge_loop (None # rs) buf = Inr ([], [])"
| "bridge_loop (Some (r0, r1) # rs) buf =
     bindE (forward_ready r0 buf) (\<lambda>(buf, to1).
     bindE (forward_ready r1 buf) (\<lambda>(buf, to0).
     bindE (bridge_loop rs buf) (\<lambda>(s0, s1).
       Inr (to0 @ s0, to1 @ s1))))"

text \<open>The handler of \<^verbatim>\<open>SIGINT\<close>: its text, and the sockets closed. The \<^verbatim>\<open>select\<close> that it interrupts fails.\<close>

definition CtrlCHandler :: "int \<Rightarrow> int \<Rightarrow> netk \<Rightarrow> string \<times> netk" where
  "CtrlCHandler s0 s1 k =
     ('' terminating...'' @ [CHR 0x0A] @ ''all sockets closed successfully.'' @ [CHR 0x0A],
      k\<lparr>nk_closed := nk_closed k @ [s0, s1]\<rparr>)"

record bridge_run =
  br_net :: netk
  br_out :: string
  br_to0 :: "u8 list list"
  br_to1 :: "u8 list list"

text \<open>\<open>ctrl_c\<close> says whether it was the signal that made \<^verbatim>\<open>select\<close> fail. A descriptor outside the range of a
  \<^verbatim>\<open>fd_set\<close> is written out of its bounds.\<close>

definition MakeBridge ::
  "open_answers \<Rightarrow> open_answers \<Rightarrow> string \<Rightarrow> string \<Rightarrow> bridge_round list \<Rightarrow> bool \<Rightarrow> u8 list \<Rightarrow> netk \<Rightarrow> bridge_run res" where
  "MakeBridge a0 a1 if1 if2 rs ctrl_c garbage k =
     (case OpenSocket a0 if1 k of (s0, out0, k) \<Rightarrow>
      case OpenSocket a1 if2 k of (s1, out1, k) \<Rightarrow>
        let out = out0 @ out1 @ ''Sockets '' @ fmt_d s0 @ '' and '' @ fmt_d s1 @ '' opened successfully'' @ [CHR 0x0A] in
        if s0 < 0 \<or> FD_LIMIT \<le> s0 \<or> s1 < 0 \<or> FD_LIMIT \<le> s1 then Inl OutOfBounds
        else
          bindE (bridge_loop rs garbage) (\<lambda>(to0, to1).
            let (bye, k) = (if None \<in> set rs \<and> ctrl_c then CtrlCHandler s0 s1 k else ([], k)) in
            Inr \<lparr>br_net = k, br_out = out @ bye, br_to0 = to0, br_to1 = to1\<rparr>))"

definition vb_usage :: "string \<Rightarrow> string" where
  "vb_usage prog = ''Usage: '' @ prog @ '' <if1> <if2>'' @ [CHR 0x0A] @
     ''Bridges two interfaces with the names specified.'' @ [CHR 0x0A]"

definition vb_main ::
  "string list \<Rightarrow> open_answers \<Rightarrow> open_answers \<Rightarrow> bridge_round list \<Rightarrow> bool \<Rightarrow> u8 list \<Rightarrow> netk \<Rightarrow> (string + bridge_run) res" where
  "vb_main argv a0 a1 rs ctrl_c garbage k =
     (if length argv \<noteq> 3 then Inr (Inl (vb_usage (hd argv)))
      else bindE (MakeBridge a0 a1 (argv ! 1) (argv ! 2) rs ctrl_c garbage k) (\<lambda>r. Inr (Inr r)))"

text \<open>The frames that arrive on a socket.\<close>

fun arrived :: "bool \<Rightarrow> bridge_round list \<Rightarrow> u8 list list" where
  "arrived first [] = []"
| "arrived first (None # rs) = []"
| "arrived first (Some (r0, r1) # rs) =
     (case (if first then r0 else r1) of Some (Some f) \<Rightarrow> [f] | _ \<Rightarrow> []) @ arrived first rs"

text \<open>Every frame that is delivered fits the buffer.\<close>

definition fits :: "u8 list option option \<Rightarrow> bool" where
  "fits r = (case r of Some (Some f) \<Rightarrow> length f \<le> BRIDGE_BUF | _ \<Rightarrow> True)"

fun rounds_fit :: "bridge_round list \<Rightarrow> bool" where
  "rounds_fit [] = True"
| "rounds_fit (None # rs) = True"
| "rounds_fit (Some (r0, r1) # rs) = (fits r0 \<and> fits r1 \<and> rounds_fit rs)"

lemma forward_ok:
  "length buf = BRIDGE_BUF \<Longrightarrow> length f \<le> BRIDGE_BUF \<Longrightarrow>
   \<exists>buf'. forward (Some f) buf = Inr (buf', Some f) \<and> length buf' = BRIDGE_BUF"
  by (auto simp: forward_def buf_write_def)

lemma forward_ready_ok:
  assumes "length buf = BRIDGE_BUF" "fits r"
  shows "\<exists>buf'. forward_ready r buf = Inr (buf', case r of Some (Some f) \<Rightarrow> [f] | _ \<Rightarrow> []) \<and> length buf' = BRIDGE_BUF"
proof (cases "\<exists>f. r = Some (Some f)")
  case True
  then obtain f where f: "r = Some (Some f)" "length f \<le> BRIDGE_BUF" using assms(2) by (auto simp: fits_def)
  from forward_ok[OF assms(1) f(2)] f(1) show ?thesis by (auto simp: forward_ready_def)
next
  case False
  then have "r = None \<or> r = Some None" by (metis not_None_eq)
  with assms(1) show ?thesis by (auto simp: forward_ready_def forward_def)
qed

lemma bridge_loop_forwards:
  assumes "rounds_fit rs" "length buf = BRIDGE_BUF"
  shows "bridge_loop rs buf = Inr (arrived False rs, arrived True rs)"
  using assms
proof (induction rs buf rule: bridge_loop.induct)
  case (3 r0 r1 rs buf)
  from forward_ready_ok[OF "3.prems"(2), of r0] "3.prems"(1) obtain buf1 where
    b1: "forward_ready r0 buf = Inr (buf1, case r0 of Some (Some f) \<Rightarrow> [f] | _ \<Rightarrow> [])" "length buf1 = BRIDGE_BUF" by auto
  from forward_ready_ok[OF b1(2), of r1] "3.prems"(1) obtain buf2 where
    b2: "forward_ready r1 buf1 = Inr (buf2, case r1 of Some (Some f) \<Rightarrow> [f] | _ \<Rightarrow> [])" "length buf2 = BRIDGE_BUF" by auto
  have "bridge_loop rs buf2 = Inr (arrived False rs, arrived True rs)"
    by (rule "3.IH"[OF b1(1) refl b2(1) refl]) (use "3.prems"(1) b2(2) in auto)
  then show ?case unfolding bridge_loop.simps b1(1) bindE_Inr prod.case b2(1) by simp
qed simp_all

text \<open>A socket that can be opened: it is bound to the interface of the given name, which is made promiscuous, and
  nothing else changes.\<close>

lemma put_flags_low: "ucast (put_flags f u) = f"
  by (rule bit_word_eqI) (auto simp: put_flags_def bit_simps)

lemma OpenSocket_bound:
  assumes "0 \<le> oa_socket a" "nk_index k (ifr_name ifname) = Some i" "oa_bind a \<noteq> -1"
  shows "\<exists>out fl. OpenSocket a ifname k =
      (oa_socket a, out, k\<lparr>nk_flags := (if oa_sifflags a = -1 then nk_flags k else (nk_flags k)(ifr_name ifname \<mapsto> fl)),
                          nk_bound := (nk_bound k)(oa_socket a \<mapsto> i)\<rparr>) \<and> fl AND IFF_PROMISC \<noteq> 0"
proof -
  define u where "u = (case nk_flags k (ifr_name ifname) of None \<Rightarrow> 0 | Some f \<Rightarrow> put_flags f (0 :: u32))"
  define fl where "fl = (ucast u OR IFF_PROMISC :: u16)"
  have "fl AND IFF_PROMISC \<noteq> 0" by (simp add: fl_def) (simp add: IFF_PROMISC_def)
  moreover have "\<exists>out. OpenSocket a ifname k =
      (oa_socket a, out, k\<lparr>nk_flags := (if oa_sifflags a = -1 then nk_flags k else (nk_flags k)(ifr_name ifname \<mapsto> fl)),
                          nk_bound := (nk_bound k)(oa_socket a \<mapsto> i)\<rparr>)"
    using assms by (simp add: OpenSocket_def Let_def put_flags_low fl_def u_def)
  ultimately show ?thesis by blast
qed

text \<open>C32: The bridge program. Called with two names of interfaces that exist (their first 15 characters
  count), with two different sockets that \<^verbatim>\<open>select\<close> can watch and that can be bound, it binds the first socket to
  the first interface and the second one to the second, switches both interfaces to promiscuous mode (unless the
  kernel refuses to set the flags), and as long as no frame exceeds the 64 KiB buffer it sends to each socket exactly
  the frames that were received from the other one, unchanged and in the same order; failed receptions are
  skipped. If the loop ends with \<^verbatim>\<open>SIGINT\<close>, both sockets are closed.\<close>

theorem bridge_forwards:
  assumes "rounds_fit rs" "length buf = BRIDGE_BUF" "length argv = 3"
    and "oa_socket a0 \<in> {0..<FD_LIMIT}" "oa_socket a1 \<in> {0..<FD_LIMIT}" "oa_socket a0 \<noteq> oa_socket a1"
    and "oa_bind a0 \<noteq> -1" "oa_bind a1 \<noteq> -1"
    and "nk_index k (take 15 (argv ! 1)) = Some i0" "nk_index k (take 15 (argv ! 2)) = Some i1"
  shows "\<exists>r. vb_main argv a0 a1 rs ctrl_c buf k = Inr (Inr r) \<and>
    nk_bound (br_net r) (oa_socket a0) = Some i0 \<and> nk_bound (br_net r) (oa_socket a1) = Some i1 \<and>
    br_to1 r = arrived True rs \<and> br_to0 r = arrived False rs \<and>
    (oa_sifflags a0 \<noteq> -1 \<and> oa_sifflags a1 \<noteq> -1 \<longrightarrow>
       (\<forall>name \<in> {take 15 (argv ! 1), take 15 (argv ! 2)}.
          \<exists>fl. nk_flags (br_net r) name = Some fl \<and> fl AND IFF_PROMISC \<noteq> 0)) \<and>
    (None \<in> set rs \<and> ctrl_c \<longrightarrow> nk_closed (br_net r) = nk_closed k @ [oa_socket a0, oa_socket a1])"
proof -
  obtain out0 fl0 where o0: "OpenSocket a0 (argv ! 1) k =
      (oa_socket a0, out0, k\<lparr>nk_flags := (if oa_sifflags a0 = -1 then nk_flags k else (nk_flags k)(ifr_name (argv ! 1) \<mapsto> fl0)),
         nk_bound := (nk_bound k)(oa_socket a0 \<mapsto> i0)\<rparr>)" (is "_ = (_, _, ?k1)") "fl0 AND IFF_PROMISC \<noteq> 0"
    using OpenSocket_bound[of a0 k "argv ! 1" i0] assms(4,7,9) by (auto simp: ifr_name_def)
  obtain out1 fl1 where o1: "OpenSocket a1 (argv ! 2) ?k1 =
      (oa_socket a1, out1, ?k1\<lparr>nk_flags := (if oa_sifflags a1 = -1 then nk_flags ?k1 else (nk_flags ?k1)(ifr_name (argv ! 2) \<mapsto> fl1)),
         nk_bound := (nk_bound ?k1)(oa_socket a1 \<mapsto> i1)\<rparr>)" "fl1 AND IFF_PROMISC \<noteq> 0"
    using OpenSocket_bound[of a1 ?k1 "argv ! 2" i1] assms(5,8,10) by (auto simp: ifr_name_def)
  show ?thesis
    unfolding vb_main_def MakeBridge_def o0(1) prod.case o1(1) bridge_loop_forwards[OF assms(1,2)] bindE_Inr
    using assms(3-6) o0(2) o1(2) by (simp add: CtrlCHandler_def ifr_name_def)
qed

text \<open>An interface that does not exist: nothing is checked, the index is read from the union in which the
  flags were put, and the socket is bound to interface 256.\<close>

lemma OpenSocket_unknown_interface:
  assumes "0 \<le> oa_socket a" "nk_index k (ifr_name ifname) = None" "nk_flags k (ifr_name ifname) = None" "oa_bind a \<noteq> -1"
  shows "\<exists>out k'. OpenSocket a ifname k = (oa_socket a, out, k') \<and> nk_bound k' (oa_socket a) = Some 256"
  using assms by (simp add: OpenSocket_def Let_def put_flags_def IFF_PROMISC_def)

definition veth_net :: netk where
  "veth_net = \<lparr>nk_index = [''veth0'' \<mapsto> 4, ''veth1'' \<mapsto> 5], nk_flags = [''veth0'' \<mapsto> 1, ''veth1'' \<mapsto> 1],
     nk_bound = Map.empty, nk_closed = []\<rparr>"

definition veth_answers :: "int \<Rightarrow> open_answers" where
  "veth_answers fd = \<lparr>oa_socket = fd, oa_sifflags = 0, oa_bind = 0, oa_errno = (\<lambda>n. ''Success'')\<rparr>"

theorem bridge_forwards_witness:
  "\<exists>r. vb_main [''vb'', ''veth0'', ''veth1''] (veth_answers 3) (veth_answers 4)
       [Some (Some (Some [1, 2]), None), Some (Some (Some [3]), Some (Some [9])), None] True (replicate BRIDGE_BUF 0) veth_net =
     Inr (Inr r) \<and>
     nk_bound (br_net r) 3 = Some 4 \<and> nk_bound (br_net r) 4 = Some 5 \<and> br_to1 r = [[1, 2], [3]] \<and> br_to0 r = [[9]] \<and>
     nk_closed (br_net r) = [3, 4]"
  using bridge_forwards[of "[Some (Some (Some [1, 2]), None), Some (Some (Some [3]), Some (Some [9])), None]"
      "replicate BRIDGE_BUF 0" "[''vb'', ''veth0'', ''veth1'']" "veth_answers 3" "veth_answers 4" veth_net 4 5 True]
  by (auto simp: fits_def BRIDGE_BUF_def FD_LIMIT_def veth_net_def veth_answers_def)

section \<open>Client and server\<close>

text \<open>A C string in a buffer ends at the first zero; \<^verbatim>\<open>fgets\<close> stores a line of at most \<open>n - 1\<close> characters.\<close>

definition c_str :: "string \<Rightarrow> string" where
  "c_str s = takeWhile (\<lambda>c. c \<noteq> CHR 0x00) s"

definition fgets :: "nat \<Rightarrow> string \<Rightarrow> string" where
  "fgets n s = take (n - 1) (takeWhile (\<lambda>c. c \<noteq> CHR 0x0A) s @ (if CHR 0x0A \<in> set s then [CHR 0x0A] else []))"

text \<open>Answers for the client; \<open>server_ptr\<close> is the uninitialised pointer that \<^verbatim>\<open>main\<close> tests, \<open>reply\<close> what
  \<^verbatim>\<open>read\<close> delivers (\<^const>\<open>None\<close> for an error). The result is the message written and the text printed.\<close>

record client_env =
  ce_socket :: int
  ce_server_ptr :: u64
  ce_connect :: int
  ce_stdin :: string
  ce_write :: int
  ce_reply :: "string option"

definition client_main :: "string list \<Rightarrow> client_env \<Rightarrow> (int \<times> string \<times> string) res" where
  "client_main argv e =
     (if length argv < 3 then Inl (Exit 0)
      else
        let portno = atoi (argv ! 2) in
        if ce_socket e < 0 then Inl (Exit 0)
        else if ce_server_ptr e = 0 then Inl (Exit 0)
        else if ce_connect e < 0 then Inl (Exit 0)
        else
          let msg = c_str (fgets 255 (ce_stdin e)) in
          if ce_write e < 0 then Inl (Exit 0)
          else case ce_reply e of
            None \<Rightarrow> Inl (Exit 0)
          | Some reply \<Rightarrow>
              Inr (portno, msg, ''Please enter the message: '' @ c_str (take 255 reply) @ [CHR 0x0A]))"

record server_env =
  se_socket :: int
  se_bind :: int
  se_accept :: int
  se_msg :: "string option"
  se_write :: int

definition server_main :: "string list \<Rightarrow> server_env \<Rightarrow> (int \<times> string \<times> string) res" where
  "server_main argv e =
     (if length argv < 2 then Inl (Exit 1)
      else if se_socket e < 0 then Inl (Exit 1)
      else
        let portno = atoi (argv ! 1) in
        if se_bind e < 0 then Inl (Exit 1)
        else if se_accept e < 0 then Inl (Exit 1)
        else case se_msg e of
          None \<Rightarrow> Inl (Exit 1)
        | Some msg \<Rightarrow>
            if se_write e < 0 then Inl (Exit 1)
            else Inr (portno, ''I got your message'',
                      ''Here is the message: '' @ c_str (take 255 msg) @ [CHR 0x0A]))"

text \<open>Client and server together: if the client sends a line to a server on the same port, the
  connection carries the bytes both ways in one piece and no call fails, then the server prints
  the line (up to 254 characters, up to a zero) and the client prints the answer of the server.
  The client gets that far only if its uninitialised pointer happens not to be null.\<close>

theorem chat_session:
  assumes "length argv_c \<ge> 3" "length argv_s \<ge> 2" "argv_c ! 2 = argv_s ! 1"
    and "0 \<le> ce_socket c" "0 \<le> ce_connect c" "0 \<le> ce_write c" "ce_server_ptr c \<noteq> 0"
    and "0 \<le> se_socket s" "0 \<le> se_bind s" "0 \<le> se_accept s" "0 \<le> se_write s"
    and "se_msg s = Some (c_str (fgets 255 (ce_stdin c)))" "ce_reply c = Some ''I got your message''"
  shows "\<exists>port. client_main argv_c c = Inr (port, c_str (fgets 255 (ce_stdin c)),
      ''Please enter the message: I got your message'' @ [CHR 0x0A]) \<and>
    server_main argv_s s = Inr (port, ''I got your message'',
      ''Here is the message: '' @ c_str (fgets 255 (ce_stdin c)) @ [CHR 0x0A])"
proof -
  have "length (c_str (fgets 255 (ce_stdin c))) \<le> 254"
    using length_takeWhile_le[of "\<lambda>c. c \<noteq> CHR 0x00" "fgets 255 (ce_stdin c)"]
    by (simp add: c_str_def fgets_def)
  moreover have "c_str (c_str t) = c_str t" for t by (simp add: c_str_def takeWhile_idem)
  moreover have "c_str (take 255 ''I got your message'') = ''I got your message''"
    by (simp add: c_str_def numeral_eq_Suc)
  ultimately show ?thesis using assms by (simp add: client_main_def server_main_def Let_def)
qed

definition chat_client :: client_env where
  "chat_client = \<lparr>ce_socket = 3, ce_server_ptr = 1, ce_connect = 0, ce_stdin = ''hi'' @ [CHR 0x0A], ce_write = 3,
     ce_reply = Some ''I got your message''\<rparr>"

definition chat_server :: server_env where
  "chat_server = \<lparr>se_socket = 3, se_bind = 0, se_accept = 4,
     se_msg = Some (c_str (fgets 255 (ce_stdin chat_client))), se_write = 18\<rparr>"

theorem chat_session_witness:
  "\<exists>port. server_main [''server'', ''80''] chat_server = Inr (port, ''I got your message'',
     ''Here is the message: '' @ c_str (fgets 255 (''hi'' @ [CHR 0x0A])) @ [CHR 0x0A])"
  using chat_session[of "[''client'', ''host'', ''80'']" "[''server'', ''80'']" chat_client chat_server]
  by (auto simp: chat_client_def chat_server_def)

end
