(* ===== verification/DpdkPorts.thy ===== *)
theory DpdkPorts
  imports Fmt
begin

text \<open>
  The DPDK packet counter src/code_dump/dpdk/main.c with the metadata of src/code_dump/dpdk/metadata.h:
  the callbacks that track the state of the queues, the statistics, and the receive loop. DPDK is a
  parameter: \<^verbatim>\<open>rte_vhost_dequeue_burst\<close> is a function argument \<open>burst\<close>, from the number of the call and the
  number of buffers that the program holds to the packet handed over, if any.
\<close>

section \<open>Metadata\<close>

datatype avip_mdata_type = TX | RX | TIME | TX_END

definition avip_mdata_type_num :: "avip_mdata_type \<Rightarrow> u8" where
  "avip_mdata_type_num t = (case t of TX \<Rightarrow> 1 | RX \<Rightarrow> 2 | TIME \<Rightarrow> 3 | TX_END \<Rightarrow> 4)"

text \<open>The packed header: type and flags, 6 bytes of padding, two 64-bit words that hold either the gap
  and the start group or latency and time, and 8 bytes of padding.\<close>

record avip_mdata =
  md_type :: u8
  md_flags :: u8
  md_pad1 :: "u8 list"
  md_word0 :: u64
  md_word1 :: u64
  md_pad2 :: u64

definition AVIP_MDATA_SIZE :: nat where "AVIP_MDATA_SIZE = 32"

definition mdata_bytes :: "avip_mdata \<Rightarrow> u8 list" where
  "mdata_bytes d = [md_type d, md_flags d] @ md_pad1 d @ le_bytes 8 (md_word0 d) @
     le_bytes 8 (md_word1 d) @ le_bytes 8 (md_pad2 d)"

definition mdata_of :: "u8 list \<Rightarrow> avip_mdata" where
  "mdata_of bs = \<lparr>md_type = bs ! 0, md_flags = bs ! 1, md_pad1 = take 6 (drop 2 bs),
     md_word0 = le_word (take 8 (drop 8 bs)), md_word1 = le_word (take 8 (drop 16 bs)),
     md_pad2 = le_word (take 8 (drop 24 bs))\<rparr>"

section \<open>Ports\<close>

definition MAX_PORTS :: nat where "MAX_PORTS = 1"
definition NR_MBUFS :: nat where "NR_MBUFS = 256"
definition VIRTIO_RXQ :: nat where "VIRTIO_RXQ = 0"
definition VIRTIO_TXQ :: nat where "VIRTIO_TXQ = 1"

record port_struct =
  tx_up :: int
  rx_up :: int
  rx_frames :: u64
  tx_frames :: u64
  rx_octets :: u64
  tx_octets :: u64

record dpdk_state =
  ports :: "port_struct list"
  held_mbufs :: nat
  out :: string

definition zero_port :: port_struct where
  "zero_port = \<lparr>tx_up = 0, rx_up = 0, rx_frames = 0, tx_frames = 0, rx_octets = 0, tx_octets = 0\<rparr>"

text \<open>\<^verbatim>\<open>ports[vid]\<close> with the device number of the library as the index.\<close>

definition upd_port :: "int \<Rightarrow> (port_struct \<Rightarrow> port_struct) \<Rightarrow> dpdk_state \<Rightarrow> dpdk_state res" where
  "upd_port vid f s =
     (if vid < 0 then Inl OutOfBounds
      else bindE (arr_get (ports s) (nat vid)) (\<lambda>p.
           bindE (arr_set (ports s) (nat vid) (f p)) (\<lambda>ps. Inr (s\<lparr>ports := ps\<rparr>))))"

text \<open>\<open>stamp\<close> is the time that the callbacks print.\<close>

definition destroy_vid :: "string \<Rightarrow> int \<Rightarrow> dpdk_state \<Rightarrow> dpdk_state res" where
  "destroy_vid stamp vid s =
     upd_port vid (\<lambda>p. p\<lparr>tx_up := 0, rx_up := 0\<rparr>)
       (s\<lparr>out := out s @ stamp @ '' Destroy device vid '' @ fmt_d vid @ [CHR 0x0A]\<rparr>)"

definition new_vid :: "string \<Rightarrow> int \<Rightarrow> dpdk_state \<Rightarrow> dpdk_state" where
  "new_vid stamp vid s = s\<lparr>out := out s @ stamp @ '' New device vid '' @ fmt_d vid @ [CHR 0x0A]\<rparr>"

definition vring_state_changed :: "string \<Rightarrow> int \<Rightarrow> u16 \<Rightarrow> int \<Rightarrow> dpdk_state \<Rightarrow> dpdk_state res" where
  "vring_state_changed stamp vid qid enable s =
     (let tag = (if unat qid = VIRTIO_RXQ then ''Rx'' else if unat qid = VIRTIO_TXQ then ''Tx'' else ''??'');
          s = s\<lparr>out := out s @ stamp @ '' '' @ tag @ '' vring state changed, vid = '' @ fmt_d vid @
                '', queue id = '' @ fmt_u (unat qid) @ '', enable = '' @ fmt_d enable @ [CHR 0x0A]\<rparr> in
      if unat qid = VIRTIO_TXQ then upd_port vid (\<lambda>p. p\<lparr>rx_up := enable\<rparr>) s
      else if unat qid = VIRTIO_RXQ then upd_port vid (\<lambda>p. p\<lparr>tx_up := enable\<rparr>) s
      else Inr s)"

definition sigint_handler :: "int \<Rightarrow> c_error" where
  "sigint_handler unregister_ret = (if unregister_ret \<noteq> 0 then Exit 1 else Exit 0)"

section \<open>Statistics\<close>

definition UPDATE_INTERVAL :: u64 where "UPDATE_INTERVAL = 5"

text \<open>Differences of one port between two snapshots: frames and octets received and sent.\<close>

definition port_delta :: "port_struct \<Rightarrow> port_struct \<Rightarrow> u64 \<times> u64 \<times> u64 \<times> u64" where
  "port_delta prev now =
     (rx_frames now - rx_frames prev, rx_octets now - rx_octets prev,
      tx_frames now - tx_frames prev, tx_octets now - tx_octets prev)"

text \<open>\<^verbatim>\<open>%10lu\<close>, and the line of a port.\<close>

definition fmt_10 :: "u64 \<Rightarrow> string" where
  "fmt_10 w = pad_left CHR '' '' 10 (fmt_u (unat w))"

definition stat_cols :: "u64 \<times> u64 \<times> u64 \<times> u64 \<Rightarrow> string" where
  "stat_cols d = (case d of (rf, ro, tf, to) \<Rightarrow>
     fmt_10 (rf div UPDATE_INTERVAL) @ '' '' @ fmt_10 (ro div UPDATE_INTERVAL) @ ''  '' @
     fmt_10 (tf div UPDATE_INTERVAL) @ '' '' @ fmt_10 (to div UPDATE_INTERVAL) @ [CHR 0x0A])"

definition add_delta :: "u64 \<times> u64 \<times> u64 \<times> u64 \<Rightarrow> u64 \<times> u64 \<times> u64 \<times> u64 \<Rightarrow> u64 \<times> u64 \<times> u64 \<times> u64" where
  "add_delta x y = (case (x, y) of ((a, b, c, d), (a', b', c', d')) \<Rightarrow> (a + a', b + b', c + c', d + d'))"

text \<open>One round of \<^verbatim>\<open>perf_stats\<close> over the ports that are up. The call that would start this thread is commented out in
  \<^verbatim>\<open>main\<close>.\<close>

definition perf_stats_round :: "port_struct list \<Rightarrow> port_struct list \<Rightarrow> port_struct list \<Rightarrow> string" where
  "perf_stats_round prev now live =
     (let up = filter (\<lambda>i. rx_up (live ! i) \<noteq> 0) [0..<MAX_PORTS];
          deltas = map (\<lambda>i. port_delta (prev ! i) (now ! i)) up in
      ''Port      Rx fps     Rx Bps      Tx fps     Tx Bps'' @ [CHR 0x0A] @
      concat (map (\<lambda>(i, d). '' '' @ pad_left CHR '' '' 2 (fmt_u i) @ ''   '' @ stat_cols d) (zip up deltas)) @
      ''Tot   '' @ stat_cols (foldl add_delta (0, 0, 0, 0) deltas) @ [CHR 0x0A])"

section \<open>The receive loop\<close>

text \<open>
  One port of one iteration; \<open>call\<close> numbers the burst calls. The received buffer is held from then on:
  the code that would free it is commented out.
\<close>

definition poll_port :: "(nat \<Rightarrow> nat \<Rightarrow> u8 list option) \<Rightarrow> nat \<Rightarrow> nat \<Rightarrow> dpdk_state \<Rightarrow> dpdk_state res" where
  "poll_port burst call port s =
     bindE (arr_get (ports s) port) (\<lambda>p.
       if rx_up p = 0 then Inr s
       else case burst call (held_mbufs s) of
         None \<Rightarrow> Inr s
       | Some bs \<Rightarrow>
           let len = sint (of_nat (length bs) - of_nat AVIP_MDATA_SIZE :: cint) in
           Inr (s\<lparr>held_mbufs := held_mbufs s + 1,
                  out := out s @ ''Length of pkt received is '' @ fmt_d len @ [CHR 0x0A]\<rparr>))"

text \<open>\<open>n\<close> iterations of the endless loop over the \<^verbatim>\<open>MAX_PORTS\<close> = 1 ports.\<close>

fun poll_loop :: "(nat \<Rightarrow> nat \<Rightarrow> u8 list option) \<Rightarrow> nat \<Rightarrow> nat \<Rightarrow> dpdk_state \<Rightarrow> dpdk_state res" where
  "poll_loop burst call 0 s = Inr s"
| "poll_loop burst call (Suc n) s =
     bindE (poll_port burst call 0 s) (\<lambda>t. poll_loop burst (call + 1) n t)"

definition dpdk_main :: "int \<Rightarrow> bool \<Rightarrow> bool \<Rightarrow> int \<Rightarrow> dpdk_state res" where
  "dpdk_main eal_ret cores_ok create_ok register_ret =
     (if eal_ret < 0 then Inl (Exit 1)
      else if \<not> cores_ok then Inl (Exit 1)
      else if \<not> create_ok then Inl (Exit 1)
      else if register_ret \<noteq> 0 then Inl (Exit 1)
      else Inr \<lparr>ports = replicate MAX_PORTS zero_port, held_mbufs = 0, out = []\<rparr>)"

section \<open>Properties\<close>

lemma mdata_roundtrip:
  "length (md_pad1 d) = 6 \<Longrightarrow> mdata_of (mdata_bytes d) = d \<and> length (mdata_bytes d) = AVIP_MDATA_SIZE"
  by (simp add: mdata_of_def mdata_bytes_def AVIP_MDATA_SIZE_def numeral_2_eq_2)

lemma poll_port_live:
  assumes "ports s = [p]" "rx_up p \<noteq> 0"
  shows "\<exists>t. poll_port burst call 0 s = Inr t \<and> ports t = [p] \<and>
    held_mbufs t = (if burst call (held_mbufs s) = None then held_mbufs s else held_mbufs s + 1) \<and>
    (burst call (held_mbufs s) = None \<longrightarrow> t = s)"
  using assms by (auto simp: poll_port_def Let_def split: option.splits)

lemma poll_loop_held:
  assumes "\<And>c h. (burst c h = None) = (NR_MBUFS \<le> h)" "ports s = [p]" "rx_up p \<noteq> 0" "held_mbufs s \<le> NR_MBUFS"
  shows "\<exists>t. poll_loop burst call n s = Inr t \<and> ports t = [p] \<and> held_mbufs t = min NR_MBUFS (held_mbufs s + n)"
  using assms(2,4)
proof (induction n arbitrary: s call)
  case (Suc n)
  from poll_port_live[OF Suc.prems(1) assms(3), of burst call]
  obtain t where t: "poll_port burst call 0 s = Inr t" "ports t = [p]"
    "held_mbufs t = (if NR_MBUFS \<le> held_mbufs s then held_mbufs s else held_mbufs s + 1)"
    by (auto simp: assms(1))
  then have "held_mbufs t \<le> NR_MBUFS" using Suc.prems(2) by simp
  from Suc.IH[OF t(2) this, of "call + 1"] t show ?case using Suc.prems(2) by (auto split: if_splits)
qed simp

lemma poll_loop_stuck:
  assumes "\<And>c. burst c (held_mbufs s) = None" "ports s = [p]" "rx_up p \<noteq> 0"
  shows "poll_loop burst call n s = Inr s"
proof (induction n arbitrary: call)
  case (Suc n)
  from poll_port_live[OF assms(2,3), of burst call] assms(1) have "poll_port burst call 0 s = Inr s" by auto
  with Suc.IH show ?case by simp
qed simp

text \<open>The receive loop leaks a buffer per packet. Against a pool of 256 buffers from which the library
  delivers a waiting packet exactly as long as not all buffers are held, \<open>n\<close> iterations of the loop
  return with \<open>n\<close> packets received up to 256 of them, and from then on any number of further
  iterations leave the state, output included, as it is: the guest's packets are ignored for good.\<close>

theorem dpdk_pool_exhausted:
  assumes "\<And>c h. (burst c h = None) = (NR_MBUFS \<le> h)"
    "ports s = [p]" "rx_up p \<noteq> 0" "held_mbufs s = 0"
  shows "\<exists>t. poll_loop burst call n s = Inr t \<and> held_mbufs t = min NR_MBUFS n \<and>
    (NR_MBUFS \<le> n \<longrightarrow> (\<forall>c m. poll_loop burst c m t = Inr t))"
proof -
  have "\<exists>t. poll_loop burst call n s = Inr t \<and> ports t = [p] \<and> held_mbufs t = min NR_MBUFS (held_mbufs s + n)"
    by (rule poll_loop_held) (simp_all add: assms)
  then obtain t where t: "poll_loop burst call n s = Inr t" "ports t = [p]" "held_mbufs t = min NR_MBUFS n"
    using assms(4) by auto
  moreover have "poll_loop burst c m t = Inr t" if "NR_MBUFS \<le> n" for c m
    by (rule poll_loop_stuck[OF _ t(2) assms(3)]) (simp add: assms(1) t(3) that)
  ultimately show ?thesis by blast
qed

theorem dpdk_pool_exhausted_witness:
  "\<exists>t. poll_loop (\<lambda>c h. if 256 \<le> h then None else Some [0]) 0 300
       \<lparr>ports = [zero_port\<lparr>rx_up := 1\<rparr>], held_mbufs = 0, out = []\<rparr> = Inr t \<and>
     held_mbufs t = 256 \<and>
     (\<forall>c m. poll_loop (\<lambda>c h. if 256 \<le> h then None else Some [0]) c m t = Inr t)"
  using dpdk_pool_exhausted[of "\<lambda>c h. if 256 \<le> h then None else Some [0]"
      "\<lparr>ports = [zero_port\<lparr>rx_up := 1\<rparr>], held_mbufs = 0, out = []\<rparr>" "zero_port\<lparr>rx_up := 1\<rparr>" 0 300]
  by (simp add: NR_MBUFS_def)

section \<open>The program and its callbacks\<close>

text \<open>The library calls the callbacks from its own thread while the main loop polls. \<open>dpdk_acts\<close> runs an
  interleaving of the two; the number of the burst call is the position in the interleaving.\<close>

datatype dpdk_act =
    New string int
  | Destroy string int
  | Vring string int u16 int
  | Poll

fun dpdk_do :: "(nat \<Rightarrow> nat \<Rightarrow> u8 list option) \<Rightarrow> nat \<Rightarrow> dpdk_act \<Rightarrow> dpdk_state \<Rightarrow> dpdk_state res" where
  "dpdk_do burst call (New stamp vid) s = Inr (new_vid stamp vid s)"
| "dpdk_do burst call (Destroy stamp vid) s = destroy_vid stamp vid s"
| "dpdk_do burst call (Vring stamp vid qid enable) s = vring_state_changed stamp vid qid enable s"
| "dpdk_do burst call Poll s = poll_port burst call 0 s"

fun dpdk_acts :: "(nat \<Rightarrow> nat \<Rightarrow> u8 list option) \<Rightarrow> nat \<Rightarrow> dpdk_act list \<Rightarrow> dpdk_state \<Rightarrow> dpdk_state res" where
  "dpdk_acts burst call [] s = Inr s"
| "dpdk_acts burst call (a # as) s = bindE (dpdk_do burst call a s) (dpdk_acts burst (call + 1) as)"

text \<open>The specification of the two flags: the last notification of the queue that the port receives from
  (or sends to), unless the device was destroyed after it. \<^verbatim>\<open>act_ok\<close>: the callback is for the only device.\<close>

fun flags_after :: "dpdk_act \<Rightarrow> int \<times> int \<Rightarrow> int \<times> int" where
  "flags_after (Destroy stamp vid) f = (0, 0)"
| "flags_after (Vring stamp vid qid enable) f =
     (if qid = 1 then (enable, snd f) else if qid = 0 then (fst f, enable) else f)"
| "flags_after a f = f"

fun act_ok :: "dpdk_act \<Rightarrow> bool" where
  "act_ok (Destroy stamp vid) = (vid = 0)"
| "act_ok (Vring stamp vid qid enable) = (vid = 0)"
| "act_ok a = True"

definition port_with :: "int \<times> int \<Rightarrow> port_struct" where
  "port_with f = zero_port\<lparr>rx_up := fst f, tx_up := snd f\<rparr>"

lemma queue_ids: "unat (q :: u16) = VIRTIO_TXQ \<longleftrightarrow> q = 1" "unat (q :: u16) = VIRTIO_RXQ \<longleftrightarrow> q = 0"
  by (auto simp: VIRTIO_TXQ_def VIRTIO_RXQ_def word_unat_eq_iff)

lemma upd_port_0: "ports s = [p] \<Longrightarrow> upd_port 0 f s = Inr (s\<lparr>ports := [f p]\<rparr>)"
  by (simp add: upd_port_def arr_get_def arr_set_def)

lemma dpdk_do_ok:
  assumes "act_ok a" "ports s = [port_with f]" "held_mbufs s \<le> NR_MBUFS"
    and pool: "\<forall>c h. NR_MBUFS \<le> h \<longrightarrow> burst c h = None"
  shows "\<exists>t. dpdk_do burst call a s = Inr t \<and> ports t = [port_with (flags_after a f)] \<and>
    held_mbufs t \<le> NR_MBUFS \<and> held_mbufs s \<le> held_mbufs t"
proof (cases a)
  case Poll
  have "held_mbufs s < NR_MBUFS" if "burst call (held_mbufs s) \<noteq> None" using pool[rule_format, of "held_mbufs s" call] that by (cases "NR_MBUFS \<le> held_mbufs s") auto
  with Poll assms(2,3) show ?thesis
    by (auto simp: poll_port_def arr_get_def Let_def Suc_le_eq split: option.splits)
qed (use assms in \<open>auto simp: new_vid_def destroy_vid_def vring_state_changed_def Let_def upd_port_0 queue_ids
    port_with_def zero_port_def\<close>)

lemma dpdk_acts_ok:
  assumes "\<forall>a \<in> set as. act_ok a" "ports s = [port_with f]" "held_mbufs s \<le> NR_MBUFS"
    and pool: "\<forall>c h. NR_MBUFS \<le> h \<longrightarrow> burst c h = None"
  shows "\<exists>t. dpdk_acts burst call as s = Inr t \<and> ports t = [port_with (fold flags_after as f)] \<and>
    held_mbufs t \<le> NR_MBUFS"
  using assms(1-3)
proof (induction as arbitrary: call s f)
  case (Cons a as)
  from dpdk_do_ok[OF _ Cons.prems(2,3) pool] Cons.prems(1) obtain t where
    "dpdk_do burst call a s = Inr t" "ports t = [port_with (flags_after a f)]" "held_mbufs t \<le> NR_MBUFS"
    by fastforce
  with Cons.IH[of t "flags_after a f" "call + 1"] Cons.prems(1) show ?case by simp
qed simp

end
