(* ===== verification/Spec2Isabelle.thy ===== *)
theory Spec2Isabelle
  imports Session PmdTools StartVm VtbLog VtbVhost Epoll BkendPcap RxRing PcapTools Veth Loopback DpdkPorts
begin

text \<open>
  \<^bold>\<open>A verification development for the C and C++ programs of the repository\<close>

  The repository collects small networking programs around virtual machines. This development
  models the programs under \<^verbatim>\<open>src/code_dump\<close> and \<^verbatim>\<open>src/vtb\<close> and proves what makes them correct, and
  where the code does not do what it means to, that as a theorem, too.

  \<^bold>\<open>The programs.\<close> The largest one is the vhost-user backend \<^verbatim>\<open>bkend/bkend.c\<close>: a server on a Unix
  socket receives the messages of a virtual machine monitor, maps the memory of the guest, sets up
  two virtqueues and starts threads that move Ethernet frames through the rings in guest memory.
  The virtual test bench \<^verbatim>\<open>vtb\<close> is a second backend, in C++ and on top of DPDK, with its own command
  line, configuration store and logger. Around them are packet sniffers on raw sockets and on libpcap,
  senders and receivers of raw frames, a netcat for virtual sockets, a bridge of two interfaces with a
  client and a server to try it, a launcher of virtual machines, servers on Unix-domain sockets, and
  experiments on top of DPDK.

  \<^bold>\<open>Layout.\<close>
  \<^item> \<open>Prelude\<close>: integer types as words, errors and the sequencing of fallible code (\<open>bindE\<close>), arrays with
    bounds checks, little- and big-endian bytes. \<open>Mem\<close>: guest and process memory as a partial map from
    64-bit addresses to bytes with loads and stores of 8 to 64 bits; the locale \<open>cell\<close> states the laws
    of a load after a store and is interpreted for the three widths. \<open>Fmt\<close>: the \<^verbatim>\<open>printf\<close> conversions
    and \<^verbatim>\<open>strtol\<close>.
  \<^item> \<open>VhostTypes\<close>, \<open>AddrTrans\<close>, \<open>VhostServer\<close>, \<open>VhostProps\<close>: the control plane of \<^verbatim>\<open>bkend.c\<close>. The records
    correspond to its structs (\<open>backend\<close>, \<open>vh_virtqueue\<close>, \<open>device_region\<close>, \<open>vh_msg\<close>, \<open>vh_desc\<close>), every
    case of \<^verbatim>\<open>process_vhost_msg\<close> is a \<open>handle_\<close> function, \<open>scan_fds\<close> and \<open>select_round\<close> are the loop of
    \<^verbatim>\<open>process_vh_msgs\<close>, and \<open>server_reach\<close> are the states that any number of rounds can reach. The locale
    \<open>translator\<close> is the contract of an address translation, interpreted for \<^verbatim>\<open>qva_to_va\<close> and for both modes
    of \<^verbatim>\<open>gpa_to_va\<close>. The properties: replies, the region table and its translation, ring set-up, descriptor
    and thread handling, messages that do not arrive complete, and the invariant of the server.
  \<^item> \<open>Ring\<close>, \<open>Dequeue\<close>, \<open>DeqProps\<close>: the transmit thread \<^verbatim>\<open>dequeue\<close>. The inductive \<open>frame_of\<close> specifies which
    bytes a descriptor chain holds; the descriptor loop \<open>deq_chain\<close> refines it in both directions, and a
    round of the thread returns every pending chain through the used ring. Further properties are
    termination and memory safety, under conditions on the descriptors that the links reach from the head
    (\<open>linked\<close>), and the cases in which they fail.
  \<^item> \<open>TxRing\<close>, \<open>Session\<close>: the composition of the parts of \<^verbatim>\<open>bkend.c\<close>. \<open>TxRing\<close> lets the transmit thread, cut into
    steps (\<open>tx_thread\<close>), run in any interleaving with a guest driver that keeps to the virtio protocol
    (\<open>tx_step\<close>); the pair refines the abstract queue \<open>txq_step\<close> by the simulation \<open>tx_sim\<close>, never fails and
    drains the ring. \<open>Session\<close> shows that the messages of the control socket put the rings into the state
    from which this holds, and that other messages do not disturb it.
  \<^item> \<open>BkendPcap\<close>: the transmit thread of the second copy of the backend, \<^verbatim>\<open>nonm/bkend.c\<close>, which also prints
    frames and feeds a pcap pipe; it is proved equivalent to the first for the guest.
  \<^item> \<open>Enqueue\<close>, \<open>EnqProps\<close>, \<open>RxBurst\<close>, \<open>RxRing\<close>: the receive thread \<^verbatim>\<open>enqueue\<close>, which sends a fixed frame in three
    buffers: what one packet does, then by induction a burst of packets followed by idle polling.
    \<open>RxRing\<close> cuts the thread into steps (\<open>rx_thread\<close>) that interleave with a driver which offers buffers and
    reads them back (\<open>rx_step\<close>); the pair refines the abstract stream of packets \<open>rxq_step\<close>, never fails and
    fills every offered buffer until the program ends it at a million frames (\<open>rx_limit\<close>).
  \<^item> \<open>VtbConfig\<close>, \<open>VtbLog\<close>, \<open>VtbVhost\<close>: the virtual test bench \<^verbatim>\<open>src/vtb\<close>. \<open>VtbConfig\<close> has the argument
    parser with a round trip between printing and parsing, the configuration store, whose type safety comes
    from the locale \<open>any_type\<close> interpreted for each stored type, and the port map with its invariant.
    \<open>VtbLog\<close> has the logger, a step relation of the callers and the background thread, the message
    streams, the controllers and \<^verbatim>\<open>main\<close>. For every interleaving with the background thread the log file is
    determined, and the terminal up to a shuffle with the usage, which is printed past the logger. \<open>VtbVhost\<close> is \<^verbatim>\<open>vhost_controller.cpp\<close>, a step relation over all
    interleavings of the producer, the consumer, the device callbacks and \<^verbatim>\<open>stop\<close>: exact order of the
    packets, conservation of buffers, termination after \<^verbatim>\<open>stop\<close> by a measure, the leak at shutdown, the
    counters, and the resources that the object acquires and releases.
  \<^item> \<open>HexDump\<close>, \<open>Sniff\<close>, \<open>PcapTools\<close>: the dump routines with their equivalence to printing row by row, the
    dissection and counting of packets up to the overflow of the counters (\<^verbatim>\<open>vm_tap/sniff.c\<close>, \<^verbatim>\<open>sniff_pcap.c\<close>, \<^verbatim>\<open>raw_eth_receive.c\<close>, \<^verbatim>\<open>rcv.c\<close>),
    the callback of \<^verbatim>\<open>guest_to_host/read_tap_pcap.c\<close>, and the capture tool \<^verbatim>\<open>raw_sockets/sniffer/sniffer.c\<close>
    from its command line to its statistics.
  \<^item> \<open>NcVsock\<close>: \<^verbatim>\<open>vhost_vsock/nc-vsock.c\<close>, with the relay loop that copies both byte streams.
  \<^item> \<open>Epoll\<close>: the servers and clients on Unix-domain sockets. The locale \<open>epoll_handler\<close> is the contract of an
    event handler, interpreted for the three servers: the open and the watched descriptors follow the
    connections as the events show them (\<open>connected\<close>), failures of \<^verbatim>\<open>epoll_ctl\<close> included. A run of each text server
    with its client prints what the client wrote, however the stream is cut; the integer server needs the packet
    in one piece.
  \<^item> \<open>RawSend\<close>, \<open>Veth\<close>: the raw-frame tools, the bridge \<^verbatim>\<open>veth_bridge/vb.c\<close>, whose sockets are bound in a small
    state of the kernel (\<open>netk\<close>: interfaces, flags, bindings), and the chat programs.
  \<^item> \<open>StartVm\<close>: the launcher \<^verbatim>\<open>dpdk/lm/startvm.cpp\<close> with the command lines that it builds and the MAC addresses
    that it hands out.
  \<^item> \<open>Loopback\<close>, \<open>DpdkPorts\<close>, \<open>TapDevice\<close>, \<open>PmdTools\<close>: the DPDK programs. The loopback and the backend of
    \<^verbatim>\<open>dpdkVirtioDevice\<close> are step relations over all interleavings with the device callbacks, and the packet
    counter of \<open>DpdkPorts\<close> runs over explicit interleavings of its loop and its callbacks (its statistics thread is
    modelled, but the program never starts it); \<open>TapDevice\<close> also
    has the TCP window updates of \<^verbatim>\<open>backpressure.cpp\<close>, byte by byte, and \<open>PmdTools\<close> the drain loops, the
    buffer dump and the set-up of ports.

  This theory adds a property that spans the senders, the bridge and the sniffer.

  \<^bold>\<open>Conventions.\<close> Fallible code returns a sum: \<open>Inl\<close> an error (an access outside an array or outside
  mapped memory, a failed assertion, the exit of the process, a division by zero, an exception), \<open>Inr\<close> the
  result. The answers of system calls are arguments of the functions that make the calls; uninitialised
  memory is an argument called \<open>garbage\<close>. Libraries that are not part of the repository (libpcap, DPDK)
  are arguments, too, and what a program relies on is a hypothesis (\<open>fifo_ring\<close>, \<open>rte_ring\<close>, \<open>mmap_ok\<close>). The
  guest driver is a part of the step relations \<open>tx_step\<close> and \<open>rx_step\<close>: it may write what it owns (everything
  outside \<open>guest_keeps\<close>, or \<open>rx_keeps\<close>), publish chains, and offer and read back receive buffers.

  \<^bold>\<open>Fuel.\<close> The loops of \<^verbatim>\<open>dequeue\<close> take a bound on their iterations because they may run forever
  (\<open>deq_chain_hangs\<close>), and so does the polling loop of \<^verbatim>\<open>enqueue\<close> (\<open>enq_run\<close>).
  The theorems that say a result is reached hold for every bound from some value on, and \<open>deq_chain_ends\<close> gives \<^verbatim>\<open>MAX_LEN\<close> as a sufficient one. All other loops are total functions; endless
  main loops are functions of the list of answers they receive, or step relations.

  \<^bold>\<open>Not modelled.\<close> Files that repeat a modelled one (\<^verbatim>\<open>vm_tap/bkend.c\<close>, \<^verbatim>\<open>vm_tap/sniffex.c\<close>,
  \<^verbatim>\<open>vm_tap/raw_eth_send.c\<close>, the copies under \<^verbatim>\<open>dpdk/dpdkTapDevice\<close> and \<^verbatim>\<open>dpdk/dpdkVirtioDevice\<close>, the test of
  the test bench), the stopwatch \<^verbatim>\<open>chronos.h\<close>, a terminal demonstration, scripts and notes. The step relations
  assume sequential consistency. The receive thread takes three buffers whenever
  one is offered (\<open>enq_takes_unoffered_buffers\<close>), so \<open>rx_step\<close> has the driver offer them in threes; no code of the repository starts it. The transmit thread is proved for one thread per queue; the code
  can start more (\<open>enable_starts_threads\<close>).
\<close>

section \<open>A frame from the sender to the sniffer\<close>

lemma send_main_bytes:
  assumes "ifn = (if length argv > 1 then argv ! 1 else default_if)" "length ifn < IFNAMSIZ"
    "length (ia_hwaddr a ifn) = 6"
  shows "\<exists>fr out. send_main default_if argv a = Inr (fr, out) \<and>
    sf_bytes fr = replicate 6 0 @ ia_hwaddr a ifn @ [8, 0, 222, 173, 190, 239]"
  using assms build_frame_ok[OF assms(3)] by (simp add: send_main_def if_name_def strcpy_def)

lemma sniff_short_after:
  assumes "23 < length p" "length p \<le> RECV_BUF_SIZE" "length f \<le> 23" "length buffer = RECV_BUF_SIZE"
  shows "\<exists>buffer' st. sniff_loop [Some p, Some f] buffer (sniffer_init True) = Inr (False, buffer', st) \<and>
    counted (sniffer_init True) [p, p] st"
proof -
  obtain b1 where b1: "buf_write buffer 0 p = Inr b1" using assms by (auto simp: buf_write_def)
  have l1: "length b1 = RECV_BUF_SIZE" using b1 assms(4) by (auto simp: buf_write_def split: if_splits)
  obtain b2 where b2: "buf_write b1 0 f = Inr b2" using assms l1 by (auto simp: buf_write_def RECV_BUF_SIZE_def)
  have l2: "length b2 = RECV_BUF_SIZE" using b2 l1 by (auto simp: buf_write_def split: if_splits)
  have "take (length p) b1 ! 23 = b1 ! 23" using assms(1) by simp
  then have n1: "b1 ! 23 = p ! 23" using buf_write_prefix[OF b1] by simp
  have n2: "b2 ! 23 = p ! 23"
    using b2 assms(3) n1 l1 by (auto simp: buf_write_def nth_append RECV_BUF_SIZE_def split: if_splits)
  from ProcessPacket_counted[OF _ _ _ n1, of "length p" "sniffer_init True"] l1 assms(2)
  obtain s1 where s1: "ProcessPacket b1 (int (length p)) (sniffer_init True) = Inr s1"
    "counted (sniffer_init True) [p] s1" "logfile s1 \<noteq> None" "within_total s1"
    by (auto simp: RECV_BUF_SIZE_def sniffer_init_def within_total_def)
  have "n_total s1 < 2 ^ 31 - 1" using s1(2) by (simp add: counted_def sniffer_init_def)
  from ProcessPacket_counted[OF _ _ s1(3) n2 s1(4) this, of "length f"] l2 assms(3)
  obtain s2 where s2: "ProcessPacket b2 (int (length f)) s1 = Inr s2" "counted s1 [p] s2"
    by (auto simp: RECV_BUF_SIZE_def)
  from counted_trans[OF s1(2) s2(2)] show ?thesis by (simp add: b1 b2 s1 s2)
qed

text \<open>C37: From the sender over the bridge to the sniffer. The frame of the senders (interface name of
  fewer than 16 characters, an interface with a hardware address) crosses the bridge unchanged. It
  has 18 bytes and the sniffer looks at byte 23 of its buffer whatever the length is, so a sniffer
  that has received a packet \<open>p\<close> before counts the frame as a second packet of the protocol of \<open>p\<close>.\<close>

theorem sent_frame_counted_as_previous:
  assumes "ifn = (if length argv > 1 then argv ! 1 else default_if)" "length ifn < IFNAMSIZ"
    "length (ia_hwaddr a ifn) = 6"
    and "length bridge_buf = BRIDGE_BUF" "length buffer = RECV_BUF_SIZE"
    and "23 < length p" "length p \<le> RECV_BUF_SIZE"
  shows "\<exists>fr out buffer' st. send_main default_if argv a = Inr (fr, out) \<and> length (sf_bytes fr) = 18 \<and>
    bridge_loop [Some (Some (Some (sf_bytes fr)), None)] bridge_buf = Inr ([], [sf_bytes fr]) \<and>
    sniff_loop [Some p, Some (sf_bytes fr)] buffer (sniffer_init True) = Inr (False, buffer', st) \<and>
    counted (sniffer_init True) [p, p] st"
proof -
  from send_main_bytes[OF assms(1-3)] obtain fr out where
    fr: "send_main default_if argv a = Inr (fr, out)" "length (sf_bytes fr) = 18" using assms(3) by auto
  from forward_ok[OF assms(4), of "sf_bytes fr"] fr(2) obtain b where
    "forward (Some (sf_bytes fr)) bridge_buf = Inr (b, Some (sf_bytes fr))" by (auto simp: BRIDGE_BUF_def)
  then have "bridge_loop [Some (Some (Some (sf_bytes fr)), None)] bridge_buf = Inr ([], [sf_bytes fr])"
    by (simp add: forward_ready_def)
  moreover have "\<exists>buffer' st. sniff_loop [Some p, Some (sf_bytes fr)] buffer (sniffer_init True) =
      Inr (False, buffer', st) \<and> counted (sniffer_init True) [p, p] st"
    by (rule sniff_short_after) (use assms fr(2) in simp_all)
  ultimately show ?thesis using fr by blast
qed

theorem sent_frame_counted_as_previous_witness:
  "\<exists>fr out buffer' st. raw_eth_send_main [''raw_eth_send'']
       \<lparr>ia_index = \<lambda>_. 2, ia_hwaddr = \<lambda>_. [2, 0, 0, 0, 0, 1], ia_sendto = 18\<rparr> = Inr (fr, out) \<and>
     sniff_loop [Some igmp_demo, Some (sf_bytes fr)] (replicate RECV_BUF_SIZE 0) (sniffer_init True) =
       Inr (False, buffer', st) \<and> n_igmp st = 2"
proof -
  have p: "proto_of igmp_demo = 2" by code_simp
  have "length igmp_demo = 24" by (simp add: igmp_demo_def)
  with sent_frame_counted_as_previous[of "''eth0''" "[''raw_eth_send'']" "''eth0''"
      "\<lparr>ia_index = \<lambda>_. 2, ia_hwaddr = \<lambda>_. [2, 0, 0, 0, 0, 1], ia_sendto = 18\<rparr>"
      "replicate BRIDGE_BUF 0" "replicate RECV_BUF_SIZE 0" igmp_demo]
  obtain fr out buffer' st where r: "send_main ''eth0'' [''raw_eth_send'']
       \<lparr>ia_index = \<lambda>_. 2, ia_hwaddr = \<lambda>_. [2, 0, 0, 0, 0, 1], ia_sendto = 18\<rparr> = Inr (fr, out)"
    "sniff_loop [Some igmp_demo, Some (sf_bytes fr)] (replicate RECV_BUF_SIZE 0) (sniffer_init True) =
       Inr (False, buffer', st)" "counted (sniffer_init True) [igmp_demo, igmp_demo] st"
    by (auto simp: IFNAMSIZ_def RECV_BUF_SIZE_def)
  then have "n_igmp st = 2" by (simp add: counted_def count_proto_def p sniffer_init_def)
  with r show ?thesis unfolding raw_eth_send_main_def by blast
qed

end
